(* ===== verification/Prelude.thy ===== *)
theory Prelude
  imports Main "HOL-Library.Word" "HOL-Library.State_Monad" "HOL-Library.List_Lexorder"
begin

text \<open>
  Shared ground of the development: the machine types of the crate (a 64-bit
  Windows target), \<open>std::io::Error\<close> as a datatype, the two's-complement casts
  between \<open>u32\<close> and \<open>i32\<close>, operations over the state monad of the library
  that read like Rust's \<open>?\<close>, and the generic lemmas on lists, maps and words
  that the components share.
\<close>

section \<open>Machine types\<close>

type_synonym u8 = "8 word"
type_synonym u16 = "16 word"
type_synonym u32 = "32 word"
type_synonym u64 = "64 word"

text \<open>\<open>usize\<close>, and a \<open>HANDLE\<close> (\<open>*mut c_void\<close>), which the code casts to
  \<open>usize\<close> and back.\<close>

type_synonym usize = "64 word"
type_synonym handle = "64 word"

text \<open>A process identifier (\<open>dwProcessId\<close>).\<close>

type_synonym pid = "32 word"

text \<open>An \<open>OsString\<close> as the code reads it through \<open>encode_wide\<close>: 16-bit units,
  not necessarily well-formed UTF-16.\<close>

type_synonym os_string = "16 word list"

text \<open>A Rust \<open>char\<close> (a Unicode scalar value) and a Rust \<open>String\<close>.\<close>

type_synonym rchar = "32 word"
type_synonym rstring = "32 word list"

abbreviation (input) null_handle :: handle where
  "null_handle \<equiv> 0"

definition INVALID_HANDLE_VALUE :: handle where
  "INVALID_HANDLE_VALUE = - 1"

lemma INVALID_HANDLE_VALUE_not_null [simp]:
  "INVALID_HANDLE_VALUE \<noteq> 0" "0 \<noteq> INVALID_HANDLE_VALUE"
  by (simp_all add: INVALID_HANDLE_VALUE_def)

text \<open>The test \<open>h != INVALID_HANDLE_VALUE && !h.is_null()\<close> the code repeats.\<close>

definition valid_handle :: "handle \<Rightarrow> bool" where
  "valid_handle h \<longleftrightarrow> h \<noteq> INVALID_HANDLE_VALUE \<and> h \<noteq> null_handle"

lemma invalid_handles [simp]:
  "\<not> valid_handle INVALID_HANDLE_VALUE" "\<not> valid_handle 0"
  by (simp_all add: valid_handle_def)

section \<open>Signed and unsigned 32-bit casts\<close>

text \<open>An \<open>i32\<close> is kept as an \<open>int\<close>; \<open>as\<close> reads the same bits.\<close>

definition u32_as_i32 :: "u32 \<Rightarrow> int" where
  "u32_as_i32 w = sint w"

definition i32_as_u32 :: "int \<Rightarrow> u32" where
  "i32_as_u32 i = word_of_int i"

lemma i32_as_u32_of_u32 [simp]: "i32_as_u32 (u32_as_i32 w) = w"
  by (simp add: i32_as_u32_def u32_as_i32_def)

lemma u32_as_i32_of_i32:
  "- (2 ^ 31) \<le> i \<Longrightarrow> i < 2 ^ 31 \<Longrightarrow> u32_as_i32 (i32_as_u32 i) = i"
  by (simp add: i32_as_u32_def u32_as_i32_def sint_sbintrunc' signed_take_bit_int_eq_self)

lemma u32_as_i32_inject [simp]: "u32_as_i32 a = u32_as_i32 b \<longleftrightarrow> a = b"
  by (metis i32_as_u32_of_u32)

section \<open>I/O errors and results\<close>

text \<open>
  The \<open>std::io::Error\<close> values the crate makes: \<open>last_os_error()\<close>, an error of
  kind \<open>BrokenPipe\<close>, and \<open>Error::other\<close>. A \<open>Result<T, io::Error>\<close> is
  \<open>io_error + 'a\<close>, \<open>Inl\<close> for \<open>Err\<close>.
\<close>

datatype io_error = Os_Error u32 | Broken_Pipe string | Other_Error string

text \<open>Rust's \<open>?\<close> in a computation over a state.\<close>

definition try_bind ::
  "('s, 'e + 'a) state \<Rightarrow> ('a \<Rightarrow> ('s, 'e + 'b) state) \<Rightarrow> ('s, 'e + 'b) state" where
  "try_bind m f = do {
     r \<leftarrow> m;
     case r of Inl e \<Rightarrow> State_Monad.return (Inl e) | Inr x \<Rightarrow> f x
   }"

lemma run_try_bind [simp]:
  "run_state (try_bind m f) s =
     (case run_state m s of
        (Inl e, s') \<Rightarrow> (Inl e, s')
      | (Inr x, s') \<Rightarrow> run_state (f x) s')"
  by (simp add: try_bind_def split: prod.split sum.split)

section \<open>Lists\<close>

lemma takeWhile_append_stop:
  "(\<forall>x\<in>set xs. P x) \<Longrightarrow> \<not> P y \<Longrightarrow> takeWhile P (xs @ y # ys) = xs"
  by (induction xs) auto

lemma dropWhile_append_stop:
  "(\<forall>x\<in>set xs. P x) \<Longrightarrow> \<not> P y \<Longrightarrow> dropWhile P (xs @ y # ys) = y # ys"
  by (induction xs) auto

lemma concat_replicate_pair: "concat (replicate n [x, x]) = replicate (2 * n) x"
  by (induction n) auto

lemma distinct_map_filter_key:
  "distinct (map fst xs) \<Longrightarrow> distinct (map fst (filter P xs))"
  by (induction xs) auto

section \<open>Maps\<close>

lemma map_of_append_one:
  "k \<notin> fst ` set xs \<Longrightarrow> map_of (xs @ [(k, v)]) = (map_of xs)(k \<mapsto> v)"
proof (induction xs)
  case (Cons a xs)
  then show ?case by (cases a) auto
qed auto

lemma map_of_filter_neq:
  "map_of (filter (\<lambda>(ek, _). ek \<noteq> k) xs) = (map_of xs)(k := None)"
  by (induction xs) (auto simp: fun_eq_iff)

section \<open>Interfaces shared by several components\<close>

text \<open>
  An encoder together with the reader at the other end: the reader recovers every
  value of the domain. The command line, the environment block, the cached
  termination reason and the sentinel message are all of this shape.
\<close>

locale codec =
  fixes enc :: "'a \<Rightarrow> 'b"
    and dec :: "'b \<Rightarrow> 'a"
    and dom :: "'a \<Rightarrow> bool"
  assumes dec_enc: "dom x \<Longrightarrow> dec (enc x) = x"
begin

lemma enc_inject: "dom x \<Longrightarrow> dom y \<Longrightarrow> enc x = enc y \<longleftrightarrow> x = y"
  using dec_enc by metis

lemma enc_inj_on: "inj_on enc {x. dom x}"
  by (rule inj_onI) (simp add: enc_inject)

lemma dec_onto: "dom x \<Longrightarrow> \<exists>y. dec y = x"
  using dec_enc by blast

lemma dec_enc_list: "list_all dom xs \<Longrightarrow> map dec (map enc xs) = xs"
  by (induction xs) (auto simp: dec_enc)

end

end
