(* ===== verification/Utf16.thy ===== *)
theory Utf16
  imports Prelude
begin

text \<open>
  The string conversions of the Rust standard library that the crate's command line
  goes through: \<open>OsStr::to_string_lossy\<close> from 16-bit units to scalar values, and
  \<open>str::encode_utf16\<close> back, with the lemma that they are inverse on well-formed
  UTF-16 and the facts about single units the quoting proofs need.
\<close>

section \<open>Rust strings and UTF-16\<close>

definition is_high :: "u16 \<Rightarrow> bool" where
  "is_high u \<longleftrightarrow> 0xD800 \<le> u \<and> u \<le> 0xDBFF"

definition is_low :: "u16 \<Rightarrow> bool" where
  "is_low u \<longleftrightarrow> 0xDC00 \<le> u \<and> u \<le> 0xDFFF"

definition combine :: "u16 \<Rightarrow> u16 \<Rightarrow> rchar" where
  "combine u v = 0x10000 + (ucast (u - 0xD800) * 0x400 + ucast (v - 0xDC00))"

text \<open>\<open>OsStr::to_string_lossy\<close>: an unpaired surrogate becomes U+FFFD.\<close>

fun to_string_lossy :: "os_string \<Rightarrow> rstring" where
  "to_string_lossy [] = []"
| "to_string_lossy [u] = [if is_high u \<or> is_low u then 0xFFFD else ucast u]"
| "to_string_lossy (u # v # us) =
     (if is_high u \<and> is_low v then combine u v # to_string_lossy us
      else (if is_high u \<or> is_low u then 0xFFFD else ucast u) # to_string_lossy (v # us))"

text \<open>\<open>str::encode_utf16\<close>, one scalar value at a time.\<close>

definition encode_char :: "rchar \<Rightarrow> u16 list" where
  "encode_char c =
     (if c < 0x10000 then [ucast c]
      else [0xD800 + ucast ((c - 0x10000) div 0x400), 0xDC00 + ucast ((c - 0x10000) mod 0x400)])"

definition encode_utf16 :: "rstring \<Rightarrow> u16 list" where
  "encode_utf16 cs = concat (map encode_char cs)"

text \<open>Every surrogate is one half of a pair: the string is UTF-16.\<close>

fun well_formed :: "os_string \<Rightarrow> bool" where
  "well_formed [] \<longleftrightarrow> True"
| "well_formed [u] \<longleftrightarrow> \<not> is_high u \<and> \<not> is_low u"
| "well_formed (u # v # us) \<longleftrightarrow>
     (if is_high u then is_low v \<and> well_formed us
      else \<not> is_low u \<and> well_formed (v # us))"

section \<open>Encoding undoes decoding\<close>

lemma ucast_u16_u32 [simp]: "ucast (ucast u :: 32 word) = (u :: 16 word)"
  by (simp add: ucast_up_ucast_id is_up)

lemma u16_lt: "unat (u :: 16 word) < 65536"
  using unsigned_less [of u] by simp

lemma unat_ucast_u16: "unat (ucast u :: 32 word) = unat (u :: 16 word)"
  using u16_lt[of u] by (simp add: unsigned_ucast_eq take_bit_nat_eq_self)

lemma unat_ucast_u32: "unat (c :: 32 word) < 65536 \<Longrightarrow> unat (ucast c :: 16 word) = unat c"
  by (simp add: unsigned_ucast_eq take_bit_nat_eq_self)

lemma encode_ucast [simp]: "encode_char (ucast u) = [u]"
  using u16_lt[of u] by (simp add: encode_char_def word_less_nat_alt unat_ucast_u16)

lemma encode_combine: assumes "is_high u" "is_low v"
  shows "encode_char (combine u v) = [u, v]"
proof -
  define h where "h = unat u - 0xD800"
  define l where "l = unat v - 0xDC00"
  from assms have b: "h < 0x400" "l < 0x400" "unat u = 0xD800 + h" "unat v = 0xDC00 + l"
    by (auto simp: is_high_def is_low_def word_le_nat_alt h_def l_def)
  have u: "unat (u - 0xD800) = h" and v: "unat (v - 0xDC00) = l"
    using assms by (simp_all add: is_high_def is_low_def unat_sub h_def l_def)
  have c: "unat (combine u v) = 0x10000 + (h * 0x400 + l)"
    using b by (simp add: combine_def unat_word_ariths unat_ucast_u16 u v)
  have d: "unat (combine u v - 0x10000) = h * 0x400 + l"
    using c by (simp add: unat_sub word_le_nat_alt)
  have "unat (ucast ((combine u v - 0x10000) div 0x400) :: 16 word) = h" 
    "unat (ucast ((combine u v - 0x10000) mod 0x400) :: 16 word) = l"
    using b by (simp_all add: unat_ucast_u32 unat_div unat_mod d)
  then have "0xD800 + ucast ((combine u v - 0x10000) div 0x400) = u" 
     "0xDC00 + ucast ((combine u v - 0x10000) mod 0x400) = v"
    using b by (simp_all add: word_unat_eq_iff unat_word_ariths)
  then show ?thesis using c by (simp add: encode_char_def word_less_nat_alt)
qed

lemma encode_utf16_simps [simp]:
  "encode_utf16 [] = []"
  "encode_utf16 (c # cs) = encode_char c @ encode_utf16 cs"
  "encode_utf16 (xs @ ys) = encode_utf16 xs @ encode_utf16 ys"
  by (simp_all add: encode_utf16_def)

lemma encode_to_string_lossy: "well_formed us \<Longrightarrow> encode_utf16 (to_string_lossy us) = us"
proof (induction us rule: well_formed.induct)
  case (3 u v us)
  then show ?case
    by (cases "is_high u") (auto simp: encode_combine)
qed (auto simp: encode_utf16_def)

definition scalar :: "rchar \<Rightarrow> bool" where
  "scalar c \<longleftrightarrow> c < 0x110000"

lemma u16_scalar: "scalar (ucast (u :: u16))"
  using u16_lt[of u] by (simp add: scalar_def word_less_nat_alt unat_ucast_u16)

lemma unat_combine: assumes "is_high u" "is_low v" 
  shows "unat (combine u v) = 0x10000 + ((unat u - 0xD800) * 0x400 + (unat v - 0xDC00))"
proof -
  have "unat (u - 0xD800) = unat u - 0xD800" "unat (v - 0xDC00) = unat v - 0xDC00"
    using assms by (simp_all add: is_high_def is_low_def unat_sub)
  moreover have "unat u - 0xD800 < 0x400" "unat v - 0xDC00 < 0x400"
    using assms by (auto simp: is_high_def is_low_def word_le_nat_alt)
  ultimately show ?thesis
    by (simp add: combine_def unat_word_ariths unat_ucast_u16)
qed

lemma combine_scalar: "is_high u \<Longrightarrow> is_low v \<Longrightarrow> scalar (combine u v)"
  by (auto simp: scalar_def word_less_nat_alt unat_combine is_high_def is_low_def word_le_nat_alt)

lemma replacement_scalar: "scalar 0xFFFD"
  by (simp add: scalar_def)

lemma to_string_lossy_scalar: "c \<in> set (to_string_lossy us) \<Longrightarrow> scalar c"
  by (induction us rule: to_string_lossy.induct)
    (auto simp: u16_scalar combine_scalar replacement_scalar split: if_splits)

text \<open>A unit below the surrogates occurs in an encoding only as that character.\<close>

lemma encode_char_low:
  assumes "scalar c" "u \<in> set (encode_char c)" "u < 0xD800"
  shows "c = ucast u"
proof (cases "c < 0x10000")
  case True
  then have "unat c < 65536" by (simp add: word_less_nat_alt)
  then have "unat (ucast (ucast c :: u16) :: rchar) = unat c"
    by (simp add: unat_ucast_u16 unat_ucast_u32)
  with True assms show ?thesis by (simp add: encode_char_def word_unat_eq_iff unat_ucast_u16)
next
  case False
  then have d: "unat (c - 0x10000) = unat c - 0x10000" by (simp add: unat_sub not_less)
  then have b: "unat c - 0x10000 < 0x100000" using assms(1) by (auto simp: scalar_def word_less_nat_alt)
  then have "(unat c - 0x10000) div 0x400 < 0x400" by (simp add: div_less_iff_less_mult)
  then have h: "unat (ucast ((c - 0x10000) div 0x400) :: u16) < 0x400"
    by (simp add: unat_ucast_u32 unat_div d)
  have l: "unat (ucast ((c - 0x10000) mod 0x400) :: u16) < 0x400"
    by (simp add: unat_ucast_u32 unat_mod d)
  from h l have "0xD800 \<le> 0xD800 + (ucast ((c - 0x10000) div 0x400) :: u16)"
     "0xD800 \<le> 0xDC00 + (ucast ((c - 0x10000) mod 0x400) :: u16)"
    by (simp_all add: word_le_nat_alt unat_word_ariths)
  with False assms show ?thesis
    by (auto simp: encode_char_def)
qed

lemma encode_char_ascii: "c < 0x10000 \<Longrightarrow> encode_char c = [ucast c]"
  by (simp add: encode_char_def)

lemma ucast_u16_inject [simp]: "(ucast u :: rchar) = ucast v \<longleftrightarrow> u = (v :: u16)"
  by (metis ucast_u16_u32)

lemma combine_not_u16: "is_high v \<Longrightarrow> is_low w \<Longrightarrow> combine v w \<noteq> ucast (u :: u16)"
  using u16_lt [of u] by (metis unat_combine unat_ucast_u16 not_add_less1)

lemma replacement_not_low: "(u :: u16) < 0xD800 \<Longrightarrow> 0xFFFD \<noteq> (ucast u :: rchar)"
  using ucast_u16_inject [of u "0xFFFD"] by auto

lemma to_string_lossy_low:
  "(u :: u16) < 0xD800 \<Longrightarrow> ucast u \<in> set (to_string_lossy us) \<Longrightarrow> u \<in> set us"
  by (induction us rule: to_string_lossy.induct)
    (auto dest: replacement_not_low combine_not_u16 [of _ _ u, THEN not_sym] split: if_splits)

lemma to_string_lossy_eq_Nil [simp]: "to_string_lossy us = [] \<longleftrightarrow> us = []"
  by (cases us rule: to_string_lossy.cases) auto

lemma last_to_string_lossy_low:
  "(u :: u16) < 0xD800 \<Longrightarrow> us \<noteq> [] \<Longrightarrow> last (to_string_lossy us) = ucast u \<Longrightarrow> last us = u"
proof (induction us rule: to_string_lossy.induct)
  case (3 v w us)
  then show ?case
    by (cases us) (auto dest: replacement_not_low combine_not_u16 [of _ _ u] split: if_splits)
qed (auto dest: replacement_not_low split: if_splits)

end
