(* ===== verification/CommandLine.thy ===== *)
theory CommandLine
  imports Utf16
begin

text \<open>
  The command line handed to \<open>CreateProcessW\<close>: \<open>build_command_line\<close> and
  \<open>quote_arg\<close> of \<open>src/crates/worrywart/src/core.rs\<close>, and the documented rules by which
  a Windows program splits its command line again, as the reference the quoting is
  proved against.
\<close>

section \<open>\<open>quote_arg\<close> and \<open>build_command_line\<close>\<close>

text \<open>The characters the code compares with.\<close>

abbreviation BS :: "'a::len word" where "BS \<equiv> 0x5C"
abbreviation DQ :: "'a::len word" where "DQ \<equiv> 0x22"
abbreviation SP :: "'a::len word" where "SP \<equiv> 0x20"
abbreviation TAB :: "'a::len word" where "TAB \<equiv> 0x09"

definition needs_quote :: "rstring \<Rightarrow> bool" where
  "needs_quote arg \<longleftrightarrow>
     arg = [] \<or> SP \<in> set arg \<or> DQ \<in> set arg \<or> TAB \<in> set arg"

text \<open>
  The loop of \<open>quote_arg\<close> over \<open>arg.chars()\<close>; its state is \<open>out\<close> and
  \<open>backslashes\<close> (at most the length of the argument, so the \<open>usize\<close> does not
  overflow).
\<close>

fun quote_chars :: "rstring \<Rightarrow> nat \<Rightarrow> rstring \<Rightarrow> rstring \<times> nat" where
  "quote_chars out backslashes [] = (out, backslashes)"
| "quote_chars out backslashes (c # cs) =
     (if c = BS then quote_chars out (backslashes + 1) cs
      else if c = DQ then
        quote_chars (out @ concat (replicate backslashes [BS, BS]) @ [BS, DQ]) 0 cs
      else quote_chars (out @ replicate backslashes BS @ [c]) 0 cs)"

definition quote_arg :: "rstring \<Rightarrow> rstring \<Rightarrow> rstring" where
  "quote_arg out arg =
     (if \<not> needs_quote arg then out @ arg
      else
        case quote_chars (out @ [DQ]) 0 arg of
          (out', backslashes) \<Rightarrow> out' @ concat (replicate backslashes [BS, BS]) @ [DQ])"

definition command_string :: "os_string \<Rightarrow> os_string list \<Rightarrow> rstring" where
  "command_string program args =
     fold (\<lambda>arg line. quote_arg (line @ [SP]) (to_string_lossy arg)) args
       (quote_arg [] (to_string_lossy program))"

definition build_command_line :: "os_string \<Rightarrow> os_string list \<Rightarrow> u16 list" where
  "build_command_line program args = encode_utf16 (command_string program args) @ [0]"

section \<open>Reference: how a Windows program reads its command line\<close>

text \<open>
  The documented rules of \<open>CommandLineToArgvW\<close> and of the C run-time: white space
  is a space or a tab; \<open>2n\<close> backslashes and a quotation mark stand for \<open>n\<close>
  backslashes and a mark that opens or closes a quoted part; \<open>2n+1\<close> backslashes
  and a mark stand for \<open>n\<close> backslashes and a literal mark; other backslashes are
  literal. Run-times differ in what a doubled mark inside a quoted part means:
  with \<open>dq\<close> it is a literal mark, without it closes and opens. The arguments of
  \<open>split_args\<close>: \<open>dq\<close>, whether the position is quoted, the backslashes
  pending, the argument read so far (\<open>None\<close> between arguments), the rest.
\<close>

definition flush_arg :: "u16 list option \<Rightarrow> nat \<Rightarrow> u16 list list" where
  "flush_arg cur n =
     (case cur of
        None \<Rightarrow> (if n = 0 then [] else [replicate n BS])
      | Some a \<Rightarrow> [a @ replicate n BS])"

definition cur_arg :: "u16 list option \<Rightarrow> u16 list" where
  "cur_arg cur = (case cur of None \<Rightarrow> [] | Some a \<Rightarrow> a)"

function split_args ::
  "bool \<Rightarrow> bool \<Rightarrow> nat \<Rightarrow> u16 list option \<Rightarrow> u16 list \<Rightarrow> u16 list list" where
  "split_args dq q n cur [] = flush_arg cur n"
| "split_args dq q n cur (c # cs) =
     (if c = BS then split_args dq q (n + 1) cur cs
      else if c = DQ then
        (if odd n then split_args dq q 0 (Some (cur_arg cur @ replicate (n div 2) BS @ [DQ])) cs
         else if q \<and> dq \<and> take 1 cs = [DQ] then
           split_args dq q 0 (Some (cur_arg cur @ replicate (n div 2) BS @ [DQ])) (drop 1 cs)
         else split_args dq (\<not> q) 0 (Some (cur_arg cur @ replicate (n div 2) BS)) cs)
      else if \<not> q \<and> (c = SP \<or> c = TAB) then flush_arg cur n @ split_args dq False 0 None cs
      else split_args dq q 0 (Some (cur_arg cur @ replicate n BS @ [c])) cs)"
  by pat_completeness auto
termination
  by (relation "measure (\<lambda>(dq, q, n, cur, cs). length cs)") auto

text \<open>The program name follows a simpler rule: no escapes.\<close>

definition split_program :: "u16 list \<Rightarrow> u16 list \<times> u16 list" where
  "split_program line =
     (if take 1 line = [DQ] then
        (takeWhile (\<lambda>c. c \<noteq> DQ) (drop 1 line), drop 1 (dropWhile (\<lambda>c. c \<noteq> DQ) (drop 1 line)))
      else
        (takeWhile (\<lambda>c. c \<noteq> SP \<and> c \<noteq> TAB) line, dropWhile (\<lambda>c. c \<noteq> SP \<and> c \<noteq> TAB) line))"

text \<open>\<open>CreateProcessW\<close> takes the units up to the first NUL.\<close>

definition argv_of :: "bool \<Rightarrow> u16 list \<Rightarrow> os_string list" where
  "argv_of dq buf =
     (case split_program (takeWhile (\<lambda>c. c \<noteq> 0) buf) of
        (program, rest) \<Rightarrow> program # split_args dq False 0 None rest)"

section \<open>What the loop writes\<close>

fun quote_body :: "nat \<Rightarrow> rstring \<Rightarrow> rstring" where
  "quote_body n [] = replicate (2 * n) BS"
| "quote_body n (c # cs) =
     (if c = BS then quote_body (n + 1) cs
      else if c = DQ then replicate (2 * n) BS @ [BS, DQ] @ quote_body 0 cs
      else replicate n BS @ [c] @ quote_body 0 cs)"

definition quoted :: "rstring \<Rightarrow> rstring" where
  "quoted arg = (if needs_quote arg then [DQ] @ quote_body 0 arg @ [DQ] else arg)"

lemma quote_chars_body:
  "(case quote_chars out n cs of (out', m) \<Rightarrow> out' @ concat (replicate m [BS, BS])) =
   out @ quote_body n cs"
  by (induction out n cs rule: quote_chars.induct) (auto simp: concat_replicate_pair)

lemma quote_arg_eq: "quote_arg out arg = out @ quoted arg"
  using quote_chars_body [of "out @ [DQ]" 0 arg]
  by (auto simp: quote_arg_def quoted_def split: prod.splits)

lemma command_string_eq:
  "command_string program args =
     quoted (to_string_lossy program) @ concat (map (\<lambda>a. SP # quoted (to_string_lossy a)) args)"
proof -
  have "fold (\<lambda>arg line. quote_arg (line @ [SP]) (to_string_lossy arg)) args line =
      line @ concat (map (\<lambda>a. SP # quoted (to_string_lossy a)) args)" for line
    by (induction args arbitrary: line) (auto simp: quote_arg_eq)
  then show ?thesis by (simp add: command_string_def quote_arg_eq)
qed

lemma quote_body_plain:
  "DQ \<notin> set cs \<Longrightarrow> (cs = [] \<Longrightarrow> n = 0) \<Longrightarrow> (cs \<noteq> [] \<Longrightarrow> last cs \<noteq> BS) \<Longrightarrow>
   quote_body n cs = replicate n BS @ cs"
proof (induction n cs rule: quote_body.induct)
  case (2 n c cs)
  then show ?case
    by (cases "cs = []") (auto simp: replicate_append_same)
qed simp

lemma set_quote_body: "set (quote_body n cs) \<subseteq> {BS, DQ} \<union> set cs"
  by (induction n cs rule: quote_body.induct) auto

lemma set_quoted: "set (quoted cs) \<subseteq> {BS, DQ} \<union> set cs"
  using set_quote_body [of 0 cs] by (auto simp: quoted_def)

section \<open>Reading back one argument\<close>

lemma encode_BS [simp]: "encode_utf16 (replicate n BS) = replicate n BS"
  by (induction n) (auto simp: encode_char_ascii)

lemma split_backslashes:
  "split_args dq q n cur (replicate m BS @ rest) = split_args dq q (n + m) cur rest"
  by (induction m arbitrary: n) auto

lemma split_plain:
  "xs \<noteq> [] \<Longrightarrow> BS \<notin> set xs \<Longrightarrow> DQ \<notin> set xs \<Longrightarrow>
   split_args dq True n cur (xs @ rest) =
   split_args dq True 0 (Some (cur_arg cur @ replicate n BS @ xs)) rest"
proof (induction xs arbitrary: n cur)
  case (Cons x xs)
  then show ?case by (cases "xs = []") (auto simp: cur_arg_def)
qed simp

lemma encode_char_plain:
  assumes "scalar c" "c \<noteq> ucast (u :: u16)" "u < 0xD800"
  shows "u \<notin> set (encode_char c)"
  using encode_char_low [OF assms(1)] assms by blast

lemma encode_char_nonempty [simp]: "encode_char c \<noteq> []"
  by (simp add: encode_char_def)

lemma split_quoted_body:
  assumes "\<forall>c\<in>set cs. scalar c" "take 1 rest \<noteq> [DQ]"
  shows "split_args dq True 0 (Some a) (encode_utf16 (quote_body n cs) @ DQ # rest) =
     split_args dq False 0 (Some (a @ replicate n BS @ encode_utf16 cs)) rest"
  using assms
proof (induction n cs arbitrary: a rule: quote_body.induct)
  case (1 n)
  then show ?case
    by (simp add: split_backslashes cur_arg_def)
next
  case (2 n c cs)
  consider "c = BS" | "c = DQ" | "c \<noteq> BS" "c \<noteq> DQ" by blast
  then show ?case
  proof cases
    case 1
    then show ?thesis using 2 by (simp add: encode_char_ascii replicate_append_same flip: replicate_app_Cons_same)
  next
    case 2
    have "(2 * n + 1) div 2 = n" by simp
    then show ?thesis using 2 "2.IH"(2) "2.prems"
      by (simp add: encode_char_ascii split_backslashes cur_arg_def)
  next
    case 3
    with "2.prems" have "BS \<notin> set (encode_char c)" "DQ \<notin> set (encode_char c)"
      using encode_char_plain [of c BS] encode_char_plain [of c DQ] by simp_all
    with 3 "2.IH"(3) "2.prems" show ?thesis
      by (simp add: split_backslashes split_plain cur_arg_def)
  qed
qed


lemma split_unquoted:
  assumes "DQ \<notin> set xs" "SP \<notin> set xs" "TAB \<notin> set xs"
    and "cur \<noteq> None \<or> 0 < n \<or> xs \<noteq> []" and "rest = [] \<or> hd rest = SP"
  shows "split_args dq False n cur (xs @ rest) =
     (cur_arg cur @ replicate n BS @ xs) #
     (if rest = [] then [] else split_args dq False 0 None (tl rest))"
  using assms
proof (induction xs arbitrary: n cur)
  case Nil
  then show ?case
    by (cases rest; cases cur) (auto simp: flush_arg_def cur_arg_def)
next
  case (Cons x xs)
  show ?case
  proof (cases "x = BS")
    case True
    then show ?thesis using Cons.IH [of cur "n + 1"] Cons.prems
      by (simp add: replicate_append_same flip: replicate_app_Cons_same)
  next
    case False
    then show ?thesis
      using Cons.IH [of "Some (cur_arg cur @ replicate n BS @ [x])" 0] Cons.prems
      by (simp add: cur_arg_def)
  qed
qed

lemma encode_utf16_low:
  assumes "\<forall>c\<in>set cs. scalar c" "(u :: u16) < 0xD800" "ucast u \<notin> set cs"
  shows "u \<notin> set (encode_utf16 cs)"
  using assms encode_char_low [where u = u] by (fastforce simp: encode_utf16_def)

lemma split_quoted:
  assumes "\<forall>c\<in>set cs. scalar c" "rest = [] \<or> hd rest = SP"
  shows "split_args dq False 0 None (encode_utf16 (quoted cs) @ rest) =
     encode_utf16 cs # (if rest = [] then [] else split_args dq False 0 None (tl rest))"
proof (cases "needs_quote cs")
  case True
  have "take 1 rest \<noteq> [DQ]" using assms(2) by (cases rest) auto
  with True assms split_unquoted [of "[]" "Some (encode_utf16 cs)" 0 rest dq] show ?thesis
    by (simp add: quoted_def encode_char_ascii split_quoted_body cur_arg_def)
next
  case False
  then have "DQ \<notin> set (encode_utf16 cs)" "SP \<notin> set (encode_utf16 cs)" "TAB \<notin> set (encode_utf16 cs)"
    using encode_utf16_low [OF assms(1), of DQ] encode_utf16_low [OF assms(1), of SP]
      encode_utf16_low [OF assms(1), of TAB] by (simp_all add: needs_quote_def)
  moreover have "encode_utf16 cs \<noteq> []" using False by (cases cs) (auto simp: needs_quote_def)
  ultimately show ?thesis using False assms(2)
    by (simp add: quoted_def split_unquoted cur_arg_def)
qed

lemma split_arg_list:
  assumes "\<forall>a\<in>set args. \<forall>c\<in>set a. scalar c"
  shows "split_args dq False 0 None (encode_utf16 (concat (map (\<lambda>a. SP # quoted a) args))) =
     map encode_utf16 args"
  using assms
proof (induction args)
  case (Cons a args)
  let ?rest = "encode_utf16 (concat (map (\<lambda>a. SP # quoted a) args))"
  have "split_args dq False 0 None (SP # encode_utf16 (quoted a) @ ?rest) =
      split_args dq False 0 None (encode_utf16 (quoted a) @ ?rest)"
    by (simp add: flush_arg_def)
  moreover have "?rest = [] \<or> hd ?rest = SP \<and> split_args dq False 0 None (tl ?rest) = map encode_utf16 args"
  proof (cases args)
    case (Cons b bs)
    then show ?thesis using Cons.IH "Cons.prems"
      by (simp add: encode_char_ascii flush_arg_def)
  qed simp
  ultimately show ?case
    using Cons split_quoted [of a ?rest dq] by (cases args) (auto simp: encode_char_ascii)
qed (simp add: flush_arg_def)

text \<open>The program name, which has no escapes.\<close>

definition plain_program :: "rstring \<Rightarrow> bool" where
  "plain_program p \<longleftrightarrow> DQ \<notin> set p \<and> (p = [] \<or> last p \<noteq> BS \<or> \<not> needs_quote p)"

lemma split_program_quoted:
  assumes "\<forall>c\<in>set p. scalar c" "plain_program p" "rest = [] \<or> hd rest = SP"
  shows "split_program (encode_utf16 (quoted p) @ rest) = (encode_utf16 p, rest)"
proof (cases "needs_quote p")
  case True
  with assms(2) have q: "quoted p = [DQ] @ p @ [DQ]"
    by (cases "p = []") (auto simp: quoted_def plain_program_def quote_body_plain)
  have "\<forall>u\<in>set (encode_utf16 p). u \<noteq> DQ"
    using encode_utf16_low [OF assms(1), of DQ] assms(2) by (auto simp: plain_program_def)
  then show ?thesis
    using q by (simp add: split_program_def encode_char_ascii takeWhile_append_stop dropWhile_append_stop)
next
  case False
  then have ne: "encode_utf16 p \<noteq> []" by (cases p) (auto simp: needs_quote_def)
  have n: "\<forall>u\<in>set (encode_utf16 p). u \<noteq> SP \<and> u \<noteq> TAB" "DQ \<notin> set (encode_utf16 p)"
    using encode_utf16_low [OF assms(1), of DQ] encode_utf16_low [OF assms(1), of SP]
      encode_utf16_low [OF assms(1), of TAB] False by (auto simp: needs_quote_def)
  have d: "take 1 (encode_utf16 p @ rest) \<noteq> [DQ]"
    using ne n(2) by (cases "encode_utf16 p") auto
  have "takeWhile (\<lambda>c. c \<noteq> SP \<and> c \<noteq> TAB) (encode_utf16 p @ rest) = encode_utf16 p"
    "dropWhile (\<lambda>c. c \<noteq> SP \<and> c \<noteq> TAB) (encode_utf16 p @ rest) = rest"
    using n(1) assms(3) by (cases rest; simp)+
  with d False show ?thesis by (simp add: split_program_def quoted_def)
qed

section \<open>The whole command line\<close>

lemma argv_of_command_string:
  assumes "\<forall>c\<in>set p. scalar c" "\<forall>a\<in>set args. \<forall>c\<in>set a. scalar c"
    and "plain_program p" "0 \<notin> set p" "\<forall>a\<in>set args. 0 \<notin> set a"
  shows "argv_of dq (encode_utf16 (quoted p @ concat (map (\<lambda>a. SP # quoted a) args)) @ 0 # junk) =
     map encode_utf16 (p # args)"
proof -
  let ?s = "quoted p @ concat (map (\<lambda>a. SP # quoted a) args)"
  let ?rest = "encode_utf16 (concat (map (\<lambda>a. SP # quoted a) args))"
  have "\<forall>c\<in>set (quoted a). scalar c \<and> c \<noteq> 0" if "\<forall>c\<in>set a. scalar c" "0 \<notin> set a" for a
    using set_quoted [of a] that by (auto simp: scalar_def)
  then have "\<forall>c\<in>set (quoted p). scalar c \<and> c \<noteq> 0"
    and "\<forall>a\<in>set args. \<forall>c\<in>set (quoted a). scalar c \<and> c \<noteq> 0"
    using assms by blast+
  then have "\<forall>c\<in>set ?s. scalar c \<and> c \<noteq> 0"
    by (auto simp: scalar_def)
  then have "\<forall>u\<in>set (encode_utf16 ?s). u \<noteq> 0"
    using encode_utf16_low [of ?s 0] by auto
  then have t: "takeWhile (\<lambda>c. c \<noteq> 0) (encode_utf16 ?s @ 0 # junk) = encode_utf16 ?s"
    by (rule takeWhile_append_stop) simp
  have "?rest = [] \<or> hd ?rest = SP"
    by (cases args) (auto simp: encode_char_ascii)
  then have "split_program (encode_utf16 ?s) = (encode_utf16 p, ?rest)"
    using split_program_quoted [OF assms(1,3)] by simp
  then show ?thesis
    using split_arg_list [OF assms(2)] t by (simp add: argv_of_def)
qed

text \<open>A program path the reader of the first word can take: no quotation mark (no file
  name has one), and no trailing backslash when the path must be quoted.\<close>

definition program_path :: "os_string \<Rightarrow> bool" where
  "program_path p \<longleftrightarrow> DQ \<notin> set p \<and> 0 \<notin> set p \<and>
     (p = [] \<or> last p \<noteq> BS \<or> SP \<notin> set p \<and> TAB \<notin> set p)"

lemma program_path_plain: "program_path p \<Longrightarrow> plain_program (to_string_lossy p)"
  using to_string_lossy_low [of DQ p] to_string_lossy_low [of SP p] to_string_lossy_low [of TAB p]
    last_to_string_lossy_low [of BS p]
  by (auto simp: program_path_def plain_program_def needs_quote_def)

definition sanitize :: "os_string \<Rightarrow> os_string" where
  "sanitize us = encode_utf16 (to_string_lossy us)"

lemma sanitize_well_formed [simp]: "well_formed us \<Longrightarrow> sanitize us = us"
  by (simp add: sanitize_def encode_to_string_lossy)

lemma argv_of_build_command_line:
  assumes "program_path program" "\<forall>a\<in>set args. 0 \<notin> set a"
  shows "argv_of dq (build_command_line program args) = map sanitize (program # args)"
proof -
  have "argv_of dq (build_command_line program args) =
      map encode_utf16 (to_string_lossy program # map to_string_lossy args)"
    unfolding build_command_line_def command_string_eq
    using argv_of_command_string [of "to_string_lossy program" "map to_string_lossy args" dq "[]"]
      to_string_lossy_low [of 0] assms
    by (auto simp: to_string_lossy_scalar program_path_plain program_path_def comp_def)
  then show ?thesis by (simp add: sanitize_def)
qed

section \<open>Properties\<close>

text \<open>The command line as a codec: the child's reader recovers program and arguments.\<close>

definition command_of :: "bool \<Rightarrow> u16 list \<Rightarrow> os_string \<times> os_string list" where
  "command_of dq buf = (case argv_of dq buf of [] \<Rightarrow> ([], []) | p # as \<Rightarrow> (p, as))"

definition command_ok :: "os_string \<times> os_string list \<Rightarrow> bool" where
  "command_ok = (\<lambda>(program, args). program_path program \<and> well_formed program \<and>
     (\<forall>a\<in>set args. well_formed a \<and> 0 \<notin> set a))"

lemma map_sanitize: "\<forall>a\<in>set as. well_formed a \<Longrightarrow> map sanitize as = as"
  by (induction as) auto

interpretation cl: codec "\<lambda>(program, args). build_command_line program args" "command_of dq" command_ok
  for dq :: bool
  by unfold_locales
    (auto simp: command_ok_def command_of_def argv_of_build_command_line map_sanitize)

text \<open>C4 (round trip): a Windows program started with the command line that
  \<open>build_command_line\<close> makes reads back exactly the program and the arguments the
  caller gave, whichever rule its run-time has for doubled quotation marks: spaces,
  tabs, quotation marks and runs of backslashes in the arguments all survive.\<close>

theorem build_command_line_roundtrip:
  assumes "program_path program" "well_formed program"
    and "\<forall>a\<in>set args. well_formed a \<and> 0 \<notin> set a"
  shows "argv_of dq (build_command_line program args) = program # args"
  using assms by (simp add: argv_of_build_command_line map_sanitize)

theorem build_command_line_roundtrip_witness:
  "argv_of True (build_command_line [0x43, BS, 0x61, SP, 0x62]
     [[], [0x61, BS, DQ, SP, BS], [BS, BS], [0xD83D, 0xDE00, TAB]]) =
   [[0x43, BS, 0x61, SP, 0x62], [], [0x61, BS, DQ, SP, BS], [BS, BS], [0xD83D, 0xDE00, TAB]]"
  by (rule build_command_line_roundtrip)
    (simp_all add: program_path_def is_high_def is_low_def)

text \<open>Injectivity: two different commands never share a command line.\<close>

theorem build_command_line_inject:
  assumes "command_ok (p, as)" "command_ok (q, bs)"
    and "build_command_line p as = build_command_line q bs"
  shows "p = q \<and> as = bs"
  using assms cl.enc_inject [of "(p, as)" "(q, bs)"] by simp

theorem build_command_line_inject_witness:
  "build_command_line [0x61] [[SP]] \<noteq> build_command_line [0x61] [[], []]"
proof
  assume "build_command_line [0x61] [[SP]] = build_command_line [0x61] [[], []]"
  moreover have "command_ok ([0x61], [[SP]])" "command_ok ([0x61], [[], []])"
    by (simp_all add: command_ok_def program_path_def is_high_def is_low_def)
  ultimately show False using build_command_line_inject by blast
qed

text \<open>Loss: the conversion to a Rust string is lossy. Any arguments, well formed or
  not, arrive with every unpaired surrogate replaced by U+FFFD.\<close>

theorem build_command_line_sanitizes:
  assumes "program_path program" "\<forall>a\<in>set args. 0 \<notin> set a"
  shows "argv_of dq (build_command_line program args) = sanitize program # map sanitize args"
  using assms by (simp add: argv_of_build_command_line)

theorem build_command_line_sanitizes_witness:
  "argv_of False (build_command_line [0x61] [[0xD800, 0x62]]) = [[0x61], [0xFFFD, 0x62]]"
  using build_command_line_sanitizes [of "[0x61]" "[[0xD800, 0x62]]" False]
  by (simp add: program_path_def sanitize_def is_high_def is_low_def encode_char_def)

lemma to_string_lossy_NUL:
  "to_string_lossy (a @ 0 # b) = to_string_lossy a @ 0 # to_string_lossy b"
proof (induction a rule: to_string_lossy.induct)
  case 1
  have "\<not> is_high 0 \<and> \<not> is_low 0" by (simp add: is_high_def is_low_def)
  then show ?case by (cases b) auto
next
  case (2 u)
  have "\<not> is_high 0 \<and> \<not> is_low 0" by (simp add: is_high_def is_low_def)
  then show ?case by (cases b) auto
qed auto

text \<open>C36 (truncation): \<open>arg\<close> accepts a NUL unit, where the standard library's
  builder returns an error. The child then sees that argument cut at the NUL, and
  none of the arguments after it.\<close>

theorem nul_truncates_command_line:
  assumes "program_path program" "\<forall>x\<in>set before. 0 \<notin> set x"
    and "a \<noteq> []" "\<forall>u\<in>set (a @ b). u \<noteq> SP \<and> u \<noteq> TAB \<and> u \<noteq> DQ" "0 \<notin> set a"
  shows "argv_of dq (build_command_line program (before @ (a @ 0 # b) # after)) =
     sanitize program # map sanitize (before @ [a])"
proof -
  let ?l = "map to_string_lossy"
  let ?f = "\<lambda>args. concat (map (\<lambda>a. SP # quoted a) args)"
  let ?tail = "to_string_lossy b @ ?f (?l after)"
  have plain: "quoted (to_string_lossy x) = to_string_lossy x"
    if "x \<noteq> []" "\<forall>u\<in>set x. u \<noteq> SP \<and> u \<noteq> TAB \<and> u \<noteq> DQ" for x
    using that to_string_lossy_low [of SP x] to_string_lossy_low [of TAB x]
      to_string_lossy_low [of DQ x] by (auto simp: quoted_def needs_quote_def)
  have "quoted (to_string_lossy (a @ 0 # b)) = quoted (to_string_lossy a) @ 0 # to_string_lossy b"
    using plain [of "a @ 0 # b"] plain [of a] assms(3,4) by (simp add: to_string_lossy_NUL)
  then have "command_string program (before @ (a @ 0 # b) # after) =
      (quoted (to_string_lossy program) @ ?f (?l (before @ [a]))) @ 0 # ?tail"
    by (simp add: command_string_eq comp_def)
  then have "build_command_line program (before @ (a @ 0 # b) # after) =
      encode_utf16 (quoted (to_string_lossy program) @ ?f (?l (before @ [a]))) @ 0 #
      (encode_utf16 ?tail @ [0])"
    by (simp add: build_command_line_def encode_char_ascii)
  moreover have "0 \<notin> set (to_string_lossy program)" "\<forall>x\<in>set (before @ [a]). 0 \<notin> set (to_string_lossy x)"
    using to_string_lossy_low [of 0] assms by (auto simp: program_path_def)
  ultimately show ?thesis
    using argv_of_command_string [of "to_string_lossy program" "?l (before @ [a])" dq "encode_utf16 ?tail @ [0]"] assms(1)
    by (simp add: to_string_lossy_scalar program_path_plain comp_def sanitize_def)
qed

theorem nul_truncates_command_line_witness:
  "argv_of True (build_command_line [0x61] [[0x62], [0x63, 0, 0x64], [0x65]]) =
   [[0x61], [0x62], [0x63]]"
  using nul_truncates_command_line [of "[0x61]" "[[0x62]]" "[0x63]" "[0x64]" True "[[0x65]]"]
  by (simp add: program_path_def sanitize_def is_high_def is_low_def encode_char_def)

section \<open>The shape and size of the command line\<close>

text \<open>A character whose encoding is one unit outside the surrogates, or a surrogate pair.\<close>

definition well_encoded :: "rchar \<Rightarrow> bool" where
  "well_encoded c \<longleftrightarrow>
     (\<exists>u. encode_char c = [u] \<and> \<not> is_high u \<and> \<not> is_low u) \<or>
     (\<exists>u v. encode_char c = [u, v] \<and> is_high u \<and> is_low v)"

lemma well_formed_Cons: "\<not> is_high u \<Longrightarrow> \<not> is_low u \<Longrightarrow> well_formed (u # us) = well_formed us"
  by (cases us) simp_all

lemma well_encoded_string: "\<forall>c\<in>set cs. well_encoded c \<Longrightarrow> well_formed (encode_utf16 cs)"
  by (induction cs) (auto simp: well_encoded_def well_formed_Cons)

lemma well_encoded_low: "u < 0xD800 \<Longrightarrow> well_encoded (ucast (u :: u16))"
  by (auto simp: well_encoded_def is_high_def is_low_def word_le_nat_alt word_less_nat_alt)

lemma well_encoded_lossy: "c \<in> set (to_string_lossy us) \<Longrightarrow> well_encoded c"
proof (induction us rule: to_string_lossy.induct)
  case (2 u)
  then show ?case using encode_char_ascii [of "0xFFFD"]
    by (auto simp: well_encoded_def is_high_def is_low_def split: if_splits)
next
  case (3 u v us)
  then show ?case using encode_char_ascii [of "0xFFFD"]
    by (auto simp: well_encoded_def is_high_def is_low_def encode_combine split: if_splits)
qed simp

lemma well_encoded_quoted:
  assumes "\<forall>c\<in>set cs. well_encoded c"
  shows "\<forall>c\<in>set (quoted cs). well_encoded c"
proof
  fix c assume "c \<in> set (quoted cs)"
  then have "c \<in> {BS, DQ} \<union> set cs" using set_quoted by blast
  then show "well_encoded c" using assms well_encoded_low [of BS] well_encoded_low [of DQ] by auto
qed

lemma length_encode_lossy: "length (encode_utf16 (to_string_lossy us)) = length us"
  by (induction us rule: to_string_lossy.induct) (auto simp: encode_combine encode_char_ascii)

lemma encode_char_ge: "1 \<le> length (encode_char c)"
  by (simp add: encode_char_def)

lemma length_quote_body:
  "n + length (encode_utf16 cs) \<le> length (encode_utf16 (quote_body n cs)) \<and>
   length (encode_utf16 (quote_body n cs)) \<le> 2 * (n + length (encode_utf16 cs))"
proof (induction n cs rule: quote_body.induct)
  case (2 n c cs)
  then show ?case by (auto simp: encode_char_ascii)
qed (simp)

lemma length_quoted:
  "length (encode_utf16 cs) \<le> length (encode_utf16 (quoted cs)) \<and>
   length (encode_utf16 (quoted cs)) \<le> 2 * length (encode_utf16 cs) + 2"
  using length_quote_body [of 0 cs] by (auto simp: quoted_def encode_char_ascii)


lemma length_args:
  "(\<Sum>a\<leftarrow>args. length a) + length args \<le>
     length (encode_utf16 (concat (map (\<lambda>a. SP # quoted (to_string_lossy a)) args))) \<and>
   length (encode_utf16 (concat (map (\<lambda>a. SP # quoted (to_string_lossy a)) args))) \<le>
     2 * (\<Sum>a\<leftarrow>args. length a) + 3 * length args"
proof (induction args)
  case (Cons a args)
  then show ?case using length_quoted [of "to_string_lossy a"] by (simp add: length_encode_lossy encode_char_ascii)
qed simp

text \<open>C31 (size): with \<open>n\<close> UTF-16 units in program and arguments and \<open>k\<close> arguments the command line
  has at least \<open>n + k + 1\<close> units and at most \<open>2 n + 3 k + 3\<close>, the terminator counted: quoting at most doubles an
  argument and adds two marks. (The code checks no limit of its own; a command of up to about 16,000 units
  always stays below the 32,767 of \<open>CreateProcessW\<close>.)\<close>

theorem build_command_line_length:
  "let n = length program + (\<Sum>a\<leftarrow>args. length a); k = length args;
       m = length (build_command_line program args)
   in n + k + 1 \<le> m \<and> m \<le> 2 * n + 3 * k + 3"
  using length_quoted [of "to_string_lossy program"] length_args [of args]
  by (simp add: build_command_line_def command_string_eq length_encode_lossy Let_def)

lemma NUL_quote_body: "0 \<in> set (quote_body n cs) \<longleftrightarrow> 0 \<in> set cs"
  by (induction n cs rule: quote_body.induct) auto

lemma NUL_quoted: "0 \<in> set (quoted cs) \<longleftrightarrow> 0 \<in> set cs"
  by (simp add: quoted_def NUL_quote_body)

lemma NUL_lossy: "0 \<in> set (to_string_lossy a) \<longleftrightarrow> 0 \<in> set a"
proof
  show "0 \<in> set (to_string_lossy a)" if "0 \<in> set a"
    using that by (metis split_list to_string_lossy_NUL in_set_conv_decomp)
qed (use to_string_lossy_low [of 0 a] in simp)

text \<open>C30 (well-formed output): whatever the units of program and arguments, the buffer for
  \<open>CreateProcessW\<close> is well-formed UTF-16 that ends in NUL, and another NUL is in it exactly when
  the program or an argument holds one.\<close>

theorem build_command_line_type:
  "well_formed (build_command_line program args) \<and> last (build_command_line program args) = 0 \<and>
   (0 \<in> set (butlast (build_command_line program args)) \<longleftrightarrow> (\<exists>a\<in>set (program # args). 0 \<in> set a))"
proof (intro conjI)
  have "\<forall>c\<in>set (command_string program args). well_encoded c"
    using well_encoded_quoted [of "to_string_lossy _"] well_encoded_lossy well_encoded_low [of SP]
    by (auto simp: command_string_eq)
  moreover have "well_encoded 0" using well_encoded_low [of 0] by simp
  ultimately have "well_formed (encode_utf16 (command_string program args @ [0]))"
    by (intro well_encoded_string) auto
  then show "well_formed (build_command_line program args)"
    by (simp add: build_command_line_def encode_char_ascii)
  show "last (build_command_line program args) = 0" by (simp add: build_command_line_def)
  have "0 \<in> set (encode_utf16 (command_string program args)) \<longleftrightarrow> 0 \<in> set (command_string program args)"
  proof
    assume "0 \<in> set (encode_utf16 (command_string program args))"
    then obtain c where c: "c \<in> set (command_string program args)" "0 \<in> set (encode_char c)"
      by (auto simp: encode_utf16_def)
    have "scalar d" if "d \<in> set (quoted (to_string_lossy a))" for a d
      using that set_quoted [of "to_string_lossy a"] to_string_lossy_scalar [of d a] by (auto simp: scalar_def)
    moreover have "scalar SP" by (simp add: scalar_def)
    ultimately have "scalar c" using c(1) by (auto simp: command_string_eq split: if_splits)
    then have "c = 0" using encode_char_low [of c 0] c(2) by simp
    then show "0 \<in> set (command_string program args)" using c(1) by simp
  next
    assume "0 \<in> set (command_string program args)"
    moreover have "0 \<in> set (encode_char 0)" by (simp add: encode_char_ascii)
    ultimately show "0 \<in> set (encode_utf16 (command_string program args))" by (force simp: encode_utf16_def)
  qed
  moreover have "0 \<in> set (command_string program args) \<longleftrightarrow> (\<exists>a\<in>set (program # args). 0 \<in> set a)"
    by (auto simp: command_string_eq NUL_quoted NUL_lossy split: if_splits)
  ultimately show "0 \<in> set (butlast (build_command_line program args)) \<longleftrightarrow> (\<exists>a\<in>set (program # args). 0 \<in> set a)"
    by (simp only: build_command_line_def butlast_snoc)
qed

end
