(* ===== verification/EnvBlock.thy ===== *)
theory EnvBlock
  imports Prelude "HOL-Library.Multiset"
begin

text \<open>
  The environment block handed to \<open>CreateProcessW\<close>: \<open>build_env_block\<close> of
  \<open>src/crates/worrywart/src/core.rs\<close> with its local \<open>upper_wide\<close>. The
  environment of the current process (\<open>std::env::vars_os()\<close>) is an argument.
  The reference is the reader of such a block: NUL-terminated entries up to an empty
  one, each split at the first equals sign past its first unit, where reading past
  the end of the buffer is the value \<open>None\<close>.
\<close>

type_synonym env_pairs = "(os_string \<times> os_string) list"

abbreviation EQ :: u16 where "EQ \<equiv> 0x3D"

section \<open>\<open>build_env_block\<close>\<close>

definition ascii_upper :: "u16 \<Rightarrow> u16" where
  "ascii_upper u = (if 0x61 \<le> u \<and> u \<le> 0x7A then u - (0x61 - 0x41) else u)"

definition upper_wide :: "os_string \<Rightarrow> u16 list" where
  "upper_wide name = map ascii_upper name"

text \<open>One round of the loop over \<open>envs\<close>: \<open>retain\<close>, then \<open>push\<close>.\<close>

definition apply_override :: "os_string \<times> os_string \<Rightarrow> env_pairs \<Rightarrow> env_pairs" where
  "apply_override kv pairs = filter (\<lambda>(ek, _). ek \<noteq> fst kv) pairs @ [kv]"

definition merged_pairs :: "env_pairs \<Rightarrow> bool \<Rightarrow> env_pairs \<Rightarrow> env_pairs" where
  "merged_pairs vars_os env_clear envs =
     fold apply_override envs (if env_clear then [] else vars_os)"

definition sorted_pairs :: "env_pairs \<Rightarrow> bool \<Rightarrow> env_pairs \<Rightarrow> env_pairs" where
  "sorted_pairs vars_os env_clear envs =
     sort_key (\<lambda>(a, _). upper_wide a) (merged_pairs vars_os env_clear envs)"

definition env_entry :: "os_string \<times> os_string \<Rightarrow> u16 list" where
  "env_entry = (\<lambda>(k, v). k @ [EQ] @ v @ [0])"

definition build_env_block :: "env_pairs \<Rightarrow> bool \<Rightarrow> env_pairs \<Rightarrow> u16 list option" where
  "build_env_block vars_os env_clear envs =
     (if \<not> env_clear \<and> envs = [] then None
      else Some (concat (map env_entry (sorted_pairs vars_os env_clear envs)) @ [0]))"

section \<open>Reference: reading a block\<close>

function read_strings :: "u16 list \<Rightarrow> u16 list list option" where
  "read_strings buf =
     (case buf of
        [] \<Rightarrow> None
      | u # _ \<Rightarrow>
          if u = 0 then Some []
          else
            case dropWhile (\<lambda>c. c \<noteq> 0) buf of
              [] \<Rightarrow> None
            | _ # rest \<Rightarrow> map_option (Cons (takeWhile (\<lambda>c. c \<noteq> 0) buf)) (read_strings rest))"
  by pat_completeness auto
termination
proof (relation "measure length")
  fix buf :: "u16 list" and u v us rest
  assume "dropWhile (\<lambda>c. c \<noteq> 0) buf = v # rest"
  then have "Suc (length rest) \<le> length buf"
    using length_dropWhile_le [of "\<lambda>c. c \<noteq> 0" buf] by simp
  then show "(rest, buf) \<in> measure length" by simp
qed simp

declare read_strings.simps [simp del]

definition split_entry :: "u16 list \<Rightarrow> os_string \<times> os_string" where
  "split_entry s =
     (take 1 s @ takeWhile (\<lambda>c. c \<noteq> EQ) (drop 1 s), drop 1 (dropWhile (\<lambda>c. c \<noteq> EQ) (drop 1 s)))"

definition read_env :: "u16 list \<Rightarrow> env_pairs option" where
  "read_env buf = map_option (map split_entry) (read_strings buf)"

text \<open>The order and the content of a block, said without the code: the letters whose case does not
  count, and the variables, the inherited ones that are not set again and then each one that was
  set, at the place and with the value of its last setting.\<close>

definition fold_case :: "u16 \<Rightarrow> u16" where
  "fold_case u = (if unat u \<in> of_char ` set ''abcdefghijklmnopqrstuvwxyz'' then u - 32 else u)"

fun last_settings :: "env_pairs \<Rightarrow> env_pairs" where
  "last_settings [] = []"
| "last_settings (kv # envs) = (if fst kv \<in> fst ` set envs then last_settings envs else kv # last_settings envs)"

definition block_vars :: "env_pairs \<Rightarrow> bool \<Rightarrow> env_pairs \<Rightarrow> env_pairs" where
  "block_vars vars_os cleared envs =
     (if cleared then [] else filter (\<lambda>p. fst p \<notin> fst ` set envs) vars_os) @ last_settings envs"

text \<open>What a child's environment is: the block's, or the parent's when there is none.\<close>

definition child_env :: "env_pairs \<Rightarrow> u16 list option \<Rightarrow> env_pairs option" where
  "child_env vars_os block =
     (case block of None \<Rightarrow> Some vars_os | Some b \<Rightarrow> read_env b)"

text \<open>Names and values a block can carry.\<close>

definition env_pair_ok :: "os_string \<times> os_string \<Rightarrow> bool" where
  "env_pair_ok = (\<lambda>(k, v). k \<noteq> [] \<and> 0 \<notin> set k \<and> 0 \<notin> set v \<and> EQ \<notin> set (tl k))"

section \<open>Reading a block back\<close>

lemma split_env_entry:
  assumes "env_pair_ok (k, v)"
  shows "split_entry (k @ EQ # v) = (k, v)"
proof -
  from assms obtain a as where k: "k = a # as" "\<forall>u\<in>set as. u \<noteq> EQ"
    by (cases k) (auto simp: env_pair_ok_def)
  then show ?thesis
    by (simp add: split_entry_def takeWhile_append_stop dropWhile_append_stop)
qed

lemma read_strings_Nil [simp]: "read_strings (0 # rest) = Some []"
  by (simp add: read_strings.simps)

lemma read_strings_entry:
  assumes "s \<noteq> []" "0 \<notin> set s"
  shows "read_strings (s @ 0 # rest) = map_option (Cons s) (read_strings rest)"
proof -
  from assms have s: "\<forall>u\<in>set s. u \<noteq> 0" by auto
  from s have "takeWhile (\<lambda>c. c \<noteq> 0) (s @ 0 # rest) = s" "dropWhile (\<lambda>c. c \<noteq> 0) (s @ 0 # rest) = 0 # rest"
    by (simp_all add: takeWhile_append_stop dropWhile_append_stop)
  moreover obtain u us where "s = u # us" "u \<noteq> 0" using assms by (cases s) auto
  ultimately show ?thesis by (subst read_strings.simps) simp
qed

lemma read_env_block:
  "list_all env_pair_ok ps \<Longrightarrow> read_env (concat (map env_entry ps) @ [0]) = Some ps"
proof (induction ps)
  case Nil
  then show ?case by (simp add: read_env_def)
next
  case (Cons p ps)
  obtain k v where p: "p = (k, v)" by (cases p)
  with Cons.prems have "k @ EQ # v \<noteq> []" "0 \<notin> set (k @ EQ # v)"
    by (auto simp: env_pair_ok_def)
  from read_strings_entry [OF this, of "concat (map env_entry ps) @ [0]"] Cons p show ?case
    by (auto simp: read_env_def env_entry_def split_env_entry)
qed

section \<open>What the block holds\<close>

lemma set_apply_override: "set (apply_override kv ps) \<subseteq> insert kv (set ps)"
  by (auto simp: apply_override_def)

lemma set_fold_override: "set (fold apply_override envs ps) \<subseteq> set envs \<union> set ps"
proof (induction envs arbitrary: ps)
  case (Cons kv envs)
  then show ?case using set_apply_override [of kv ps] by fastforce
qed simp

lemma sorted_pairs_ok:
  assumes "list_all env_pair_ok vars_os" "list_all env_pair_ok envs"
  shows "list_all env_pair_ok (sorted_pairs vars_os c envs)"
  using assms set_fold_override [of envs "if c then [] else vars_os"]
  by (fastforce simp: list_all_iff sorted_pairs_def merged_pairs_def split: if_splits)

lemma map_of_apply_override: "map_of (apply_override kv ps) = (map_of ps)(fst kv \<mapsto> snd kv)"
proof -
  have "fst kv \<notin> fst ` set (filter (\<lambda>(ek, _). ek \<noteq> fst kv) ps)" by auto
  from map_of_append_one [OF this, of "snd kv"] show ?thesis
    by (simp add: apply_override_def map_of_filter_neq)
qed

lemma map_of_fold_override: "map_of (fold apply_override envs ps) = map_of ps ++ map_of (rev envs)"
  by (induction envs arbitrary: ps) (auto simp: map_of_apply_override)

text \<open>A stable sort by a function of the name keeps, for each name, its first entry.\<close>

lemma map_of_filter_name: "map_of xs k = map_of (filter (\<lambda>p. fst p = k) xs) k"
  by (induction xs) auto

lemma filter_filter_name:
  "filter (\<lambda>p. fst p = k) xs = filter (\<lambda>p. fst p = k) (filter (\<lambda>p. g (fst p) = g k) xs)"
  by (induction xs) auto

lemma map_of_sort_key: "map_of (sort_key (\<lambda>(a, _). g a) xs) = map_of xs"
proof
  fix k
  let ?s = "sort_key (\<lambda>(a, _). g a) xs"
  have "filter (\<lambda>p. g (fst p) = g k) ?s = filter (\<lambda>p. g (fst p) = g k) xs"
    using sort_key_stable [of "\<lambda>(a, _). g a" "g k" xs] by (simp add: case_prod_beta)
  then have "filter (\<lambda>p. fst p = k) ?s = filter (\<lambda>p. fst p = k) xs"
    using filter_filter_name [of k ?s g] filter_filter_name [of k xs g] by simp
  then show "map_of ?s k = map_of xs k"
    using map_of_filter_name [of ?s k] map_of_filter_name [of xs k] by simp
qed

lemma map_of_sorted_pairs:
  "map_of (sorted_pairs vars_os c envs) = (if c then Map.empty else map_of vars_os) ++ map_of (rev envs)"
  by (simp add: sorted_pairs_def map_of_sort_key merged_pairs_def map_of_fold_override)

lemma distinct_fold_override:
  "distinct (map fst ps) \<Longrightarrow> distinct (map fst (fold apply_override envs ps))"
proof (induction envs arbitrary: ps)
  case (Cons kv envs)
  have "distinct (map fst (apply_override kv ps))"
    using Cons.prems by (auto simp: apply_override_def distinct_map_filter_key)
  then show ?case by (simp add: Cons.IH)
qed simp

text \<open>The block as a codec over lists of pairs.\<close>

interpretation blk: codec "\<lambda>ps. concat (map env_entry ps) @ [0]" "\<lambda>b. the (read_env b)" "list_all env_pair_ok"
  by unfold_locales (simp only: read_env_block option.sel)

lemma read_build_env_block:
  assumes "list_all env_pair_ok vars_os" "list_all env_pair_ok envs"
    and "build_env_block vars_os c envs = Some b"
  shows "read_env b = Some (sorted_pairs vars_os c envs)"
  using assms sorted_pairs_ok [OF assms(1,2)]
  by (auto simp: build_env_block_def read_env_block split: if_splits)

lemma child_env_of_block:
  assumes "list_all env_pair_ok vars_os" "list_all env_pair_ok envs"
  shows "map_option map_of (child_env vars_os (build_env_block vars_os c envs)) =
     Some ((if c then Map.empty else map_of vars_os) ++ map_of (rev envs))"
proof (cases "build_env_block vars_os c envs")
  case None
  then show ?thesis by (simp add: build_env_block_def child_env_def split: if_splits)
next
  case (Some b)
  then show ?thesis
    using read_build_env_block [OF assms Some] by (simp add: child_env_def map_of_sorted_pairs)
qed

section \<open>Properties\<close>

text \<open>C13 (lookup): a child started with the block sees, for every name, the last value the
  builder was given for it; without one, the parent's value, unless the environment
  was cleared.\<close>

theorem child_env_lookup:
  assumes "list_all env_pair_ok vars_os" "list_all env_pair_ok envs"
  shows "map_option map_of (child_env vars_os (build_env_block vars_os c envs)) =
     Some ((if c then Map.empty else map_of vars_os) ++ map_of (rev envs))"
  by (rule child_env_of_block [OF assms])

theorem child_env_lookup_witness:
  "map_option map_of (child_env [([0x50], [0x31])] (build_env_block [([0x50], [0x31])] False
     [([0x51], [0x32]), ([0x51], [0x33])])) = Some [[0x50] \<mapsto> [0x31], [0x51] \<mapsto> [0x33]]"
  using child_env_lookup [of "[([0x50], [0x31])]" "[([0x51], [0x32]), ([0x51], [0x33])]" False]
  by (simp add: env_pair_ok_def)

lemma ascii_upper_fold: "ascii_upper = fold_case"
proof
  fix u :: u16
  have "n \<in> of_char ` set ''abcdefghijklmnopqrstuvwxyz'' \<longleftrightarrow> n \<in> set [97..<123]" for n :: nat
    by (simp add: upt_conv_Cons)
  from this [of "unat u"] have "fold_case u = (if 97 \<le> unat u \<and> unat u < 123 then u - 32 else u)"
    by (simp only: fold_case_def set_upt atLeastLessThan_iff)
  then show "ascii_upper u = fold_case u"
    by (simp add: ascii_upper_def word_le_nat_alt less_Suc_eq_le)
qed

lemma upper_wide_fold: "upper_wide = map fold_case"
  by (simp add: upper_wide_def ascii_upper_fold fun_eq_iff)

lemma fold_override_spec:
  "fold apply_override envs ps = filter (\<lambda>p. fst p \<notin> fst ` set envs) ps @ last_settings envs"
proof (induction envs arbitrary: ps)
  case (Cons kv envs)
  have "filter (\<lambda>p. fst p \<notin> fst ` set envs) (filter (\<lambda>(ek, _). ek \<noteq> fst kv) ps) =
      filter (\<lambda>p. fst p \<notin> fst ` set (kv # envs)) ps"
    by (auto simp: case_prod_beta intro: filter_cong)
  then show ?case using Cons [of "apply_override kv ps"] by (simp add: apply_override_def)
qed simp

lemma merged_pairs_spec: "merged_pairs vars_os c envs = block_vars vars_os c envs"
  by (simp add: merged_pairs_def block_vars_def fold_override_spec)

text \<open>C29 (order): the block lists exactly the inherited variables that were not set again and the
  last setting of each other, sorted by name without regard to the case of the letters a to z, as
  \<open>CreateProcessW\<close> requires; names that differ only in case keep the order they were given in.\<close>

theorem build_env_block_sorted:
  assumes "list_all env_pair_ok vars_os" "list_all env_pair_ok envs"
    and "build_env_block vars_os c envs = Some b"
  shows "\<exists>ps. read_env b = Some ps \<and> sorted (map (\<lambda>(k, _). map fold_case k) ps) \<and>
     mset ps = mset (block_vars vars_os c envs) \<and>
     (\<forall>n. filter (\<lambda>(k, _). map fold_case k = n) ps =
       filter (\<lambda>(k, _). map fold_case k = n) (block_vars vars_os c envs))"
proof (intro exI conjI allI)
  show "read_env b = Some (sorted_pairs vars_os c envs)"
    by (rule read_build_env_block [OF assms])
  show "filter (\<lambda>(k, _). map fold_case k = n) (sorted_pairs vars_os c envs) =
      filter (\<lambda>(k, _). map fold_case k = n) (block_vars vars_os c envs)" for n
    using sort_key_stable [of "\<lambda>(a, _). map fold_case a" n "merged_pairs vars_os c envs"]
    by (simp add: sorted_pairs_def case_prod_unfold upper_wide_fold merged_pairs_spec)
qed (simp_all add: sorted_pairs_def upper_wide_fold merged_pairs_spec)

theorem build_env_block_sorted_witness:
  "\<exists>ps. read_env [0x61, EQ, 0x31, 0, 0x42, EQ, 0x32, 0, 0x7A, EQ, 0x33, 0, 0x5B, EQ, 0, 0] = Some ps \<and>
     sorted (map (\<lambda>(k, _). map fold_case k) ps) \<and>
     mset ps = {#([0x61], [0x31]), ([0x42], [0x32]), ([0x5B], []), ([0x7A], [0x33])#}"
proof -
  have "build_env_block [([0x42], [0x30]), ([0x5B], [])] False [([0x7A], [0x33]), ([0x42], [0x32]), ([0x61], [0x31])] =
      Some [0x61, EQ, 0x31, 0, 0x42, EQ, 0x32, 0, 0x7A, EQ, 0x33, 0, 0x5B, EQ, 0, 0]" by code_simp
  moreover have "list_all env_pair_ok [([0x42], [0x30]), ([0x5B], [])]"
    "list_all env_pair_ok [([0x7A], [0x33]), ([0x42], [0x32]), ([0x61], [0x31])]"
    by (simp_all add: env_pair_ok_def)
  ultimately obtain ps where "read_env [0x61, EQ, 0x31, 0, 0x42, EQ, 0x32, 0, 0x7A, EQ, 0x33, 0, 0x5B, EQ, 0, 0] = Some ps"
    "sorted (map (\<lambda>(k, _). map fold_case k) ps)"
    "mset ps = mset (block_vars [([0x42], [0x30]), ([0x5B], [])] False [([0x7A], [0x33]), ([0x42], [0x32]), ([0x61], [0x31])])"
    using build_env_block_sorted by metis
  then show ?thesis by (simp add: block_vars_def add_mset_commute)
qed

text \<open>C37 (terminator): the block ends with the two NUL units its comment promises exactly
  when the builder was given a variable. Otherwise the environment was cleared and the whole
  block is one NUL unit.\<close>

theorem build_env_block_terminator:
  assumes "build_env_block vars_os c envs = Some b"
  shows "((\<exists>bs. b = bs @ [0, 0]) \<longleftrightarrow> envs \<noteq> []) \<and> (envs = [] \<longrightarrow> c \<and> b = [0])"
proof (cases "sorted_pairs vars_os c envs" rule: rev_cases)
  case Nil
  then have "merged_pairs vars_os c envs = []"
    by (simp add: sorted_pairs_def) (metis length_0_conv length_sort)
  then have "envs = []"
    by (cases envs rule: rev_cases) (auto simp: merged_pairs_def apply_override_def)
  with Nil assms show ?thesis by (auto simp: build_env_block_def split: if_splits)
next
  case (snoc ps p)
  then have "merged_pairs vars_os c envs \<noteq> []" by (auto simp: sorted_pairs_def)
  with assms have "envs \<noteq> []"
    by (cases envs) (auto simp: merged_pairs_def build_env_block_def split: if_splits)
  moreover have "\<exists>bs. b = bs @ [0, 0]"
    using assms snoc by (cases p) (auto simp: build_env_block_def env_entry_def split: if_splits)
  ultimately show ?thesis by simp
qed

theorem build_env_block_terminator_witness:
  "build_env_block [([0x50], [0x31])] True [] = Some [0] \<and>
   (\<exists>b bs. build_env_block [([0x50], [0x31])] True [([0x51], [])] = Some b \<and> b = bs @ [0, 0])"
proof -
  obtain b where "build_env_block [([0x50], [0x31])] True [] = Some b" by (simp add: build_env_block_def)
  moreover obtain d where "build_env_block [([0x50], [0x31])] True [([0x51], [])] = Some d"
    by (simp add: build_env_block_def)
  ultimately show ?thesis using build_env_block_terminator by blast
qed

text \<open>C38 (case variants): names are compared exactly when overrides are merged, while
  Windows compares them without regard to case. Overriding a variable under another
  spelling leaves the parent's entry in the block beside the new one.\<close>

theorem case_variants_both_kept:
  assumes "(k', v') \<in> set vars_os" "k' \<notin> fst ` set (envs @ [(k, v)])"
    and "upper_wide k' = upper_wide k"
    and "list_all env_pair_ok vars_os" "list_all env_pair_ok (envs @ [(k, v)])"
  shows "\<exists>b ps. build_env_block vars_os False (envs @ [(k, v)]) = Some b \<and> read_env b = Some ps \<and>
     {(k', v'), (k, v)} \<subseteq> set ps \<and> \<not> distinct (map (\<lambda>(n, _). upper_wide n) ps)"
proof -
  let ?m = "merged_pairs vars_os False (envs @ [(k, v)])"
  have keep: "(k', v') \<in> set (fold apply_override es ps)"
    if "(k', v') \<in> set ps" "k' \<notin> fst ` set es" for es ps
    using that by (induction es arbitrary: ps) (auto simp: apply_override_def)
  have both: "(k', v') \<in> set ?m" "(k, v) \<in> set ?m"
    using keep [OF assms(1,2)] by (auto simp: merged_pairs_def apply_override_def)
  have ne: "(k', v') \<noteq> (k, v)" using assms(2) by auto
  obtain b where b: "build_env_block vars_os False (envs @ [(k, v)]) = Some b"
    by (auto simp: build_env_block_def)
  have "\<not> distinct (map (\<lambda>(n, _). upper_wide n) (sorted_pairs vars_os False (envs @ [(k, v)])))"
  proof
    assume "distinct (map (\<lambda>(n, _). upper_wide n) (sorted_pairs vars_os False (envs @ [(k, v)])))"
    then have "inj_on (\<lambda>(n, _). upper_wide n) (set ?m)"
      by (simp add: distinct_map sorted_pairs_def)
    from inj_onD [OF this _ both] show False using assms(3) ne by simp
  qed
  then show ?thesis
    using b read_build_env_block [OF assms(4,5) b] both by (auto simp: sorted_pairs_def)
qed

theorem case_variants_both_kept_witness:
  "\<exists>b ps. build_env_block [([0x50, 0x61], [0x31])] False [([0x50, 0x41], [0x32])] = Some b \<and>
     read_env b = Some ps \<and> {([0x50, 0x61], [0x31]), ([0x50, 0x41], [0x32])} \<subseteq> set ps"
  using case_variants_both_kept
    [of "[0x50, 0x61]" "[0x31]" "[([0x50, 0x61], [0x31])]" "[]" "[0x50, 0x41]" "[0x32]"]
  by (auto simp: env_pair_ok_def upper_wide_def ascii_upper_def)

end
