(* ===== verification/Termination.thy ===== *)
theory Termination
  imports Prelude
begin

text \<open>
  The public result types: \<open>TerminationReason\<close> (\<open>termination.rs\<close>), \<open>Monitor\<close>
  (\<open>monitor.rs\<close>), the Windows \<open>ExitStatus\<close> they carry, and the snapshot
  \<open>CachedReason\<close> and conversions of \<open>core.rs\<close>.
\<close>

section \<open>Exit statuses\<close>

text \<open>\<open>std::process::ExitStatus\<close> on Windows: a raw \<open>u32\<close>, read by \<open>code()\<close>
  as an \<open>i32\<close> that is always there.\<close>

datatype exit_status = Exit_Status u32

fun status_code :: "exit_status \<Rightarrow> int option" where
  "status_code (Exit_Status raw) = Some (u32_as_i32 raw)"

definition make_exit_status :: "u32 \<Rightarrow> exit_status" where
  "make_exit_status code = Exit_Status code"

text \<open>\<open>s.code().unwrap_or(1) as u32\<close>\<close>

definition exit_code :: "exit_status \<Rightarrow> u32" where
  "exit_code s = i32_as_u32 (case status_code s of None \<Rightarrow> 1 | Some c \<Rightarrow> c)"

lemma exit_code_make [simp]: "exit_code (make_exit_status c) = c"
  by (simp add: exit_code_def make_exit_status_def)

lemma make_exit_code [simp]: "make_exit_status (exit_code s) = s"
  by (cases s) (simp add: exit_code_def make_exit_status_def)

section \<open>Termination reasons\<close>

datatype termination_reason =
    CleanExit exit_status
  | Crash u32 u64
  | FastFail u32
  | ExternalKill exit_status
  | Unknown exit_status

text \<open>\<open>TerminationReason::exit_status\<close>, the Windows branches.\<close>

fun reason_exit_status :: "termination_reason \<Rightarrow> exit_status" where
  "reason_exit_status (CleanExit s) = s"
| "reason_exit_status (Crash code address) = make_exit_status code"
| "reason_exit_status (FastFail code) = make_exit_status code"
| "reason_exit_status (ExternalKill s) = s"
| "reason_exit_status (Unknown s) = s"

text \<open>\<open>reason_to_exit_status\<close> of \<open>core.rs\<close>, in its own case order.\<close>

fun reason_to_exit_status :: "termination_reason \<Rightarrow> exit_status" where
  "reason_to_exit_status (Unknown s) = s"
| "reason_to_exit_status (CleanExit s) = s"
| "reason_to_exit_status (ExternalKill s) = s"
| "reason_to_exit_status (Crash code address) = make_exit_status code"
| "reason_to_exit_status (FastFail code) = make_exit_status code"

lemma reason_to_exit_status_eq: "reason_to_exit_status r = reason_exit_status r"
  by (cases r) auto

text \<open>\<open>TerminationResult\<close> and \<open>IocpResult\<close>.\<close>

type_synonym term_result = "io_error + termination_reason"

section \<open>The cached snapshot\<close>

datatype cached_reason =
    C_Unknown u32
  | C_Crash u32 u64
  | C_FastFail u32
  | C_ExternalKill u32
  | C_CleanExit u32

fun from_reason :: "termination_reason \<Rightarrow> cached_reason" where
  "from_reason (Unknown s) = C_Unknown (exit_code s)"
| "from_reason (Crash code address) = C_Crash code address"
| "from_reason (FastFail c) = C_FastFail c"
| "from_reason (ExternalKill s) = C_ExternalKill (exit_code s)"
| "from_reason (CleanExit s) = C_CleanExit (exit_code s)"

fun into_reason :: "cached_reason \<Rightarrow> termination_reason" where
  "into_reason (C_Unknown c) = Unknown (make_exit_status c)"
| "into_reason (C_Crash code address) = Crash code address"
| "into_reason (C_FastFail c) = FastFail c"
| "into_reason (C_ExternalKill c) = ExternalKill (make_exit_status c)"
| "into_reason (C_CleanExit c) = CleanExit (make_exit_status c)"

lemma into_from_reason [simp]: "into_reason (from_reason r) = r"
  by (cases r) auto

lemma from_into_reason [simp]: "from_reason (into_reason c) = c"
  by (cases c) auto

interpretation cached: codec from_reason into_reason "\<lambda>_. True"
  by unfold_locales simp

section \<open>Monitors\<close>

datatype monitor = DebugApi | JobObject | Sentinel

text \<open>Three techniques: quantifiers over them are decided by enumeration.\<close>

instantiation monitor :: enum
begin

definition "enum_monitor = [DebugApi, JobObject, Sentinel]"

definition "enum_all_monitor P \<longleftrightarrow> P DebugApi \<and> P JobObject \<and> P Sentinel"

definition "enum_ex_monitor P \<longleftrightarrow> P DebugApi \<or> P JobObject \<or> P Sentinel"

instance
proof
  have all: "(UNIV :: monitor set) = {DebugApi, JobObject, Sentinel}"
    using monitor.exhaust by blast
  then show "(UNIV :: monitor set) = set enum_class.enum"
    by (simp add: enum_monitor_def)
  show "distinct (enum_class.enum :: monitor list)"
    by (simp add: enum_monitor_def)
  fix P :: "monitor \<Rightarrow> bool"
  show "enum_class.enum_all P \<longleftrightarrow> Ball UNIV P"
    by (simp add: all enum_all_monitor_def)
  show "enum_class.enum_ex P \<longleftrightarrow> Bex UNIV P"
    by (simp add: all enum_ex_monitor_def)
qed

end

end
