(* ===== verification/Builder.thy ===== *)
theory Builder
  imports CommandLine EnvBlock Termination
begin

text \<open>
  \<open>WorrywartCommand\<close> of \<open>src/crates/worrywart/src/core.rs\<close>: the fields of the builder
  and its methods, one function each. The methods take and return the builder by value, so
  a chain of calls is a fold. Its environment methods are followed through the block to what
  the child sees, and that is compared with what their comments promise: one kind of variable
  differs.
\<close>

section \<open>The builder\<close>

text \<open>The pump and listener cells, shared with the \<open>Worrywart\<close>, are in the state; the
  job handle is copied.\<close>

record worrywart_command =
  wc_program :: os_string
  wc_args :: "os_string list"
  wc_envs :: env_pairs
  wc_env_clear :: bool
  wc_current_dir :: "os_string option"
  wc_monitors :: "monitor list"
  wc_affinity_mask :: usize
  wc_job :: handle

definition new_with_state :: "os_string \<Rightarrow> handle \<Rightarrow> worrywart_command" where
  "new_with_state program job = \<lparr>wc_program = program, wc_args = [], wc_envs = [], wc_env_clear = False,
     wc_current_dir = None, wc_monitors = [], wc_affinity_mask = 0, wc_job = job\<rparr>"

definition add_arg :: "os_string \<Rightarrow> worrywart_command \<Rightarrow> worrywart_command" where
  "add_arg a c = c\<lparr>wc_args := wc_args c @ [a]\<rparr>"

definition add_args :: "os_string list \<Rightarrow> worrywart_command \<Rightarrow> worrywart_command" where
  "add_args as c = c\<lparr>wc_args := wc_args c @ as\<rparr>"

definition env :: "os_string \<Rightarrow> os_string \<Rightarrow> worrywart_command \<Rightarrow> worrywart_command" where
  "env k v c = c\<lparr>wc_envs := wc_envs c @ [(k, v)]\<rparr>"

definition env_remove :: "os_string \<Rightarrow> worrywart_command \<Rightarrow> worrywart_command" where
  "env_remove key c = c\<lparr>wc_envs := filter (\<lambda>(k, _). k \<noteq> key) (wc_envs c)\<rparr>"

definition env_clear :: "worrywart_command \<Rightarrow> worrywart_command" where
  "env_clear c = c\<lparr>wc_env_clear := True, wc_envs := []\<rparr>"

definition current_dir :: "os_string \<Rightarrow> worrywart_command \<Rightarrow> worrywart_command" where
  "current_dir dir c = c\<lparr>wc_current_dir := Some dir\<rparr>"

definition add_monitor :: "monitor \<Rightarrow> worrywart_command \<Rightarrow> worrywart_command" where
  "add_monitor technique c =
     (if technique \<in> set (wc_monitors c) then c
      else c\<lparr>wc_monitors := wc_monitors c @ [technique]\<rparr>)"

definition affinity_mask :: "usize \<Rightarrow> worrywart_command \<Rightarrow> worrywart_command" where
  "affinity_mask bits c = c\<lparr>wc_affinity_mask := bits\<rparr>"

section \<open>Chains of calls\<close>

datatype builder_op =
    Arg os_string
  | Args "os_string list"
  | Env os_string os_string
  | Env_Remove os_string
  | Env_Clear
  | Current_Dir os_string
  | Monitor_With monitor
  | Affinity usize

fun builder_step :: "worrywart_command \<Rightarrow> builder_op \<Rightarrow> worrywart_command" where
  "builder_step c (Arg a) = add_arg a c"
| "builder_step c (Args as) = add_args as c"
| "builder_step c (Env k v) = env k v c"
| "builder_step c (Env_Remove k) = env_remove k c"
| "builder_step c Env_Clear = env_clear c"
| "builder_step c (Current_Dir d) = current_dir d c"
| "builder_step c (Monitor_With m) = add_monitor m c"
| "builder_step c (Affinity m) = affinity_mask m c"

definition build :: "os_string \<Rightarrow> handle \<Rightarrow> builder_op list \<Rightarrow> worrywart_command" where
  "build program job ops = foldl builder_step (new_with_state program job) ops"

lemmas builder_defs = add_arg_def add_args_def env_def env_remove_def env_clear_def current_dir_def
  add_monitor_def affinity_mask_def

lemma build_snoc: "build p j (ops @ [op]) = builder_step (build p j ops) op"
  by (simp add: build_def)

lemma build_Nil: "build p j [] = new_with_state p j"
  by (simp add: build_def)

section \<open>Reference: what a chain of calls asks for\<close>

text \<open>The environment as a map, and whether the parent's is kept.\<close>

fun env_step :: "bool \<times> (os_string \<rightharpoonup> os_string) \<Rightarrow> builder_op \<Rightarrow> bool \<times> (os_string \<rightharpoonup> os_string)" where
  "env_step (cleared, m) (Env k v) = (cleared, m(k \<mapsto> v))"
| "env_step (cleared, m) (Env_Remove k) = (cleared, m(k := None))"
| "env_step (cleared, m) Env_Clear = (True, Map.empty)"
| "env_step st op = st"

definition env_spec :: "builder_op list \<Rightarrow> bool \<times> (os_string \<rightharpoonup> os_string)" where
  "env_spec ops = foldl env_step (False, Map.empty) ops"

definition env_abs :: "worrywart_command \<Rightarrow> bool \<times> (os_string \<rightharpoonup> os_string)" where
  "env_abs c = (wc_env_clear c, map_of (rev (wc_envs c)))"

fun op_args :: "builder_op \<Rightarrow> os_string list" where
  "op_args (Arg a) = [a]"
| "op_args (Args as) = as"
| "op_args op = []"

fun op_monitors :: "builder_op \<Rightarrow> monitor list" where
  "op_monitors (Monitor_With m) = [m]"
| "op_monitors op = []"

fun op_vars :: "builder_op \<Rightarrow> env_pairs" where
  "op_vars (Env k v) = [(k, v)]"
| "op_vars op = []"

text \<open>Each method implements its operation on the map.\<close>

lemma env_abs_step: "env_abs (builder_step c op) = env_step (env_abs c) op"
proof (cases op)
  case (Env_Remove k)
  have "map_of (rev (filter (\<lambda>(ek, _). ek \<noteq> k) (wc_envs c))) = (map_of (rev (wc_envs c)))(k := None)"
    by (simp add: rev_filter map_of_filter_neq)
  then show ?thesis using Env_Remove by (simp add: env_abs_def env_remove_def)
qed (auto simp: env_abs_def builder_defs)

lemma env_abs_build: "env_abs (build p j ops) = env_spec ops"
proof (induction ops rule: rev_induct)
  case Nil
  then show ?case by (simp add: build_Nil env_abs_def env_spec_def new_with_state_def)
next
  case (snoc op ops)
  then show ?case by (simp add: build_snoc env_abs_step env_spec_def)
qed

lemma envs_build: "set (wc_envs (build p j ops)) \<subseteq> set (concat (map op_vars ops))"
proof (induction ops rule: rev_induct)
  case Nil
  then show ?case by (simp add: build_Nil new_with_state_def)
next
  case (snoc op ops)
  then show ?case by (cases op) (auto simp: build_snoc builder_defs)
qed

section \<open>Properties\<close>

lemma builder_child_env_of:
  assumes "list_all env_pair_ok vars_os" "list_all env_pair_ok (concat (map op_vars ops))"
    and "c = build program job ops" "env_spec ops = (cleared, m)"
  shows "map_option map_of (child_env vars_os (build_env_block vars_os (wc_env_clear c) (wc_envs c))) =
     Some ((if cleared then Map.empty else map_of vars_os) ++ m)"
proof -
  have e: "wc_env_clear c = cleared" "map_of (rev (wc_envs c)) = m"
    using env_abs_build [of program job ops] assms(3,4) by (simp_all add: env_abs_def)
  have ok: "list_all env_pair_ok (wc_envs c)"
    using assms(2,3) envs_build [of program job ops] by (auto simp: list_all_iff)
  show ?thesis using child_env_of_block [OF assms(1) ok, of "wc_env_clear c"] e by simp
qed

text \<open>What the comments of the methods promise: each acts on the environment the child would get so
  far, which starts as the parent's. And the names whose last operation is a removal.\<close>

fun doc_step :: "(os_string \<rightharpoonup> os_string) \<Rightarrow> builder_op \<Rightarrow> (os_string \<rightharpoonup> os_string)" where
  "doc_step m (Env k v) = m(k \<mapsto> v)"
| "doc_step m (Env_Remove k) = m(k := None)"
| "doc_step m Env_Clear = Map.empty"
| "doc_step m op = m"

definition documented_env :: "(os_string \<rightharpoonup> os_string) \<Rightarrow> builder_op list \<Rightarrow> (os_string \<rightharpoonup> os_string)" where
  "documented_env parent ops = foldl doc_step parent ops"

fun removed_step :: "os_string set \<Rightarrow> builder_op \<Rightarrow> os_string set" where
  "removed_step R (Env k v) = R - {k}"
| "removed_step R (Env_Remove k) = insert k R"
| "removed_step R Env_Clear = {}"
| "removed_step R op = R"

definition left_removed :: "builder_op list \<Rightarrow> os_string set" where
  "left_removed ops = foldl removed_step {} ops"

text \<open>The builder's own bookkeeping against the documented one.\<close>

lemma documented_env_spec:
  "documented_env parent ops x =
     (if x \<in> left_removed ops then None
      else ((if fst (env_spec ops) then Map.empty else parent) ++ snd (env_spec ops)) x) \<and>
   (x \<in> left_removed ops \<longrightarrow> snd (env_spec ops) x = None) \<and> (fst (env_spec ops) \<longleftrightarrow> Env_Clear \<in> set ops)"
proof (induction ops rule: rev_induct)
  case Nil
  then show ?case by (simp add: documented_env_def left_removed_def env_spec_def)
next
  case (snoc op ops)
  obtain cl m where e: "env_spec ops = (cl, m)" by (metis surj_pair)
  have "env_spec (ops @ [op]) = env_step (cl, m) op" using e by (simp add: env_spec_def)
  then show ?case using snoc e
    by (cases op) (auto simp: documented_env_def left_removed_def map_add_def)
qed

text \<open>C14 (the child's environment): however the methods are chained, the child's environment is
  the one their comments promise at every name but one kind: a variable of the parent whose last
  operation was env_remove, with no env_clear anywhere in the chain, is promised to be absent and
  reaches the child with the parent's value.\<close>

theorem builder_child_env:
  assumes "list_all env_pair_ok vars_os" "list_all env_pair_ok (concat (map op_vars ops))"
    and "c = build program job ops"
  shows "\<exists>e. child_env vars_os (build_env_block vars_os (wc_env_clear c) (wc_envs c)) = Some e \<and>
    (\<forall>x. map_of e x =
       (if x \<in> left_removed ops \<and> Env_Clear \<notin> set ops then map_of vars_os x
        else documented_env (map_of vars_os) ops x))"
proof -
  obtain cl m where s: "env_spec ops = (cl, m)" by (metis surj_pair)
  obtain e where e: "child_env vars_os (build_env_block vars_os (wc_env_clear c) (wc_envs c)) = Some e"
    "map_of e = (if cl then Map.empty else map_of vars_os) ++ m"
    using builder_child_env_of [OF assms s] by auto
  have "map_of e x = (if x \<in> left_removed ops \<and> Env_Clear \<notin> set ops then map_of vars_os x
        else documented_env (map_of vars_os) ops x)" for x
    using documented_env_spec [of "map_of vars_os" ops x] s by (auto simp: e(2) map_add_def)
  then show ?thesis using e(1) by blast
qed

theorem builder_child_env_witness:
  "\<exists>e. child_env [([0x50], [0x31]), ([0x51], [0x32])]
     (build_env_block [([0x50], [0x31]), ([0x51], [0x32])]
        (wc_env_clear (build [0x78] 4 [Env [0x52] [0x33], Env [0x50] [0x34], Env_Remove [0x52], Env_Remove [0x51]]))
        (wc_envs (build [0x78] 4 [Env [0x52] [0x33], Env [0x50] [0x34], Env_Remove [0x52], Env_Remove [0x51]]))) = Some e \<and>
     map_of e [0x50] = Some [0x34] \<and> map_of e [0x52] = None \<and> map_of e [0x51] = Some [0x32]"
proof -
  let ?ops = "[Env [0x52] [0x33], Env [0x50] [0x34], Env_Remove [0x52], Env_Remove [0x51]]"
  have "list_all env_pair_ok [([0x50], [0x31]), ([0x51], [0x32])]" "list_all env_pair_ok (concat (map op_vars ?ops))"
    by (simp_all add: env_pair_ok_def)
  from builder_child_env [OF this refl, of "[0x78]" 4] show ?thesis
    by (auto simp: left_removed_def documented_env_def)
qed

text \<open>Env_remove: its comment says it removes a variable from the child's environment. It only takes
  back what the builder itself was given: a variable the parent has is still there.\<close>

theorem env_remove_keeps_inherited:
  assumes "list_all env_pair_ok vars_os" "map_of vars_os k = Some v" "list_all env_pair_ok (wc_envs c)"
    and "\<not> wc_env_clear c"
  shows "\<exists>e. child_env vars_os (build_env_block vars_os (wc_env_clear (env_remove k c)) (wc_envs (env_remove k c))) =
     Some e \<and> map_of e k = Some v"
proof -
  have ok: "list_all env_pair_ok (wc_envs (env_remove k c))"
    using assms(3) by (auto simp: env_remove_def list_all_iff)
  have "map_of (rev (wc_envs (env_remove k c))) k = None"
    by (simp add: env_remove_def rev_filter map_of_filter_neq)
  then show ?thesis
    using child_env_of_block [OF assms(1) ok, of False] assms(2,4)
    by (auto simp: env_remove_def map_add_def)
qed

theorem env_remove_keeps_inherited_witness:
  "\<exists>e. child_env [([0x50], [0x31])] (build_env_block [([0x50], [0x31])]
     (wc_env_clear (env_remove [0x50] (new_with_state [0x78] 4))) (wc_envs (env_remove [0x50] (new_with_state [0x78] 4)))) =
     Some e \<and> map_of e [0x50] = Some [0x31]"
  by (rule env_remove_keeps_inherited) (simp_all add: env_pair_ok_def new_with_state_def)

text \<open>Well-formed builder: over any chain of calls the arguments are those given, in order,
  the last directory and affinity mask win, and the monitors are those asked for, each once.\<close>

theorem builder_fields:
  "wc_program (build p j ops) = p \<and> wc_job (build p j ops) = j \<and>
   wc_args (build p j ops) = concat (map op_args ops) \<and>
   distinct (wc_monitors (build p j ops)) \<and>
   set (wc_monitors (build p j ops)) = set (concat (map op_monitors ops)) \<and>
   wc_affinity_mask (build p j (ops @ [Affinity m])) = m \<and>
   wc_current_dir (build p j (ops @ [Current_Dir d])) = Some d"
proof -
  have "wc_program (build p j ops) = p \<and> wc_job (build p j ops) = j \<and>
    wc_args (build p j ops) = concat (map op_args ops) \<and> distinct (wc_monitors (build p j ops)) \<and>
    set (wc_monitors (build p j ops)) = set (concat (map op_monitors ops))"
  proof (induction ops rule: rev_induct)
    case Nil
    then show ?case by (simp add: build_Nil new_with_state_def)
  next
    case (snoc op ops)
    then show ?case by (cases op) (auto simp: build_snoc builder_defs)
  qed
  then show ?thesis by (simp add: build_snoc builder_defs)
qed

end
