(* ===== verification/Channel.thy ===== *)
theory Channel
  imports Prelude
begin

text \<open>
  The channels of \<open>std::sync::mpsc\<close> the threads of the crate talk over: a FIFO of
  messages, a capacity (\<open>None\<close> for \<open>channel()\<close>, \<open>Some n\<close> for
  \<open>sync_channel(n)\<close>), the number of live senders and whether the receiver is alive.
  Sending to a dropped receiver and receiving from an empty channel without senders
  are errors; sending to a full channel and receiving from an empty one block.
\<close>

record 'a chan =
  ch_buf :: "'a list"
  ch_cap :: "nat option"
  ch_senders :: nat
  ch_receiver :: bool

definition channel :: "'a chan" where
  "channel = \<lparr>ch_buf = [], ch_cap = None, ch_senders = 1, ch_receiver = True\<rparr>"

definition sync_channel :: "nat \<Rightarrow> 'a chan" where
  "sync_channel n = \<lparr>ch_buf = [], ch_cap = Some n, ch_senders = 1, ch_receiver = True\<rparr>"

definition ch_full :: "'a chan \<Rightarrow> bool" where
  "ch_full c = (case ch_cap c of None \<Rightarrow> False | Some n \<Rightarrow> n \<le> length (ch_buf c))"

datatype 'a send_outcome = Sent "'a chan" | Send_Err | Send_Blocks

definition ch_send :: "'a \<Rightarrow> 'a chan \<Rightarrow> 'a send_outcome" where
  "ch_send x c =
     (if \<not> ch_receiver c then Send_Err
      else if ch_full c then Send_Blocks
      else Sent (c\<lparr>ch_buf := ch_buf c @ [x]\<rparr>))"

datatype 'a recv_outcome = Received 'a "'a chan" | Recv_Err | Recv_Blocks

definition ch_recv :: "'a chan \<Rightarrow> 'a recv_outcome" where
  "ch_recv c =
     (case ch_buf c of
        x # xs \<Rightarrow> Received x (c\<lparr>ch_buf := xs\<rparr>)
      | [] \<Rightarrow> if ch_senders c = 0 then Recv_Err else Recv_Blocks)"

text \<open>\<open>try_recv().ok()\<close>.\<close>

definition ch_try_recv :: "'a chan \<Rightarrow> ('a \<times> 'a chan) option" where
  "ch_try_recv c =
     (case ch_buf c of x # xs \<Rightarrow> Some (x, c\<lparr>ch_buf := xs\<rparr>) | [] \<Rightarrow> None)"

definition drop_sender :: "'a chan \<Rightarrow> 'a chan" where
  "drop_sender c = c\<lparr>ch_senders := ch_senders c - 1\<rparr>"

definition drop_receiver :: "'a chan \<Rightarrow> 'a chan" where
  "drop_receiver c = c\<lparr>ch_receiver := False, ch_buf := []\<rparr>"

section \<open>The queue interface\<close>

text \<open>
  What the threads rely on: what is taken out was put in, in that order. Proved once
  for any queue; the interpretation is the channel above.
\<close>

locale fifo =
  fixes put :: "'a \<Rightarrow> 'c \<Rightarrow> 'c option"
    and take_out :: "'c \<Rightarrow> ('a \<times> 'c) option"
    and contents :: "'c \<Rightarrow> 'a list"
  assumes put_contents: "put x c = Some c' \<Longrightarrow> contents c' = contents c @ [x]"
    and take_contents: "take_out c = Some (x, c') \<Longrightarrow> contents c = x # contents c'"
    and take_empty: "take_out c = None \<Longrightarrow> contents c = []"
begin

text \<open>Taking everything out, in order: the shape of \<open>while let Ok(m) = rx.try_recv()\<close>.\<close>

lemma take_decreases: "take_out c = Some (x, c') \<Longrightarrow> length (contents c') < length (contents c)"
  by (simp add: take_contents)

lemma put_take: "contents c = [] \<Longrightarrow> put x c = Some c' \<Longrightarrow> \<exists>c''. take_out c' = Some (x, c'') \<and> contents c'' = []"
proof -
  assume "contents c = []" "put x c = Some c'"
  then have c': "contents c' = [x]" by (simp add: put_contents)
  then obtain y c'' where "take_out c' = Some (y, c'')"
    using take_empty [of c'] by (cases "take_out c'") auto
  moreover from take_contents [OF this] c' have "y = x" "contents c'' = []" by auto
  ultimately show ?thesis by blast
qed

lemma take_order:
  "take_out c = Some (x, c') \<Longrightarrow> put y c = Some d \<Longrightarrow> take_out d = Some (z, d') \<Longrightarrow>
   z = x \<and> contents d' = contents c' @ [y]"
  using put_contents [of y c d] take_contents [of c x c'] take_contents [of d z d'] by simp

end

definition ch_put :: "'a \<Rightarrow> 'a chan \<Rightarrow> 'a chan option" where
  "ch_put x c = (case ch_send x c of Sent c' \<Rightarrow> Some c' | _ \<Rightarrow> None)"

interpretation mpsc: fifo ch_put ch_try_recv ch_buf
  by unfold_locales
    (auto simp: ch_put_def ch_send_def ch_try_recv_def split: send_outcome.splits if_splits list.splits)

section \<open>One-shot channels\<close>

text \<open>
  The exit channels are \<open>sync_channel(1)\<close> with one sender that is dropped after at
  most one send. \<open>oneshot_open\<close>: nothing sent yet; \<open>oneshot_done x\<close>: sent, not
  yet received; \<open>oneshot_dead\<close>: the sender is gone and nothing is left.
\<close>

definition oneshot_open :: "'a chan \<Rightarrow> bool" where
  "oneshot_open c \<longleftrightarrow> ch_buf c = [] \<and> ch_cap c = Some 1 \<and> ch_senders c = 1"

definition oneshot_done :: "'a \<Rightarrow> 'a chan \<Rightarrow> bool" where
  "oneshot_done x c \<longleftrightarrow> ch_buf c = [x] \<and> ch_senders c = 0"

definition oneshot_dead :: "'a chan \<Rightarrow> bool" where
  "oneshot_dead c \<longleftrightarrow> ch_buf c = [] \<and> ch_senders c = 0"

lemma oneshot_new [simp]: "oneshot_open (sync_channel 1)"
  by (simp add: oneshot_open_def sync_channel_def)

lemma oneshot_new_Suc [simp]: "oneshot_open (sync_channel (Suc 0))"
  by (simp add: oneshot_open_def sync_channel_def)

lemma oneshot_send:
  "oneshot_open c \<Longrightarrow> ch_receiver c \<Longrightarrow>
   ch_send x c = Sent (c\<lparr>ch_buf := [x]\<rparr>) \<and> oneshot_done x (drop_sender (c\<lparr>ch_buf := [x]\<rparr>))"
  by (simp add: oneshot_open_def oneshot_done_def ch_send_def ch_full_def drop_sender_def)

lemma oneshot_never_blocks: "oneshot_open c \<Longrightarrow> ch_send x c \<noteq> Send_Blocks"
  by (simp add: oneshot_open_def ch_send_def ch_full_def)

lemma oneshot_recv_done: "oneshot_done x c \<Longrightarrow> ch_recv c = Received x (c\<lparr>ch_buf := []\<rparr>)"
  by (simp add: oneshot_done_def ch_recv_def)

lemma oneshot_recv_dead: "oneshot_dead c \<Longrightarrow> ch_recv c = Recv_Err"
  by (simp add: oneshot_dead_def ch_recv_def)

lemma oneshot_recv_open: "oneshot_open c \<Longrightarrow> ch_recv c = Recv_Blocks"
  by (simp add: oneshot_open_def ch_recv_def)

lemma oneshot_drop: "oneshot_open c \<Longrightarrow> oneshot_dead (drop_sender c)"
  by (simp add: oneshot_open_def oneshot_dead_def drop_sender_def)

end
