(* ===== verification/Runtime.thy ===== *)
theory Runtime
  imports Channel Termination EnvBlock
begin

text \<open>
  What the crate runs on. The Win32 functions (the \<open>windows-sys\<close> crate), thread
  creation and \<open>std::process::Command::spawn\<close> are code outside the repository: a
  record \<open>win32\<close> of functions over an arbitrary type of worlds, an argument of every
  definition that calls one. Nothing is assumed about them here. A computation runs on
  a state \<open>sys\<close>: the world, the log of the calls made so far with their arguments
  and answers, and the store of the channels the threads share. The ledger
  \<open>held\<close> counts, from the log, the handles the process was given and has not
  closed.
\<close>

section \<open>Arguments and answers of the API\<close>

record process_information =
  hProcess :: handle
  hThread :: handle
  dwProcessId :: pid

text \<open>The arguments of \<open>CreateProcessW\<close> that vary: the job comes in through the
  attribute list, the standard handles through \<open>STARTUPINFOEXW\<close>.\<close>

record create_args =
  ca_application_name :: "u16 list option"
  ca_command_line :: "u16 list"
  ca_inherit_handles :: bool
  ca_flags :: u32
  ca_environment :: "u16 list option"
  ca_current_directory :: "u16 list option"
  ca_job_list :: "handle option"
  ca_std_handles :: "(handle \<times> handle \<times> handle) option"

text \<open>A debug event: \<open>dwDebugEventCode\<close> and the union it selects, as a datatype.
  Exception codes are \<open>i32\<close>, the \<open>dwFirstChance\<close> flag is a \<open>u32\<close>.\<close>

datatype debug_payload =
    CreateProcessEvent handle
  | ExceptionEvent int u64 u32
  | ExitProcessEvent u32
  | ExitThreadEvent
  | CreateThreadEvent
  | UnloadDllEvent
  | LoadDllEvent handle
  | OutputDebugStringEvent
  | RipEvent
  | OtherDebugEvent u32

record debug_event =
  de_pid :: pid
  de_tid :: u32
  de_payload :: debug_payload

text \<open>The three out-variables of \<open>GetQueuedCompletionStatus\<close>: the number of bytes,
  the completion key, the overlapped pointer.\<close>

type_synonym packet = "u32 \<times> usize \<times> usize"

text \<open>What \<open>std::process::Command\<close> was told before \<open>spawn\<close>.\<close>

record std_command =
  sc_program :: os_string
  sc_args :: "os_string list"
  sc_env_clear :: bool
  sc_envs :: env_pairs
  sc_current_dir :: "os_string option"

section \<open>The API\<close>

record 'w win32 =
  w_GetLastError :: "'w \<Rightarrow> u32 \<times> 'w"
  w_CloseHandle :: "handle \<Rightarrow> 'w \<Rightarrow> bool \<times> 'w"
  w_CreateJobObject :: "'w \<Rightarrow> handle \<times> 'w"
  w_SetJobLimitFlags :: "handle \<Rightarrow> u32 \<Rightarrow> 'w \<Rightarrow> bool \<times> 'w"
  w_SetJobCompletionPort :: "handle \<Rightarrow> usize \<Rightarrow> handle \<Rightarrow> 'w \<Rightarrow> bool \<times> 'w"
  w_CreateIoCompletionPort :: "'w \<Rightarrow> handle \<times> 'w"
  w_GetQueuedCompletionStatus :: "handle \<Rightarrow> u32 \<Rightarrow> packet \<Rightarrow> 'w \<Rightarrow> (bool \<times> packet) \<times> 'w"
  w_PostQueuedCompletionStatus :: "handle \<Rightarrow> u32 \<Rightarrow> usize \<Rightarrow> usize \<Rightarrow> 'w \<Rightarrow> bool \<times> 'w"
  w_OpenProcess :: "u32 \<Rightarrow> pid \<Rightarrow> 'w \<Rightarrow> handle \<times> 'w"
  w_GetExitCodeProcess :: "handle \<Rightarrow> u32 \<Rightarrow> 'w \<Rightarrow> (bool \<times> u32) \<times> 'w"
  w_TerminateProcess :: "handle \<Rightarrow> u32 \<Rightarrow> 'w \<Rightarrow> bool \<times> 'w"
  w_WaitForSingleObject :: "handle \<Rightarrow> u32 \<Rightarrow> 'w \<Rightarrow> u32 \<times> 'w"
  w_InitAttributeList :: "bool \<Rightarrow> u32 \<Rightarrow> usize \<Rightarrow> 'w \<Rightarrow> (bool \<times> usize) \<times> 'w"
  w_UpdateAttribute :: "usize \<Rightarrow> handle \<Rightarrow> 'w \<Rightarrow> bool \<times> 'w"
  w_DeleteAttributeList :: "'w \<Rightarrow> unit \<times> 'w"
  w_CreateProcess :: "create_args \<Rightarrow> 'w \<Rightarrow> (bool \<times> process_information) \<times> 'w"
  w_SetProcessAffinityMask :: "handle \<Rightarrow> usize \<Rightarrow> 'w \<Rightarrow> bool \<times> 'w"
  w_WaitForDebugEvent :: "u32 \<Rightarrow> 'w \<Rightarrow> debug_event option \<times> 'w"
  w_ContinueDebugEvent :: "pid \<Rightarrow> u32 \<Rightarrow> int \<Rightarrow> 'w \<Rightarrow> bool \<times> 'w"
  w_CreatePipe :: "bool \<Rightarrow> 'w \<Rightarrow> (handle \<times> handle) option \<times> 'w"
  w_SetHandleInformation :: "handle \<Rightarrow> u32 \<Rightarrow> u32 \<Rightarrow> 'w \<Rightarrow> bool \<times> 'w"
  w_ReadFile :: "handle \<Rightarrow> nat \<Rightarrow> 'w \<Rightarrow> u8 list option \<times> 'w"
  w_WriteFile :: "handle \<Rightarrow> u8 list \<Rightarrow> 'w \<Rightarrow> (bool \<times> u32) \<times> 'w"
  w_spawn_thread :: "string \<Rightarrow> 'w \<Rightarrow> io_error option \<times> 'w"
  w_command_spawn :: "std_command \<Rightarrow> 'w \<Rightarrow> (io_error + handle \<times> pid) \<times> 'w"
  w_vars_os :: "'w \<Rightarrow> env_pairs \<times> 'w"

section \<open>The log\<close>

datatype call =
    GetLastError u32
  | CloseHandle handle bool
  | CreateJobObject handle
  | SetJobLimitFlags handle u32 bool
  | SetJobCompletionPort handle usize handle bool
  | CreateIoCompletionPort handle
  | GetQueuedCompletionStatus handle u32 packet "bool \<times> packet"
  | PostQueuedCompletionStatus handle u32 usize usize bool
  | OpenProcess u32 pid handle
  | GetExitCodeProcess handle u32 "bool \<times> u32"
  | TerminateProcess handle u32 bool
  | WaitForSingleObject handle u32 u32
  | InitAttributeList bool u32 usize "bool \<times> usize"
  | UpdateAttribute usize handle bool
  | DeleteAttributeList
  | CreateProcess create_args "bool \<times> process_information"
  | SetProcessAffinityMask handle usize bool
  | WaitForDebugEvent u32 "debug_event option"
  | ContinueDebugEvent pid u32 int bool
  | CreatePipe bool "(handle \<times> handle) option"
  | SetHandleInformation handle u32 u32 bool
  | ReadFile handle nat "u8 list option"
  | WriteFile handle "u8 list" "bool \<times> u32"
  | SpawnThread string "io_error option"
  | CommandSpawn std_command "io_error + handle \<times> pid"
  | VarsOs env_pairs

text \<open>The answer of the pump to a spawn request.\<close>

record spawn_response =
  sr_pid :: pid
  sr_process_handle :: handle
  sr_thread_handle :: handle

section \<open>The state\<close>

text \<open>
  The channels are kept by number: a sender or receiver the code passes around is the
  number of its channel. \<open>listeners\<close> are the sentinel threads started so far, each
  with the read handle and the sender it owns. \<open>stuck\<close> is set when a thread of the library would block on
  a full channel, which the proofs show never happens.
\<close>

record 'w sys =
  world :: 'w
  calls :: "call list"
  exits :: "nat \<Rightarrow> term_result chan"
  next_exit :: nat
  sentinels :: "nat \<Rightarrow> bool chan"
  next_sentinel :: nat
  listeners :: "(handle \<times> nat) list"
  responses :: "nat \<Rightarrow> (io_error + spawn_response) chan"
  next_response :: nat
  stuck :: bool

type_synonym ('w, 'z, 'a) io = "(('w, 'z) sys_scheme, 'a) state"
type_synonym ('w, 'z, 'a) fallible = "(('w, 'z) sys_scheme, io_error + 'a) state"

section \<open>Calling the API\<close>

definition api :: "('w \<Rightarrow> 'r \<times> 'w) \<Rightarrow> ('r \<Rightarrow> call) \<Rightarrow> ('w, 'z, 'r) io" where
  "api f record_call = State (\<lambda>s.
     case f (world s) of (r, w) \<Rightarrow> (r, s\<lparr>world := w, calls := calls s @ [record_call r]\<rparr>))"

lemma run_api:
  "run_state (api f g) s =
     (case f (world s) of (r, w) \<Rightarrow> (r, s\<lparr>world := w, calls := calls s @ [g r]\<rparr>))"
  by (simp add: api_def)

definition close_handle :: "'w win32 \<Rightarrow> handle \<Rightarrow> ('w, 'z, bool) io" where
  "close_handle os h = api (w_CloseHandle os h) (CloseHandle h)"

text \<open>\<open>Err(std::io::Error::last_os_error())\<close>\<close>

definition last_os_error :: "'w win32 \<Rightarrow> ('w, 'z, 'a) fallible" where
  "last_os_error os = do {
     e \<leftarrow> api (w_GetLastError os) GetLastError;
     State_Monad.return (Inl (Os_Error e))
   }"

abbreviation ok :: "'a \<Rightarrow> ('w, 'z, 'a) fallible" where
  "ok x \<equiv> State_Monad.return (Inr x)"

abbreviation err :: "io_error \<Rightarrow> ('w, 'z, 'a) fallible" where
  "err e \<equiv> State_Monad.return (Inl e)"

text \<open>\<open>os_steps P s t\<close>: \<open>t\<close> is \<open>s\<close> after some API calls, all satisfying
  \<open>P\<close>, and nothing else of the state changed.\<close>

definition os_steps :: "(call \<Rightarrow> bool) \<Rightarrow> ('w, 'z) sys_scheme \<Rightarrow> ('w, 'z) sys_scheme \<Rightarrow> bool" where
  "os_steps P s t \<longleftrightarrow> (\<exists>w cs. t = s\<lparr>world := w, calls := calls s @ cs\<rparr> \<and> (\<forall>c\<in>set cs. P c))"

lemma os_steps_refl [simp]: "os_steps P s s"
  unfolding os_steps_def by (rule exI [of _ "world s"], rule exI [of _ "[]"]) simp

lemma os_steps_trans [trans]: "os_steps P s t \<Longrightarrow> os_steps P t u \<Longrightarrow> os_steps P s u"
proof -
  assume "os_steps P s t" "os_steps P t u"
  then obtain w cs w' ds where "t = s\<lparr>world := w, calls := calls s @ cs\<rparr>" "\<forall>c\<in>set cs. P c"
    "u = t\<lparr>world := w', calls := calls t @ ds\<rparr>" "\<forall>c\<in>set ds. P c"
    unfolding os_steps_def by blast
  then have "u = s\<lparr>world := w', calls := calls s @ (cs @ ds)\<rparr>" "\<forall>c\<in>set (cs @ ds). P c"
    by auto
  then show ?thesis unfolding os_steps_def by blast
qed

lemma os_steps_one [simp]:
  "P c \<Longrightarrow> os_steps P s (s\<lparr>world := w, calls := calls s @ [c]\<rparr>)"
  unfolding os_steps_def by (rule exI [of _ w], rule exI [of _ "[c]"]) simp

lemma os_steps_mono: "os_steps P s t \<Longrightarrow> (\<And>c. P c \<Longrightarrow> Q c) \<Longrightarrow> os_steps Q s t"
  unfolding os_steps_def by blast

section \<open>Using the channel store\<close>

definition new_exit :: "('w, 'z, nat) io" where
  "new_exit = State (\<lambda>s. (next_exit s,
     s\<lparr>exits := (exits s)(next_exit s := sync_channel 1), next_exit := next_exit s + 1\<rparr>))"

text \<open>\<open>let _ = tx.send(r)\<close>\<close>

definition send_exit :: "nat \<Rightarrow> term_result \<Rightarrow> ('w, 'z, unit) io" where
  "send_exit i r = State (\<lambda>s.
     case ch_send r (exits s i) of
       Sent c \<Rightarrow> ((), s\<lparr>exits := (exits s)(i := c)\<rparr>)
     | Send_Err \<Rightarrow> ((), s)
     | Send_Blocks \<Rightarrow> ((), s\<lparr>stuck := True\<rparr>))"

definition drop_exit_sender :: "nat \<Rightarrow> ('w, 'z, unit) io" where
  "drop_exit_sender i = State (\<lambda>s. ((), s\<lparr>exits := (exits s)(i := drop_sender (exits s i))\<rparr>))"

definition drop_exit_receiver :: "nat \<Rightarrow> ('w, 'z, unit) io" where
  "drop_exit_receiver i = State (\<lambda>s. ((), s\<lparr>exits := (exits s)(i := drop_receiver (exits s i))\<rparr>))"

text \<open>A sender that goes out of scope after its message: the end of \<open>if let Some(child)
  = children.remove(&pid)\<close>.\<close>

definition deliver :: "nat \<Rightarrow> term_result \<Rightarrow> ('w, 'z, unit) io" where
  "deliver i r = do { send_exit i r; drop_exit_sender i }"

definition new_sentinel :: "('w, 'z, nat) io" where
  "new_sentinel = State (\<lambda>s. (next_sentinel s,
     s\<lparr>sentinels := (sentinels s)(next_sentinel s := sync_channel 1),
       next_sentinel := next_sentinel s + 1\<rparr>))"

definition deliver_sentinel :: "nat \<Rightarrow> bool \<Rightarrow> ('w, 'z, unit) io" where
  "deliver_sentinel i b = State (\<lambda>s.
     case ch_send b (sentinels s i) of
       Sent c \<Rightarrow> ((), s\<lparr>sentinels := (sentinels s)(i := drop_sender c)\<rparr>)
     | Send_Err \<Rightarrow> ((), s\<lparr>sentinels := (sentinels s)(i := drop_sender (sentinels s i))\<rparr>)
     | Send_Blocks \<Rightarrow> ((), s\<lparr>stuck := True\<rparr>))"

definition drop_sentinel_sender :: "nat \<Rightarrow> ('w, 'z, unit) io" where
  "drop_sentinel_sender i = State (\<lambda>s.
     ((), s\<lparr>sentinels := (sentinels s)(i := drop_sender (sentinels s i))\<rparr>))"

definition drop_sentinel_receiver :: "nat \<Rightarrow> ('w, 'z, unit) io" where
  "drop_sentinel_receiver i = State (\<lambda>s.
     ((), s\<lparr>sentinels := (sentinels s)(i := drop_receiver (sentinels s i))\<rparr>))"

definition new_response :: "('w, 'z, nat) io" where
  "new_response = State (\<lambda>s. (next_response s,
     s\<lparr>responses := (responses s)(next_response s := sync_channel 1),
       next_response := next_response s + 1\<rparr>))"

definition send_response :: "nat \<Rightarrow> io_error + spawn_response \<Rightarrow> ('w, 'z, unit) io" where
  "send_response i r = State (\<lambda>s.
     case ch_send r (responses s i) of
       Sent c \<Rightarrow> ((), s\<lparr>responses := (responses s)(i := drop_sender c)\<rparr>)
     | Send_Err \<Rightarrow> ((), s\<lparr>responses := (responses s)(i := drop_sender (responses s i))\<rparr>)
     | Send_Blocks \<Rightarrow> ((), s\<lparr>stuck := True\<rparr>))"

definition drop_response_sender :: "nat \<Rightarrow> ('w, 'z, unit) io" where
  "drop_response_sender i = State (\<lambda>s.
     ((), s\<lparr>responses := (responses s)(i := drop_sender (responses s i))\<rparr>))"

text \<open>What \<open>recv()\<close> gives: a message, an error when every sender is gone, or, when the
  queue is empty and a sender is left, nothing yet: the thread waits.\<close>

datatype 'a arrival = Got 'a | Hung_Up | Waits

definition recv_exit :: "nat \<Rightarrow> ('w, 'z, term_result arrival) io" where
  "recv_exit i = State (\<lambda>s.
     case ch_recv (exits s i) of
       Received r c \<Rightarrow> (Got r, s\<lparr>exits := (exits s)(i := c)\<rparr>)
     | Recv_Err \<Rightarrow> (Hung_Up, s)
     | Recv_Blocks \<Rightarrow> (Waits, s))"

definition recv_sentinel :: "nat \<Rightarrow> ('w, 'z, bool arrival) io" where
  "recv_sentinel i = State (\<lambda>s.
     case ch_recv (sentinels s i) of
       Received r c \<Rightarrow> (Got r, s\<lparr>sentinels := (sentinels s)(i := c)\<rparr>)
     | Recv_Err \<Rightarrow> (Hung_Up, s)
     | Recv_Blocks \<Rightarrow> (Waits, s))"

definition recv_response :: "nat \<Rightarrow> ('w, 'z, (io_error + spawn_response) arrival) io" where
  "recv_response i = State (\<lambda>s.
     case ch_recv (responses s i) of
       Received r c \<Rightarrow> (Got r, s\<lparr>responses := (responses s)(i := c)\<rparr>)
     | Recv_Err \<Rightarrow> (Hung_Up, s)
     | Recv_Blocks \<Rightarrow> (Waits, s))"

section \<open>The handle ledger\<close>

text \<open>The handles a call gives to the process, and the one it gives back.\<close>

fun opened :: "call \<Rightarrow> handle list" where
  "opened (CreateJobObject h) = [h]"
| "opened (CreateIoCompletionPort h) = [h]"
| "opened (OpenProcess a p h) = [h]"
| "opened (CreateProcess a (b, pi)) = (if b then [hProcess pi, hThread pi] else [])"
| "opened (CreatePipe i (Some (r, w))) = [r, w]"
| "opened (CommandSpawn c (Inr (h, p))) = [h]"
| "opened (WaitForDebugEvent t (Some e)) =
     (case de_payload e of CreateProcessEvent h \<Rightarrow> [h] | LoadDllEvent h \<Rightarrow> [h] | _ \<Rightarrow> [])"
| "opened _ = []"

fun closed :: "call \<Rightarrow> handle list" where
  "closed (CloseHandle h b) = [h]"
| "closed _ = []"

text \<open>How often a handle occurs in a list of real handles.\<close>

definition owned :: "handle list \<Rightarrow> handle \<Rightarrow> int" where
  "owned hs h = (if valid_handle h then int (count_list hs h) else 0)"

definition ledger :: "call list \<Rightarrow> handle \<Rightarrow> int" where
  "ledger cs h = (\<Sum>c\<leftarrow>cs. owned (opened c) h - owned (closed c) h)"

abbreviation held :: "('w, 'z) sys_scheme \<Rightarrow> handle \<Rightarrow> int" where
  "held s \<equiv> ledger (calls s)"

lemma owned_simps [simp]:
  "owned [] h = 0"
  "owned (g # hs) h = (if g = h \<and> valid_handle h then 1 else 0) + owned hs h"
  by (simp_all add: owned_def)

lemma owned_append [simp]: "owned (xs @ ys) h = owned xs h + owned ys h"
  by (simp add: owned_def)

lemma ledger_append [simp]: "ledger (cs @ ds) h = ledger cs h + ledger ds h"
  by (simp add: ledger_def)

lemma ledger_Nil [simp]: "ledger [] h = 0"
  by (simp add: ledger_def)

lemma ledger_Cons [simp]:
  "ledger (c # cs) h = owned (opened c) h - owned (closed c) h + ledger cs h"
  by (simp add: ledger_def)

text \<open>Calls that give the process no handle and close none.\<close>

definition neutral :: "call \<Rightarrow> bool" where
  "neutral c \<longleftrightarrow> opened c = [] \<and> closed c = []"

lemma ledger_neutral: "\<forall>c\<in>set cs. neutral c \<Longrightarrow> ledger cs h = 0"
  by (induction cs) (auto simp: neutral_def)

lemma os_steps_held: "os_steps neutral s t \<Longrightarrow> held t h = held s h"
  by (auto simp: os_steps_def ledger_neutral)

lemma os_steps_frame:
  assumes "os_steps P s t"
  shows "exits t = exits s" "next_exit t = next_exit s" "sentinels t = sentinels s"
    "next_sentinel t = next_sentinel s" "listeners t = listeners s" "responses t = responses s"
    "next_response t = next_response s" "stuck t = stuck s"
  using assms by (auto simp: os_steps_def)

section \<open>An instance of the API\<close>

text \<open>
  For the witnesses: the API on which every call fails, and the initial state. A witness
  updates the fields its theorem is about.
\<close>

definition failing_os :: "'w win32" where
  "failing_os = \<lparr>
     w_GetLastError = (\<lambda>w. (6, w)),
     w_CloseHandle = (\<lambda>h w. (False, w)),
     w_CreateJobObject = (\<lambda>w. (0, w)),
     w_SetJobLimitFlags = (\<lambda>h f w. (False, w)),
     w_SetJobCompletionPort = (\<lambda>h k p w. (False, w)),
     w_CreateIoCompletionPort = (\<lambda>w. (0, w)),
     w_GetQueuedCompletionStatus = (\<lambda>h t p w. ((False, p), w)),
     w_PostQueuedCompletionStatus = (\<lambda>h b k o' w. (False, w)),
     w_OpenProcess = (\<lambda>a p w. (0, w)),
     w_GetExitCodeProcess = (\<lambda>h c w. ((False, c), w)),
     w_TerminateProcess = (\<lambda>h c w. (False, w)),
     w_WaitForSingleObject = (\<lambda>h t w. (0xFFFFFFFF, w)),
     w_InitAttributeList = (\<lambda>b n z w. ((False, z), w)),
     w_UpdateAttribute = (\<lambda>a v w. (False, w)),
     w_DeleteAttributeList = (\<lambda>w. ((), w)),
     w_CreateProcess = (\<lambda>a w. ((False, \<lparr>hProcess = 0, hThread = 0, dwProcessId = 0\<rparr>), w)),
     w_SetProcessAffinityMask = (\<lambda>h m w. (False, w)),
     w_WaitForDebugEvent = (\<lambda>t w. (None, w)),
     w_ContinueDebugEvent = (\<lambda>p t c w. (False, w)),
     w_CreatePipe = (\<lambda>b w. (None, w)),
     w_SetHandleInformation = (\<lambda>h m f w. (False, w)),
     w_ReadFile = (\<lambda>h n w. (None, w)),
     w_WriteFile = (\<lambda>h bs w. ((False, 0), w)),
     w_spawn_thread = (\<lambda>n w. (Some (Os_Error 8), w)),
     w_command_spawn = (\<lambda>c w. (Inl (Os_Error 2), w)),
     w_vars_os = (\<lambda>w. ([], w))\<rparr>"

definition init_sys :: "'w \<Rightarrow> 'w sys" where
  "init_sys w = \<lparr>world = w, calls = [], exits = (\<lambda>_. sync_channel 1), next_exit = 0,
     sentinels = (\<lambda>_. sync_channel 1), next_sentinel = 0, listeners = [],
     responses = (\<lambda>_. sync_channel 1), next_response = 0, stuck = False\<rparr>"

end
