(* ===== verification/Child.thy ===== *)
theory Child
  imports Runtime
begin

text \<open>
  \<open>WorrywartChild\<close> of \<open>src/crates/worrywart/src/core.rs\<close>: waiting, the fallback to a
  plain wait on the handle, the refinement by the sentinel, the cached result, \<open>kill\<close>
  and \<open>Drop\<close>. A call that waits in \<open>recv()\<close> because its channel is empty and still
  has a sender gives \<open>None\<close>: it does not return while the channels stay as they are.
\<close>

definition PROCESS_SYNCHRONIZE :: u32 where
  "PROCESS_SYNCHRONIZE = 0x00100000"

definition QUERY_LIMITED_INFORMATION :: u32 where
  "QUERY_LIMITED_INFORMATION = 0x1000"

definition INFINITE :: u32 where
  "INFINITE = 0xFFFFFFFF"

definition WAIT_OBJECT_0 :: u32 where
  "WAIT_OBJECT_0 = 0"

unbundle bit_operations_syntax

section \<open>The child handle\<close>

record worrywart_child =
  wk_pid :: pid
  wk_process_handle :: handle
  wk_thread_handle :: handle
  wk_exit_rx :: "nat option"
  wk_cached_reason :: "cached_reason option"
  wk_sentinel_rx :: "nat option"

definition from_std :: "handle \<times> pid \<Rightarrow> worrywart_child" where
  "from_std = (\<lambda>(raw_handle, pid). \<lparr>wk_pid = pid, wk_process_handle = raw_handle,
     wk_thread_handle = INVALID_HANDLE_VALUE, wk_exit_rx = None, wk_cached_reason = None,
     wk_sentinel_rx = None\<rparr>)"

definition child_id :: "worrywart_child \<Rightarrow> pid option" where
  "child_id c = (if wk_pid c = 0 then None else Some (wk_pid c))"

definition wait_plain :: "'w win32 \<Rightarrow> worrywart_child \<Rightarrow> ('w, 'z, termination_reason) fallible" where
  "wait_plain os c = do {
     r \<leftarrow> (if wk_process_handle c \<noteq> INVALID_HANDLE_VALUE \<and> wk_process_handle c \<noteq> null_handle
          then ok (wk_process_handle c, False)
          else do {
            h \<leftarrow> api (w_OpenProcess os (PROCESS_SYNCHRONIZE OR QUERY_LIMITED_INFORMATION) (wk_pid c))
              (OpenProcess (PROCESS_SYNCHRONIZE OR QUERY_LIMITED_INFORMATION) (wk_pid c));
            if h = null_handle then last_os_error os else ok (h, True)
          });
     case r of
       Inl e \<Rightarrow> err e
     | Inr (handle, is_owned) \<Rightarrow> do {
         wait \<leftarrow> api (w_WaitForSingleObject os handle INFINITE) (WaitForSingleObject handle INFINITE);
         if wait \<noteq> WAIT_OBJECT_0 then do {
           (if is_owned then do { close_handle os handle; State_Monad.return () } else State_Monad.return ());
           last_os_error os
         }
         else do {
           (success, code) \<leftarrow> api (w_GetExitCodeProcess os handle 0) (GetExitCodeProcess handle 0);
           (if is_owned then do { close_handle os handle; State_Monad.return () } else State_Monad.return ());
           if \<not> success then last_os_error os else ok (Unknown (make_exit_status code))
         }
       }
   }"

text \<open>\<open>sentinel_rx.take()\<close> empties the field; the receiver goes away with the call.\<close>

definition refine_with_sentinel ::
  "termination_reason \<Rightarrow> nat option \<Rightarrow> ('w, 'z, termination_reason option) io" where
  "refine_with_sentinel reason sentinel_rx =
     (case sentinel_rx of
        None \<Rightarrow> State_Monad.return (Some reason)
      | Some rx \<Rightarrow> do {
          m \<leftarrow> recv_sentinel rx;
          case m of
            Waits \<Rightarrow> State_Monad.return None
          | _ \<Rightarrow> do {
              drop_sentinel_receiver rx;
              let sentinel_ok = (case m of Got b \<Rightarrow> b | _ \<Rightarrow> False);
              State_Monad.return (Some (case reason of
                  Unknown status \<Rightarrow> if sentinel_ok then CleanExit status else ExternalKill status
                | other \<Rightarrow> other))
            }
        })"

definition wait_diagnosed ::
  "'w win32 \<Rightarrow> worrywart_child \<Rightarrow> ('w, 'z, ((io_error + termination_reason) \<times> worrywart_child) option) io" where
  "wait_diagnosed os c =
     (case wk_cached_reason c of
        Some cached \<Rightarrow>
          let reason = into_reason cached in
          State_Monad.return (Some (Inr reason, c\<lparr>wk_cached_reason := Some (from_reason reason)\<rparr>))
      | None \<Rightarrow> do {
          raw \<leftarrow> (case wk_exit_rx c of
              Some rx \<Rightarrow> do {
                m \<leftarrow> recv_exit rx;
                case m of
                  Got result \<Rightarrow> State_Monad.return (Some result)
                | Hung_Up \<Rightarrow> do { r \<leftarrow> wait_plain os c; State_Monad.return (Some r) }
                | Waits \<Rightarrow> State_Monad.return None
              }
            | None \<Rightarrow> do { r \<leftarrow> wait_plain os c; State_Monad.return (Some r) });
          case raw of
            None \<Rightarrow> State_Monad.return None
          | Some (Inl e) \<Rightarrow> State_Monad.return (Some (Inl e, c))
          | Some (Inr r) \<Rightarrow> do {
              refined \<leftarrow> refine_with_sentinel r (wk_sentinel_rx c);
              State_Monad.return (case refined of
                  None \<Rightarrow> None
                | Some reason \<Rightarrow> Some (Inr reason,
                    c\<lparr>wk_sentinel_rx := None, wk_cached_reason := Some (from_reason reason)\<rparr>))
            }
        })"

definition child_wait ::
  "'w win32 \<Rightarrow> worrywart_child \<Rightarrow> ('w, 'z, ((io_error + exit_status) \<times> worrywart_child) option) io" where
  "child_wait os c = do {
     r \<leftarrow> wait_diagnosed os c;
     State_Monad.return (case r of
         None \<Rightarrow> None
       | Some (Inl e, c') \<Rightarrow> Some (Inl e, c')
       | Some (Inr reason, c') \<Rightarrow> Some (Inr (reason_to_exit_status reason), c'))
   }"

definition child_kill :: "'w win32 \<Rightarrow> worrywart_child \<Rightarrow> ('w, 'z, unit) fallible" where
  "child_kill os c =
     (if wk_process_handle c = INVALID_HANDLE_VALUE
      then err (Other_Error ''no process handle available for kill'')
      else do {
        success \<leftarrow> api (w_TerminateProcess os (wk_process_handle c) 1) (TerminateProcess (wk_process_handle c) 1);
        if \<not> success then last_os_error os else ok ()
      })"

definition child_drop :: "'w win32 \<Rightarrow> worrywart_child \<Rightarrow> ('w, 'z, worrywart_child) io" where
  "child_drop os c = do {
     c' \<leftarrow> (if wk_process_handle c \<noteq> INVALID_HANDLE_VALUE \<and> wk_process_handle c \<noteq> null_handle
       then do {
         close_handle os (wk_process_handle c);
         State_Monad.return (c\<lparr>wk_process_handle := INVALID_HANDLE_VALUE\<rparr>)
       }
       else State_Monad.return c);
     (if wk_thread_handle c' \<noteq> INVALID_HANDLE_VALUE \<and> wk_thread_handle c' \<noteq> null_handle
       then do {
         close_handle os (wk_thread_handle c');
         State_Monad.return (c'\<lparr>wk_thread_handle := INVALID_HANDLE_VALUE\<rparr>)
       }
       else State_Monad.return c')
   }"

section \<open>Reference\<close>

text \<open>What the documentation says the sentinel does to a classification.\<close>

fun refined :: "termination_reason \<Rightarrow> bool option \<Rightarrow> termination_reason" where
  "refined (Unknown st) (Some True) = CleanExit st"
| "refined (Unknown st) (Some False) = ExternalKill st"
| "refined r b = r"

text \<open>An exit nobody classified, by what the sentinel says.\<close>

fun unclassified :: "bool option \<Rightarrow> exit_status \<Rightarrow> termination_reason" where
  "unclassified None st = Unknown st"
| "unclassified (Some True) st = CleanExit st"
| "unclassified (Some False) st = ExternalKill st"

lemma refined_unclassified: "refined (Unknown st) b = unclassified b st"
  by (cases "(b, st)" rule: unclassified.cases) auto

lemma refined_status: "reason_exit_status (refined r b) = reason_exit_status r"
  by (cases "(r, b)" rule: refined.cases) auto

text \<open>What the sentinel channel of a child will say, if it does not make it wait.\<close>

definition sentinel_answer :: "('w, 'z) sys_scheme \<Rightarrow> worrywart_child \<Rightarrow> bool option \<Rightarrow> bool" where
  "sentinel_answer s c b \<longleftrightarrow>
     (case wk_sentinel_rx c of
        None \<Rightarrow> b = None
      | Some i \<Rightarrow> (\<exists>x. b = Some x \<and> oneshot_done x (sentinels s i)) \<or>
          (b = Some False \<and> oneshot_dead (sentinels s i)))"

lemma refine_run:
  assumes "sentinel_answer s c b"
  shows "\<exists>se. run_state (refine_with_sentinel r (wk_sentinel_rx c)) s = (Some (refined r b), s\<lparr>sentinels := se\<rparr>)"
proof (cases "wk_sentinel_rx c")
  case None
  then have "b = None" using assms by (simp add: sentinel_answer_def)
  then show ?thesis using None
    by (intro exI [of _ "sentinels s"]) (cases r; simp add: refine_with_sentinel_def)
next
  case (Some i)
  have "\<exists>m se. run_state (recv_sentinel i) s = (m, s\<lparr>sentinels := se\<rparr>) \<and> (m = Got True \<and> b = Some True \<or>
      m = Got False \<and> b = Some False \<or> m = Hung_Up \<and> b = Some False)"
  proof (cases "oneshot_dead (sentinels s i)")
    case True
    then have "\<not> oneshot_done x (sentinels s i)" for x by (simp add: oneshot_dead_def oneshot_done_def)
    then have "b = Some False" using assms Some by (simp add: sentinel_answer_def)
    then show ?thesis using True
      by (intro exI [of _ Hung_Up] exI [of _ "sentinels s"]) (simp add: recv_sentinel_def oneshot_recv_dead)
  next
    case False
    then obtain x where "b = Some x" "oneshot_done x (sentinels s i)"
      using assms Some by (auto simp: sentinel_answer_def)
    then show ?thesis
      by (cases x) (auto simp: recv_sentinel_def oneshot_recv_done)
  qed
  then obtain m se where m: "run_state (recv_sentinel i) s = (m, s\<lparr>sentinels := se\<rparr>)"
    "m = Got True \<and> b = Some True \<or> m = Got False \<and> b = Some False \<or> m = Hung_Up \<and> b = Some False" by blast
  then show ?thesis using Some
    by (intro exI [of _ "se(i := drop_receiver (se i))"])
      (cases r; auto simp: refine_with_sentinel_def drop_sentinel_receiver_def Let_def)
qed

section \<open>Waiting\<close>

lemma wait_diagnosed_exit_run:
  assumes "wk_cached_reason c = None" "wk_exit_rx c = Some i" "oneshot_done (Inr r) (exits s i)"
    and "sentinel_answer s c b"
  shows "\<exists>ex se. run_state (wait_diagnosed os c) s =
     (Some (Inr (refined r b), c\<lparr>wk_sentinel_rx := None, wk_cached_reason := Some (from_reason (refined r b))\<rparr>),
      s\<lparr>exits := ex, sentinels := se\<rparr>)"
proof -
  let ?s = "s\<lparr>exits := (exits s)(i := (exits s i)\<lparr>ch_buf := []\<rparr>)\<rparr>"
  have "sentinel_answer ?s c b" using assms(4) by (simp add: sentinel_answer_def split: option.splits)
  from refine_run [OF this, of r] obtain se where
    "run_state (refine_with_sentinel r (wk_sentinel_rx c)) ?s = (Some (refined r b), ?s\<lparr>sentinels := se\<rparr>)"
    by blast
  then show ?thesis using assms(1-3)
    by (intro exI [of _ "exits ?s"] exI [of _ se])
      (simp add: wait_diagnosed_def recv_exit_def oneshot_recv_done)
qed

text \<open>Classification: when the monitoring thread has put a classification in the exit channel and the
  sentinel listener has reported or gone, wait_diagnosed returns that classification refined by
  the sentinel: an unclassified exit becomes a clean exit when the message came and an
  external kill when it did not, and everything else is kept. No API call is made.\<close>

theorem wait_diagnosed_classifies:
  assumes "wk_cached_reason c = None" "wk_exit_rx c = Some i" "oneshot_done (Inr r) (exits s i)"
    and "sentinel_answer s c b"
  shows "\<exists>c' t. run_state (wait_diagnosed os c) s = (Some (Inr (refined r b), c'), t) \<and> calls t = calls s \<and>
    wk_cached_reason c' = Some (from_reason (refined r b)) \<and>
    wk_process_handle c' = wk_process_handle c \<and> wk_thread_handle c' = wk_thread_handle c"
proof -
  obtain ex se where "run_state (wait_diagnosed os c) s =
     (Some (Inr (refined r b), c\<lparr>wk_sentinel_rx := None, wk_cached_reason := Some (from_reason (refined r b))\<rparr>),
      s\<lparr>exits := ex, sentinels := se\<rparr>)"
    using wait_diagnosed_exit_run [OF assms] by blast
  then show ?thesis by (intro exI conjI) (assumption, simp_all)
qed

text \<open>For the witnesses: a state in which result and sentinel have arrived, and a child.\<close>

definition arrived :: "'a \<Rightarrow> 'a chan" where
  "arrived x = \<lparr>ch_buf = [x], ch_cap = Some 1, ch_senders = 0, ch_receiver = True\<rparr>"

lemma oneshot_arrived: "oneshot_done x (arrived x)"
  by (simp add: oneshot_done_def arrived_def)

definition waited_sys :: "termination_reason \<Rightarrow> bool \<Rightarrow> unit sys" where
  "waited_sys r b = (init_sys ())\<lparr>exits := (\<lambda>_. arrived (Inr r)), sentinels := (\<lambda>_. arrived b)\<rparr>"

definition a_child :: worrywart_child where
  "a_child = \<lparr>wk_pid = 100, wk_process_handle = 0x10, wk_thread_handle = 0x14, wk_exit_rx = Some 0,
     wk_cached_reason = None, wk_sentinel_rx = Some 0\<rparr>"

lemma waited_answer: "sentinel_answer (waited_sys r b) a_child (Some b)"
  by (simp add: sentinel_answer_def a_child_def waited_sys_def oneshot_arrived)

theorem wait_diagnosed_classifies_witness:
  "\<exists>c' t. run_state (wait_diagnosed failing_os a_child) (waited_sys (Unknown (make_exit_status 0)) False) =
     (Some (Inr (ExternalKill (make_exit_status 0)), c'), t)"
proof -
  have "wk_cached_reason a_child = None" "wk_exit_rx a_child = Some 0"
    "oneshot_done (Inr (Unknown (make_exit_status 0))) (exits (waited_sys (Unknown (make_exit_status 0)) False) 0)"
    by (simp_all add: a_child_def waited_sys_def oneshot_arrived)
  from wait_diagnosed_classifies [OF this waited_answer] show ?thesis by (simp, blast)
qed

text \<open>The sentinel cannot change the status: wait reports the exit status of the classification in the
  exit channel, whatever the sentinel says.\<close>

theorem child_wait_status:
  assumes "wk_cached_reason c = None" "wk_exit_rx c = Some i" "oneshot_done (Inr r) (exits s i)"
    and "sentinel_answer s c b"
  shows "\<exists>c' t. run_state (child_wait os c) s = (Some (Inr (reason_exit_status r), c'), t)"
  using wait_diagnosed_exit_run [OF assms, of os]
  by (auto simp: child_wait_def reason_to_exit_status_eq refined_status)

theorem child_wait_status_witness:
  "\<exists>c' t. run_state (child_wait failing_os a_child) (waited_sys (Crash 0xC0000005 0x401000) False) =
     (Some (Inr (make_exit_status 0xC0000005), c'), t)"
proof -
  have "wk_cached_reason a_child = None" "wk_exit_rx a_child = Some 0"
    "oneshot_done (Inr (Crash 0xC0000005 0x401000)) (exits (waited_sys (Crash 0xC0000005 0x401000) False) 0)"
    by (simp_all add: a_child_def waited_sys_def oneshot_arrived)
  from child_wait_status [OF this waited_answer] show ?thesis by simp
qed

lemma wait_diagnosed_caches:
  assumes "run_state (wait_diagnosed os c) s = (Some (Inr r, c'), t)"
  shows "wk_cached_reason c' = Some (from_reason r)"
  using assms
  by (auto simp: wait_diagnosed_def Let_def split: option.splits prod.splits sum.splits arrival.splits)

text \<open>Waiting again: once wait_diagnosed has returned a reason, every later call returns the same reason, at
  once, in any state of the channels, without an API call and without changing anything.\<close>

theorem wait_diagnosed_again:
  assumes "run_state (wait_diagnosed os c) s = (Some (Inr r, c'), t)"
  shows "run_state (wait_diagnosed os c') s' = (Some (Inr r, c'), s')"
  using wait_diagnosed_caches [OF assms] by (simp add: wait_diagnosed_def Let_def)

theorem wait_diagnosed_again_witness:
  "run_state (wait_diagnosed failing_os (a_child\<lparr>wk_cached_reason := Some (C_FastFail 5)\<rparr>)) (init_sys ()) =
     (Some (Inr (FastFail 5), a_child\<lparr>wk_cached_reason := Some (C_FastFail 5)\<rparr>), init_sys ())"
proof -
  have "run_state (wait_diagnosed failing_os (a_child\<lparr>wk_cached_reason := Some (C_FastFail 5)\<rparr>)) (waited_sys (FastFail 5) True) =
     (Some (Inr (FastFail 5), a_child\<lparr>wk_cached_reason := Some (C_FastFail 5)\<rparr>), waited_sys (FastFail 5) True)"
    by (simp add: wait_diagnosed_def)
  from wait_diagnosed_again [OF this] show ?thesis .
qed

section \<open>Waiting on the handle\<close>

lemma last_os_error_steps:
  "\<exists>e w. run_state (last_os_error os) s =
     (Inl (Os_Error e), s\<lparr>world := w, calls := calls s @ [GetLastError e]\<rparr>)"
proof -
  obtain e w where "w_GetLastError os (world s) = (e, w)" by (cases "w_GetLastError os (world s)")
  then show ?thesis by (intro exI [of _ e] exI [of _ w]) (simp add: last_os_error_def run_api)
qed

text \<open>What a plain wait may do: it keeps no handle, opens none when the child has its own, and
  reports only the code it read from that process after the wait was signalled.\<close>

definition plain_wait ::
  "worrywart_child \<Rightarrow> ('w, 'z) sys_scheme \<Rightarrow> io_error + termination_reason \<Rightarrow> ('w, 'z) sys_scheme \<Rightarrow> bool" where
  "plain_wait c s r t \<longleftrightarrow> (\<exists>w cs. t = s\<lparr>world := w, calls := calls s @ cs\<rparr> \<and> (\<forall>h. ledger cs h = 0) \<and>
     (valid_handle (wk_process_handle c) \<longrightarrow> (\<forall>x\<in>set cs. opened x = [])) \<and>
     (\<forall>reason. r = Inr reason \<longrightarrow> (\<exists>h code. reason = Unknown (make_exit_status code) \<and>
        {WaitForSingleObject h INFINITE WAIT_OBJECT_0, GetExitCodeProcess h 0 (True, code)} \<subseteq> set cs \<and>
        (valid_handle (wk_process_handle c) \<longrightarrow> h = wk_process_handle c))))"

lemma plain_waitI:
  assumes "\<forall>h. ledger cs h = 0" "valid_handle (wk_process_handle c) \<longrightarrow> (\<forall>x\<in>set cs. opened x = [])"
    and "\<forall>reason. r = Inr reason \<longrightarrow> (\<exists>h code. reason = Unknown (make_exit_status code) \<and>
        {WaitForSingleObject h INFINITE WAIT_OBJECT_0, GetExitCodeProcess h 0 (True, code)} \<subseteq> set cs \<and>
        (valid_handle (wk_process_handle c) \<longrightarrow> h = wk_process_handle c))"
  shows "plain_wait c s r (s\<lparr>world := w, calls := calls s @ cs\<rparr>)"
  unfolding plain_wait_def using assms by blast

lemma valid_handle_code: "(h \<noteq> INVALID_HANDLE_VALUE \<and> h \<noteq> null_handle) = valid_handle h"
  by (simp add: valid_handle_def)

lemma wait_plain_run:
  assumes "run_state (wait_plain os c) s = (r, t)"
  shows "plain_wait c s r t"
proof (cases "valid_handle (wk_process_handle c)")
  case True
  let ?h = "wk_process_handle c"
  obtain x w1 where 1: "w_WaitForSingleObject os ?h INFINITE (world s) = (x, w1)" by (metis surj_pair)
  obtain b code w2 where 2: "w_GetExitCodeProcess os ?h 0 w1 = ((b, code), w2)" by (metis surj_pair)
  obtain e1 v1 where e1: "w_GetLastError os w1 = (e1, v1)" by (metis surj_pair)
  obtain e2 v2 where e2: "w_GetLastError os w2 = (e2, v2)" by (metis surj_pair)
  have "(r, t) = (if x \<noteq> WAIT_OBJECT_0
      then (Inl (Os_Error e1), s\<lparr>world := v1, calls := calls s @ [WaitForSingleObject ?h INFINITE x, GetLastError e1]\<rparr>)
      else if \<not> b then (Inl (Os_Error e2), s\<lparr>world := v2, calls := calls s @
        [WaitForSingleObject ?h INFINITE x, GetExitCodeProcess ?h 0 (b, code), GetLastError e2]\<rparr>)
      else (Inr (Unknown (make_exit_status code)), s\<lparr>world := w2, calls := calls s @
        [WaitForSingleObject ?h INFINITE x, GetExitCodeProcess ?h 0 (b, code)]\<rparr>))"
    using assms 1 2 e1 e2 True unfolding wait_plain_def valid_handle_code
    by (cases "x = WAIT_OBJECT_0"; cases b; simp add: run_api last_os_error_def)
  then show ?thesis using True
    by (cases "x = WAIT_OBJECT_0"; cases b) (auto intro!: plain_waitI)
next
  case False
  let ?a = "PROCESS_SYNCHRONIZE OR QUERY_LIMITED_INFORMATION"
  obtain h w0 where 0: "w_OpenProcess os ?a (wk_pid c) (world s) = (h, w0)" by (metis surj_pair)
  obtain x w1 where 1: "w_WaitForSingleObject os h INFINITE w0 = (x, w1)" by (metis surj_pair)
  obtain b code w2 where 2: "w_GetExitCodeProcess os h 0 w1 = ((b, code), w2)" by (metis surj_pair)
  obtain k1 u1 where k1: "w_CloseHandle os h w1 = (k1, u1)" by (metis surj_pair)
  obtain k2 u2 where k2: "w_CloseHandle os h w2 = (k2, u2)" by (metis surj_pair)
  obtain e0 v0 where e0: "w_GetLastError os w0 = (e0, v0)" by (metis surj_pair)
  obtain e1 v1 where e1: "w_GetLastError os u1 = (e1, v1)" by (metis surj_pair)
  obtain e2 v2 where e2: "w_GetLastError os u2 = (e2, v2)" by (metis surj_pair)
  let ?o = "OpenProcess ?a (wk_pid c) h"
  have "(r, t) = (if h = null_handle
      then (Inl (Os_Error e0), s\<lparr>world := v0, calls := calls s @ [?o, GetLastError e0]\<rparr>)
      else if x \<noteq> WAIT_OBJECT_0
      then (Inl (Os_Error e1), s\<lparr>world := v1, calls := calls s @
        [?o, WaitForSingleObject h INFINITE x, CloseHandle h k1, GetLastError e1]\<rparr>)
      else if \<not> b then (Inl (Os_Error e2), s\<lparr>world := v2, calls := calls s @
        [?o, WaitForSingleObject h INFINITE x, GetExitCodeProcess h 0 (b, code), CloseHandle h k2, GetLastError e2]\<rparr>)
      else (Inr (Unknown (make_exit_status code)), s\<lparr>world := u2, calls := calls s @
        [?o, WaitForSingleObject h INFINITE x, GetExitCodeProcess h 0 (b, code), CloseHandle h k2]\<rparr>))"
    using assms 0 1 2 k1 k2 e0 e1 e2 False unfolding wait_plain_def valid_handle_code
    by (cases "h = null_handle"; cases "x = WAIT_OBJECT_0"; cases b;
      simp add: run_api last_os_error_def close_handle_def)
  then show ?thesis using False
    by (cases "h = null_handle"; cases "x = WAIT_OBJECT_0"; cases b) (auto intro!: plain_waitI)
qed

lemma plain_wait_sentinels: "plain_wait c s r t \<Longrightarrow> sentinels t = sentinels s"
  by (auto simp: plain_wait_def)

text \<open>A call that finds no classification: the plain wait, and then the sentinel, which is asked only
  when the wait gave a status.\<close>

lemma wait_falls_back:
  assumes "wk_cached_reason c = None" "\<forall>i. wk_exit_rx c = Some i \<longrightarrow> oneshot_dead (exits s i)"
    and "sentinel_answer s c b"
  shows "\<exists>r c' u se. run_state (wait_diagnosed os c) s =
      (Some (map_sum id (\<lambda>reason. refined reason b) r, c'), u\<lparr>sentinels := se\<rparr>) \<and> plain_wait c s r u"
proof -
  obtain r u where w: "run_state (wait_plain os c) s = (r, u)" by (cases "run_state (wait_plain os c) s")
  have p: "plain_wait c s r u" by (rule wait_plain_run [OF w])
  have "sentinel_answer u c b"
    using assms(3) plain_wait_sentinels [OF p] by (simp add: sentinel_answer_def split: option.splits)
  then obtain se where se: "\<And>reason. r = Inr reason \<Longrightarrow>
      run_state (refine_with_sentinel reason (wk_sentinel_rx c)) u = (Some (refined reason b), u\<lparr>sentinels := se\<rparr>)"
    using refine_run [of u c b] by (cases r) auto
  show ?thesis
  proof (cases r)
    case (Inl e)
    then have "run_state (wait_diagnosed os c) s = (Some (Inl e, c), u\<lparr>sentinels := sentinels u\<rparr>)"
      using assms(1,2) w
      by (cases "wk_exit_rx c") (auto simp: wait_diagnosed_def recv_exit_def oneshot_recv_dead)
    then show ?thesis using p Inl by (intro exI [of _ r] exI [of _ c] exI [of _ u] exI [of _ "sentinels u"]) simp
  next
    case (Inr reason)
    let ?c = "c\<lparr>wk_sentinel_rx := None, wk_cached_reason := Some (from_reason (refined reason b))\<rparr>"
    have "run_state (wait_diagnosed os c) s = (Some (Inr (refined reason b), ?c), u\<lparr>sentinels := se\<rparr>)"
      using assms(1,2) w Inr se [OF Inr]
      by (cases "wk_exit_rx c") (auto simp: wait_diagnosed_def recv_exit_def oneshot_recv_dead)
    then show ?thesis using p Inr by (intro exI [of _ r] exI [of _ ?c] exI [of _ u] exI [of _ se]) simp
  qed
qed

lemma wait_falls_back_unclassified:
  assumes "wk_cached_reason c = None" "\<forall>i. wk_exit_rx c = Some i \<longrightarrow> oneshot_dead (exits s i)"
    and "sentinel_answer s c b"
  shows "\<exists>r c' u se. plain_wait c s r u \<and> run_state (wait_diagnosed os c) s =
     (Some (map_sum id (\<lambda>reason. unclassified b (reason_exit_status reason)) r, c'), u\<lparr>sentinels := se\<rparr>)"
proof -
  obtain r c' u se where w: "run_state (wait_diagnosed os c) s =
      (Some (map_sum id (\<lambda>reason. refined reason b) r, c'), u\<lparr>sentinels := se\<rparr>)" "plain_wait c s r u"
    using wait_falls_back [OF assms, of os] by blast
  have "\<forall>reason. r = Inr reason \<longrightarrow> (\<exists>st. reason = Unknown st)"
    using w(2) unfolding plain_wait_def by blast
  then have "map_sum id (\<lambda>reason. refined reason b) r =
      map_sum id (\<lambda>reason. unclassified b (reason_exit_status reason)) r"
    by (cases r) (auto simp: refined_unclassified)
  then show ?thesis using w by auto
qed



section \<open>The end of a child handle\<close>

lemma child_drop_run:
  "\<exists>w cs. run_state (child_drop os c) s =
     (c\<lparr>wk_process_handle := (if wk_process_handle c = 0 then 0 else INVALID_HANDLE_VALUE),
        wk_thread_handle := (if wk_thread_handle c = 0 then 0 else INVALID_HANDLE_VALUE)\<rparr>,
      s\<lparr>world := w, calls := calls s @ cs\<rparr>) \<and>
     map closed cs = map (\<lambda>h. [h]) (filter valid_handle [wk_process_handle c, wk_thread_handle c]) \<and>
     (\<forall>x\<in>set cs. opened x = [])"
proof -
  let ?p = "wk_process_handle c" and ?t = "wk_thread_handle c"
  obtain b1 w1 where 1: "w_CloseHandle os ?p (world s) = (b1, w1)" by (metis surj_pair)
  define v where "v = (if valid_handle ?p then w1 else world s)"
  obtain b2 w2 where 2: "w_CloseHandle os ?t v = (b2, w2)" by (metis surj_pair)
  define w where "w = (if valid_handle ?t then w2 else v)"
  let ?cs = "(if valid_handle ?p then [CloseHandle ?p b1] else []) @ (if valid_handle ?t then [CloseHandle ?t b2] else [])"
  have "run_state (child_drop os c) s =
     (c\<lparr>wk_process_handle := (if ?p = 0 then 0 else INVALID_HANDLE_VALUE),
        wk_thread_handle := (if ?t = 0 then 0 else INVALID_HANDLE_VALUE)\<rparr>,
      s\<lparr>world := w, calls := calls s @ ?cs\<rparr>)"
    using 1 2 by (auto simp: child_drop_def close_handle_def run_api v_def w_def valid_handle_def)
  then show ?thesis by (intro exI [of _ w] exI [of _ ?cs]) auto
qed

lemma child_drop_held:
  assumes "run_state (child_drop os c) s = (c', t)"
  shows "(\<forall>h. held t h = held s h - owned [wk_process_handle c, wk_thread_handle c] h) \<and>
    run_state (child_drop os c') t = (c', t)"
proof -
  obtain w cs where r: "c' = c\<lparr>wk_process_handle := (if wk_process_handle c = 0 then 0 else INVALID_HANDLE_VALUE),
        wk_thread_handle := (if wk_thread_handle c = 0 then 0 else INVALID_HANDLE_VALUE)\<rparr>"
      "t = s\<lparr>world := w, calls := calls s @ cs\<rparr>"
    and cs: "map closed cs = map (\<lambda>h. [h]) (filter valid_handle [wk_process_handle c, wk_thread_handle c])"
      "\<forall>x\<in>set cs. opened x = []"
    using child_drop_run [of os c s] assms by auto
  have "ledger cs h = - owned [wk_process_handle c, wk_thread_handle c] h" for h
  proof -
  have "ledger cs h = - owned (concat (map closed cs)) h"
    using cs(2) by (induction cs) (auto simp: owned_def)
  also have "concat (map closed cs) = filter valid_handle [wk_process_handle c, wk_thread_handle c]"
    by (simp add: cs(1) concat_map_singleton)
  also have "owned (filter valid_handle [wk_process_handle c, wk_thread_handle c]) h =
      owned [wk_process_handle c, wk_thread_handle c] h"
    by (auto simp: owned_def)
  finally show ?thesis .
  qed
  then show ?thesis using r by (simp add: child_drop_def)
qed

text \<open>Drop: dropping a child closes its process and thread handle once each, skips the invalid ones, and
  leaves nothing to close: dropping again makes no call.\<close>

theorem child_drop_closes_once:
  assumes "run_state (child_drop os c) s = (c', t)"
  shows "held t h = held s h - owned [wk_process_handle c, wk_thread_handle c] h \<and>
    run_state (child_drop os c') t = (c', t)"
  using child_drop_held [OF assms] by blast

theorem child_drop_closes_once_witness:
  "held (snd (run_state (child_drop (failing_os :: unit win32) a_child) (init_sys ()))) 0x10 = - 1"
proof -
  obtain c' t where r: "run_state (child_drop (failing_os :: unit win32) a_child) (init_sys ()) = (c', t)"
    by (cases "run_state (child_drop (failing_os :: unit win32) a_child) (init_sys ())")
  from child_drop_closes_once [OF r, of "0x10"] r show ?thesis
    by (simp add: a_child_def init_sys_def valid_handle_def INVALID_HANDLE_VALUE_def)
qed

end
