(* ===== verification/Router.thy ===== *)
theory Router
  imports Runtime "HOL-Library.AList"
begin

text \<open>
  The contract the two monitoring threads share. The debug pump and the IOCP listener
  both keep a table from process identifiers to the exit channel of the child, both put
  a child in (\<open>register\<close>) and both answer events (\<open>notify\<close>) by sending a result to
  at most one channel of the table and taking the child out. What follows for any such
  thread is proved here once: no exit channel ever gets two results.
\<close>

section \<open>Delivering to a one-shot channel\<close>

definition settled :: "'a \<Rightarrow> 'a chan \<Rightarrow> 'a chan" where
  "settled r c = drop_sender (c\<lparr>ch_buf := (if ch_receiver c then [r] else [])\<rparr>)"

lemma deliver_open:
  assumes "oneshot_open (exits s i)"
  shows "run_state (deliver i r) s = ((), s\<lparr>exits := (exits s)(i := settled r (exits s i))\<rparr>)"
proof (cases "ch_receiver (exits s i)")
  case True
  then show ?thesis using oneshot_send [OF assms, of r]
    by (simp add: deliver_def send_exit_def drop_exit_sender_def settled_def)
next
  case False
  moreover have "(exits s i)\<lparr>ch_buf := []\<rparr> = exits s i"
    using assms by (simp add: oneshot_open_def)
  ultimately show ?thesis
    by (simp add: deliver_def send_exit_def drop_exit_sender_def settled_def ch_send_def)
qed

lemma settled_done: "oneshot_open c \<Longrightarrow> ch_receiver c \<Longrightarrow> oneshot_done r (settled r c)"
  by (simp add: oneshot_open_def oneshot_done_def settled_def drop_sender_def)

lemma settled_senders [simp]: "ch_senders (settled r c) = ch_senders c - 1"
  by (simp add: settled_def drop_sender_def)

section \<open>Routers\<close>

datatype 'e route_op = Register_Op pid nat | Notify_Op 'e

fun run_ops ::
  "(pid \<Rightarrow> nat \<Rightarrow> 's \<Rightarrow> 's \<times> (nat \<times> 'r) list) \<Rightarrow> ('e \<Rightarrow> 's \<Rightarrow> 's \<times> (nat \<times> 'r) list) \<Rightarrow>
   'e route_op list \<Rightarrow> 's \<Rightarrow> 's \<times> (nat \<times> 'r) list" where
  "run_ops register notify [] s = (s, [])"
| "run_ops register notify (op # ops) s =
     (case (case op of Register_Op p c \<Rightarrow> register p c s | Notify_Op e \<Rightarrow> notify e s) of
        (s', ds) \<Rightarrow> case run_ops register notify ops s' of (t, es) \<Rightarrow> (t, ds @ es))"

fun registered :: "'e route_op list \<Rightarrow> (pid \<times> nat) list" where
  "registered [] = []"
| "registered (Register_Op p c # ops) = (p, c) # registered ops"
| "registered (Notify_Op e # ops) = registered ops"

abbreviation registered_channels :: "'e route_op list \<Rightarrow> nat list" where
  "registered_channels ops \<equiv> map snd (registered ops)"

text \<open>No two children share a channel.\<close>

definition one_route :: "(pid \<Rightarrow> nat option) \<Rightarrow> bool" where
  "one_route m \<longleftrightarrow> (\<forall>p q c. m p = Some c \<longrightarrow> m q = Some c \<longrightarrow> p = q)"

lemma one_route_empty [simp]: "one_route (\<lambda>_. None)"
  by (simp add: one_route_def)

lemma one_route_remove: "one_route m \<Longrightarrow> one_route (m(p := None))"
  by (simp add: one_route_def)

lemma one_route_insert: "one_route m \<Longrightarrow> c \<notin> ran m \<Longrightarrow> one_route (m(p \<mapsto> c))"
  by (auto simp: one_route_def ran_def)

lemma ran_remove: "one_route m \<Longrightarrow> m p = Some c \<Longrightarrow> ran (m(p := None)) = ran m - {c}"
  by (auto simp: one_route_def ran_def split: if_splits) (metis option.inject)

lemma ran_insert_subset: "ran (m(p \<mapsto> c)) \<subseteq> insert c (ran m)"
  by (auto simp: ran_def)

locale router =
  fixes register :: "pid \<Rightarrow> nat \<Rightarrow> 's \<Rightarrow> 's \<times> (nat \<times> 'r) list"
    and notify :: "'e \<Rightarrow> 's \<Rightarrow> 's \<times> (nat \<times> 'r) list"
    and routes :: "'s \<Rightarrow> pid \<Rightarrow> nat option"
  assumes register_cases: "register p c s = (s', ds) \<Longrightarrow>
      (ds = [] \<and> routes s' = (routes s)(p \<mapsto> c)) \<or> (\<exists>r. ds = [(c, r)] \<and> routes s' = routes s)"
    and notify_cases: "notify e s = (s', ds) \<Longrightarrow>
      (ds = [] \<and> routes s' = routes s) \<or>
      (\<exists>p c r. routes s p = Some c \<and> ds = [(c, r)] \<and> routes s' = (routes s)(p := None))"
begin

text \<open>One operation: at most one result, to a channel that then leaves the table.\<close>

lemma op_cases:
  assumes "(case op of Register_Op p c \<Rightarrow> register p c s | Notify_Op e \<Rightarrow> notify e s) = (s', ds)"
  obtains (route) p c where "op = Register_Op p c" "ds = []" "routes s' = (routes s)(p \<mapsto> c)"
    | (answer) p c r where "op = Register_Op p c" "ds = [(c, r)]" "routes s' = routes s"
    | (ignore) e where "op = Notify_Op e" "ds = []" "routes s' = routes s"
    | (settle) e p c r where "op = Notify_Op e" "routes s p = Some c" "ds = [(c, r)]"
        "routes s' = (routes s)(p := None)"
  using assms register_cases notify_cases by (cases op) (simp_all, blast+)

text \<open>
  Over a run in which every registration brings a channel not seen before: no channel
  gets two results, only channels of the run get one, and a channel that has its result
  is in the table no more.
\<close>

lemma run_ops_once:
  assumes "one_route (routes s)" "distinct (registered_channels ops)"
    and "set (registered_channels ops) \<inter> ran (routes s) = {}"
    and "run_ops register notify ops s = (t, ds)"
  shows "distinct (map fst ds)"
    and "fst ` set ds \<subseteq> ran (routes s) \<union> set (registered_channels ops)"
    and "one_route (routes t)"
    and "ran (routes t) \<subseteq> (ran (routes s) \<union> set (registered_channels ops)) - fst ` set ds"
proof -
  have "distinct (map fst ds) \<and> fst ` set ds \<subseteq> ran (routes s) \<union> set (registered_channels ops) \<and>
     one_route (routes t) \<and>
     ran (routes t) \<subseteq> (ran (routes s) \<union> set (registered_channels ops)) - fst ` set ds"
    using assms
  proof (induction ops arbitrary: s ds)
    case Nil
    then show ?case by auto
  next
    case (Cons op ops)
    obtain s' ds1 ds2 where
      op: "(case op of Register_Op p c \<Rightarrow> register p c s | Notify_Op e \<Rightarrow> notify e s) = (s', ds1)"
      and n: "run_ops register notify ops s' = (t, ds2)" and ds: "ds = ds1 @ ds2"
      using Cons.prems(4) by (auto split: prod.splits)
    note IH = Cons.IH [OF _ _ _ n]
    from op show ?case
    proof (cases rule: op_cases)
      case (route p c)
      with Cons.prems have fresh: "c \<notin> ran (routes s)" "c \<notin> set (registered_channels ops)" by auto
      have sub: "ran (routes s') \<subseteq> insert c (ran (routes s))"
        using route(3) ran_insert_subset by metis
      have "one_route (routes s')"
        using route(3) one_route_insert Cons.prems(1) fresh(1) by metis
      moreover have "set (registered_channels ops) \<inter> ran (routes s') = {}"
        using sub fresh(2) Cons.prems(3) route(1) by auto
      ultimately show ?thesis
        using IH Cons.prems(2) route(1,2) ds sub by auto
    next
      case (answer p c r)
      with Cons.prems have fresh: "c \<notin> ran (routes s)" "c \<notin> set (registered_channels ops)" by auto
      have "distinct (map fst ds2) \<and> fst ` set ds2 \<subseteq> ran (routes s') \<union> set (registered_channels ops) \<and>
         one_route (routes t) \<and>
         ran (routes t) \<subseteq> (ran (routes s') \<union> set (registered_channels ops)) - fst ` set ds2"
        using IH Cons.prems answer by simp
      then show ?thesis using answer ds fresh by auto
    next
      case (ignore e)
      then show ?thesis using IH Cons.prems ds by simp
    next
      case (settle e p c r)
      have c: "c \<in> ran (routes s)" using settle(2) by (auto simp: ran_def)
      have r: "ran (routes s') = ran (routes s) - {c}" "one_route (routes s')"
        using settle(2,4) ran_remove one_route_remove Cons.prems(1) by metis+
      then have "distinct (map fst ds2) \<and> fst ` set ds2 \<subseteq> ran (routes s') \<union> set (registered_channels ops) \<and>
         one_route (routes t) \<and>
         ran (routes t) \<subseteq> (ran (routes s') \<union> set (registered_channels ops)) - fst ` set ds2"
        using IH Cons.prems(2,3) settle(1) by auto
      moreover have "c \<notin> ran (routes s') \<union> set (registered_channels ops)"
        using c r(1) Cons.prems(3) settle(1) by auto
      moreover from calculation have "c \<notin> fst ` set ds2" by blast
      ultimately show ?thesis using settle(1,3) ds c r Cons.prems(3) by auto
    qed
  qed
  then show "distinct (map fst ds)"
    and "fst ` set ds \<subseteq> ran (routes s) \<union> set (registered_channels ops)"
    and "one_route (routes t)"
    and "ran (routes t) \<subseteq> (ran (routes s) \<union> set (registered_channels ops)) - fst ` set ds"
    by blast+
qed

text \<open>Nothing is lost: as long as no identifier is registered while it is in the table,
  every channel has had its result or is still in the table.\<close>

lemma run_ops_complete:
  assumes "distinct (map fst (registered ops))" "fst ` set (registered ops) \<inter> dom (routes s) = {}"
    and "run_ops register notify ops s = (t, ds)"
  shows "ran (routes s) \<union> set (registered_channels ops) \<subseteq> fst ` set ds \<union> ran (routes t)"
  using assms
proof (induction ops arbitrary: s ds)
  case Nil
  then show ?case by auto
next
  case (Cons op ops)
  obtain s' ds1 ds2 where
    op: "(case op of Register_Op p c \<Rightarrow> register p c s | Notify_Op e \<Rightarrow> notify e s) = (s', ds1)"
    and n: "run_ops register notify ops s' = (t, ds2)" and ds: "ds = ds1 @ ds2"
    using Cons.prems(3) by (auto split: prod.splits)
  note IH = Cons.IH [OF _ _ n]
  from op show ?case
  proof (cases rule: op_cases)
    case (route p c)
    then have "p \<notin> dom (routes s)" using Cons.prems(2) by auto
    then have "ran (routes s') = insert c (ran (routes s))"
      using route(3) by (simp add: domIff)
    moreover have "fst ` set (registered ops) \<inter> dom (routes s') = {}"
      using Cons.prems(1,2) route(1,3) by auto
    ultimately show ?thesis using IH Cons.prems(1) route(1,2) ds by auto
  next
    case (answer p c r)
    then show ?thesis using IH Cons.prems ds by auto
  next
    case (ignore e)
    then show ?thesis using IH Cons.prems ds by auto
  next
    case (settle e p c r)
    have "ran (routes s) \<subseteq> insert c (ran (routes s'))"
      using settle(2,4) by (auto simp: ran_def) (metis option.inject)
    moreover have "fst ` set (registered ops) \<inter> dom (routes s') = {}"
      using Cons.prems(2) settle(1,4) by auto
    ultimately show ?thesis using IH Cons.prems(1) settle(1,3) ds by auto
  qed
qed

end

end
