(* ===== verification/Pump.thy ===== *)
theory Pump
  imports Router
begin

text \<open>
  The state the debug pump keeps for each child and its reaction to one debug event:
  \<open>ChildEntry\<close>, \<open>PendingException\<close>, \<open>dispatch_event\<close> and
  \<open>classify_exit\<close> of \<open>src/crates/worrywart/src/pump.rs\<close>. The table of children
  (a \<open>HashMap<u32, ChildEntry>\<close>) is an association list. The abstract side is a
  reading of the whole history of one child, against which the event-by-event code is
  proved.
\<close>

section \<open>Constants\<close>

definition DBG_CONTINUE :: int where
  "DBG_CONTINUE = u32_as_i32 0x00010002"

definition DBG_EXCEPTION_NOT_HANDLED :: int where
  "DBG_EXCEPTION_NOT_HANDLED = u32_as_i32 0x80010001"

definition STACK_BUFFER_OVERRUN :: int where
  "STACK_BUFFER_OVERRUN = u32_as_i32 0xC0000409"

definition FATAL_APP_EXIT :: int where
  "FATAL_APP_EXIT = 0x40000015"

definition BREAKPOINT :: int where
  "BREAKPOINT = u32_as_i32 0x80000003"

lemma continue_statuses [simp]: "DBG_CONTINUE \<noteq> DBG_EXCEPTION_NOT_HANDLED"
  "DBG_EXCEPTION_NOT_HANDLED \<noteq> DBG_CONTINUE"
  by (simp_all add: DBG_CONTINUE_def DBG_EXCEPTION_NOT_HANDLED_def)

section \<open>The table of children\<close>

record pending_exception =
  pe_code :: int
  pe_address :: u64
  pe_is_fast_fail :: bool

record child_entry =
  ce_process_handle :: handle
  ce_pending :: "pending_exception option"
  ce_past_loader_bp :: bool
  ce_affinity_mask :: usize
  ce_exit_tx :: nat

type_synonym children = "(pid \<times> child_entry) list"

section \<open>\<open>classify_exit\<close> and \<open>dispatch_event\<close>\<close>

definition classify_exit :: "pending_exception option \<Rightarrow> u32 \<Rightarrow> termination_reason" where
  "classify_exit pending dwExitCode =
     (case pending of
        Some exc \<Rightarrow>
          if pe_is_fast_fail exc then FastFail (i32_as_u32 (pe_code exc))
          else Crash (i32_as_u32 (pe_code exc)) (pe_address exc)
      | None \<Rightarrow> Unknown (make_exit_status dwExitCode))"

text \<open>The files of the events must be closed.\<close>

definition close_event_file :: "'w win32 \<Rightarrow> handle \<Rightarrow> ('w, 'z, unit) io" where
  "close_event_file os h =
     (if valid_handle h then do { close_handle os h; State_Monad.return () }
      else State_Monad.return ())"

definition dispatch_event ::
  "'w win32 \<Rightarrow> children \<Rightarrow> debug_event \<Rightarrow> ('w, 'z, int \<times> children) io" where
  "dispatch_event os children event =
     (let pid = de_pid event in
      case de_payload event of
        CreateProcessEvent h \<Rightarrow> do {
          close_event_file os h;
          State_Monad.return (DBG_CONTINUE, children)
        }
      | ExceptionEvent code address dwFirstChance \<Rightarrow>
          (let first_chance = dwFirstChance \<noteq> 0 in
           case map_of children pid of
             Some child \<Rightarrow>
               if \<not> ce_past_loader_bp child \<and> code = BREAKPOINT then do {
                 (if ce_affinity_mask child \<noteq> 0 then do {
                    api (w_SetProcessAffinityMask os (ce_process_handle child) (ce_affinity_mask child))
                      (SetProcessAffinityMask (ce_process_handle child) (ce_affinity_mask child));
                    State_Monad.return () }
                  else State_Monad.return ());
                 State_Monad.return
                   (DBG_CONTINUE, AList.update pid (child\<lparr>ce_past_loader_bp := True\<rparr>) children)
               }
               else if \<not> first_chance then
                 let is_fast_fail = (code = STACK_BUFFER_OVERRUN \<or> code = FATAL_APP_EXIT) in
                 State_Monad.return (DBG_EXCEPTION_NOT_HANDLED,
                   AList.update pid (child\<lparr>ce_pending := Some
                     \<lparr>pe_code = code, pe_address = address, pe_is_fast_fail = is_fast_fail\<rparr>\<rparr>) children)
               else State_Monad.return (DBG_EXCEPTION_NOT_HANDLED, children)
           | None \<Rightarrow> State_Monad.return (DBG_EXCEPTION_NOT_HANDLED, children))
      | ExitProcessEvent dwExitCode \<Rightarrow>
          (case map_of children pid of
             Some child \<Rightarrow> do {
               deliver (ce_exit_tx child) (Inr (classify_exit (ce_pending child) dwExitCode));
               State_Monad.return (DBG_CONTINUE, AList.delete pid children)
             }
           | None \<Rightarrow> State_Monad.return (DBG_CONTINUE, children))
      | ExitThreadEvent \<Rightarrow> State_Monad.return (DBG_CONTINUE, children)
      | CreateThreadEvent \<Rightarrow> State_Monad.return (DBG_CONTINUE, children)
      | UnloadDllEvent \<Rightarrow> State_Monad.return (DBG_CONTINUE, children)
      | LoadDllEvent h \<Rightarrow> do {
          close_event_file os h;
          State_Monad.return (DBG_CONTINUE, children)
        }
      | OutputDebugStringEvent \<Rightarrow> State_Monad.return (DBG_CONTINUE, children)
      | RipEvent \<Rightarrow>
          (case map_of children pid of
             Some child \<Rightarrow> do {
               deliver (ce_exit_tx child) (Inr (ExternalKill (make_exit_status 1)));
               State_Monad.return (DBG_CONTINUE, AList.delete pid children)
             }
           | None \<Rightarrow> State_Monad.return (DBG_CONTINUE, children))
      | OtherDebugEvent c \<Rightarrow> State_Monad.return (DBG_CONTINUE, children))"

text \<open>A sequence of events, as the pump receives them. (\<open>pump_loop_events\<close> in \<open>PumpLoop\<close> shows that the
  loop does this with the events it receives.)\<close>

fun dispatch_all :: "'w win32 \<Rightarrow> children \<Rightarrow> debug_event list \<Rightarrow> ('w, 'z, children) io" where
  "dispatch_all os children [] = State_Monad.return children"
| "dispatch_all os children (e # es) = do {
     (st, children') \<leftarrow> dispatch_event os children e;
     dispatch_all os children' es
   }"

section \<open>The pure part of a step\<close>

text \<open>What an event does to the entry of its child, and the result it sends.\<close>

fun entry_step :: "child_entry \<Rightarrow> debug_payload \<Rightarrow> child_entry" where
  "entry_step ce (ExceptionEvent code address fc) =
     (if \<not> ce_past_loader_bp ce \<and> code = BREAKPOINT then ce\<lparr>ce_past_loader_bp := True\<rparr>
      else if fc = 0 then ce\<lparr>ce_pending := Some \<lparr>pe_code = code, pe_address = address,
        pe_is_fast_fail = (code = STACK_BUFFER_OVERRUN \<or> code = FATAL_APP_EXIT)\<rparr>\<rparr>
      else ce)"
| "entry_step ce _ = ce"

fun terminal :: "debug_payload \<Rightarrow> bool" where
  "terminal (ExitProcessEvent c) = True"
| "terminal RipEvent = True"
| "terminal _ = False"

fun exit_reason :: "child_entry \<Rightarrow> debug_payload \<Rightarrow> termination_reason" where
  "exit_reason ce (ExitProcessEvent c) = classify_exit (ce_pending ce) c"
| "exit_reason ce _ = ExternalKill (make_exit_status 1)"

definition dispatch_children :: "children \<Rightarrow> debug_event \<Rightarrow> children \<times> (nat \<times> term_result) list" where
  "dispatch_children children e =
     (case map_of children (de_pid e) of
        None \<Rightarrow> (children, [])
      | Some ce \<Rightarrow>
          if terminal (de_payload e)
          then (AList.delete (de_pid e) children, [(ce_exit_tx ce, Inr (exit_reason ce (de_payload e)))])
          else (AList.update (de_pid e) (entry_step ce (de_payload e)) children, []))"

definition continue_status :: "children \<Rightarrow> debug_event \<Rightarrow> int" where
  "continue_status children e =
     (case de_payload e of
        ExceptionEvent code address fc \<Rightarrow>
          (case map_of children (de_pid e) of
             None \<Rightarrow> DBG_EXCEPTION_NOT_HANDLED
           | Some ce \<Rightarrow> if \<not> ce_past_loader_bp ce \<and> code = BREAKPOINT then DBG_CONTINUE
               else DBG_EXCEPTION_NOT_HANDLED)
      | _ \<Rightarrow> DBG_CONTINUE)"

definition pump_routes :: "children \<Rightarrow> pid \<Rightarrow> nat option" where
  "pump_routes children p = map_option ce_exit_tx (map_of children p)"

text \<open>Sending a list of results.\<close>

fun deliver_list :: "(nat \<times> term_result) list \<Rightarrow> ('w, 'z, unit) io" where
  "deliver_list [] = State_Monad.return ()"
| "deliver_list ((c, r) # ds) = do { deliver c r; deliver_list ds }"


section \<open>The step refines its pure part\<close>

lemma update_same: "map_of al k = Some v \<Longrightarrow> AList.update k v al = al"
  by (induction al) (auto split: if_splits)

lemma close_event_file_steps:
  assumes "run_state (close_event_file os h) s = (r, t)"
  shows "os_steps (\<lambda>c. \<exists>b. c = CloseHandle h b) s t"
    and "held t g = held s g - owned [h] g"
  using assms by (auto simp: close_event_file_def close_handle_def run_api split: prod.splits if_splits)

definition event_call :: "debug_event \<Rightarrow> call \<Rightarrow> bool" where
  "event_call e c \<longleftrightarrow>
     (case de_payload e of
        CreateProcessEvent h \<Rightarrow> (\<exists>b. c = CloseHandle h b)
      | LoadDllEvent h \<Rightarrow> (\<exists>b. c = CloseHandle h b)
      | ExceptionEvent code a fc \<Rightarrow> (\<exists>h m b. c = SetProcessAffinityMask h m b)
      | _ \<Rightarrow> False)"

text \<open>\<open>dispatch_event\<close> makes the API calls of its event, sends the results of the pure
  step and returns the pure table and status.\<close>

lemma dispatch_event_refines:
  "\<exists>u. os_steps (event_call e) s u \<and>
     run_state (dispatch_event os children e) s =
       ((continue_status children e, fst (dispatch_children children e)),
        snd (run_state (deliver_list (snd (dispatch_children children e))) u))"
proof (cases "de_payload e")
  case (CreateProcessEvent h)
  obtain r t where c: "run_state (close_event_file os h) s = (r, t)"
    by (cases "run_state (close_event_file os h) s")
  from CreateProcessEvent close_event_file_steps(1) [OF c] have "os_steps (event_call e) s t"
    by (auto simp: event_call_def elim: os_steps_mono)
  then show ?thesis using CreateProcessEvent c
    by (auto simp: dispatch_event_def dispatch_children_def continue_status_def update_same
        split: option.splits)
next
  case (LoadDllEvent h)
  obtain r t where c: "run_state (close_event_file os h) s = (r, t)"
    by (cases "run_state (close_event_file os h) s")
  from LoadDllEvent close_event_file_steps(1) [OF c] have "os_steps (event_call e) s t"
    by (auto simp: event_call_def elim: os_steps_mono)
  then show ?thesis using LoadDllEvent c
    by (auto simp: dispatch_event_def dispatch_children_def continue_status_def update_same
        split: option.splits)
next
  case (ExceptionEvent code a fc)
  show ?thesis
  proof (cases "map_of children (de_pid e)")
    case None
    then show ?thesis using ExceptionEvent
      by (intro exI [of _ s]) (simp add: dispatch_event_def dispatch_children_def continue_status_def)
  next
    case (Some ce)
    show ?thesis
    proof (cases "\<not> ce_past_loader_bp ce \<and> code = BREAKPOINT \<and> ce_affinity_mask ce \<noteq> 0")
      case True
      obtain b w where "w_SetProcessAffinityMask os (ce_process_handle ce) (ce_affinity_mask ce) (world s) = (b, w)"
        by fastforce
      moreover have "os_steps (event_call e) s (s\<lparr>world := w, calls := calls s @
          [SetProcessAffinityMask (ce_process_handle ce) (ce_affinity_mask ce) b]\<rparr>)"
        using ExceptionEvent by (simp add: event_call_def)
      ultimately show ?thesis using True Some ExceptionEvent
        by (intro exI conjI)
          (auto simp: dispatch_event_def dispatch_children_def continue_status_def run_api)
    next
      case False
      then show ?thesis using Some ExceptionEvent
        by (intro exI [of _ s])
          (auto simp: dispatch_event_def dispatch_children_def continue_status_def Let_def update_same)
    qed
  qed
qed (intro exI [of _ s], auto simp: dispatch_event_def dispatch_children_def continue_status_def
      update_same split: option.splits prod.splits)+

lemma map_of_dispatch_children:
  "map_of (fst (dispatch_children ch e)) p =
     (if de_pid e = p then
        (case map_of ch p of
           None \<Rightarrow> None
         | Some ce \<Rightarrow> if terminal (de_payload e) then None else Some (entry_step ce (de_payload e)))
      else map_of ch p)"
  by (auto simp: dispatch_children_def update_conv' delete_conv' split: option.splits)

lemma entry_step_tx [simp]: "ce_exit_tx (entry_step ce e) = ce_exit_tx ce"
  by (cases e) auto

lemma pump_routes_dispatch:
  "pump_routes (fst (dispatch_children ch e)) p =
     (if de_pid e = p \<and> terminal (de_payload e) then None else pump_routes ch p)"
  by (auto simp: pump_routes_def map_of_dispatch_children split: option.splits)

lemma dispatch_deliveries:
  "snd (dispatch_children ch e) =
     (case map_of ch (de_pid e) of
        None \<Rightarrow> []
      | Some ce \<Rightarrow> if terminal (de_payload e) then [(ce_exit_tx ce, Inr (exit_reason ce (de_payload e)))] else [])"
  by (auto simp: dispatch_children_def split: option.splits)

section \<open>The pump as a router\<close>

text \<open>The entry \<open>pump_loop\<close> makes for a child it has just created.\<close>

definition new_child_entry :: "handle \<Rightarrow> bool \<Rightarrow> usize \<Rightarrow> nat \<Rightarrow> child_entry" where
  "new_child_entry h past_loader affinity tx =
     \<lparr>ce_process_handle = h, ce_pending = None, ce_past_loader_bp = past_loader,
      ce_affinity_mask = affinity, ce_exit_tx = tx\<rparr>"

definition pump_register ::
  "(pid \<Rightarrow> handle) \<Rightarrow> (pid \<Rightarrow> usize) \<Rightarrow> pid \<Rightarrow> nat \<Rightarrow> children \<Rightarrow>
   children \<times> (nat \<times> term_result) list" where
  "pump_register hs ms p c ch = (AList.update p (new_child_entry (hs p) False (ms p) c) ch, [])"

definition pump_notify :: "debug_event \<Rightarrow> children \<Rightarrow> children \<times> (nat \<times> term_result) list" where
  "pump_notify e ch = dispatch_children ch e"

interpretation pump: router "pump_register hs ms" pump_notify pump_routes
  for hs ms
proof
  fix p c s s' and ds :: "(nat \<times> term_result) list"
  assume "pump_register hs ms p c s = (s', ds)"
  then show "(ds = [] \<and> pump_routes s' = (pump_routes s)(p \<mapsto> c)) \<or>
      (\<exists>r. ds = [(c, r)] \<and> pump_routes s' = pump_routes s)"
    by (auto simp: pump_register_def pump_routes_def update_conv' new_child_entry_def fun_eq_iff)
next
  fix e s s' and ds :: "(nat \<times> term_result) list"
  assume a: "pump_notify e s = (s', ds)"
  then have r: "pump_routes s' = (\<lambda>p. if de_pid e = p \<and> terminal (de_payload e) then None else pump_routes s p)"
    using pump_routes_dispatch [of s e] by (auto simp: pump_notify_def fun_eq_iff)
  show "(ds = [] \<and> pump_routes s' = pump_routes s) \<or>
      (\<exists>p c r. pump_routes s p = Some c \<and> ds = [(c, r)] \<and> pump_routes s' = (pump_routes s)(p := None))"
  proof (cases "map_of s (de_pid e)")
    case None
    then show ?thesis using a r dispatch_deliveries [of s e]
      by (auto simp: pump_notify_def pump_routes_def fun_eq_iff)
  next
    case (Some ce)
    then show ?thesis using a r dispatch_deliveries [of s e]
      by (cases "terminal (de_payload e)") (auto simp: pump_notify_def pump_routes_def fun_eq_iff)
  qed
qed

section \<open>Reference: the verdict on a child's history\<close>

text \<open>The first breakpoint of a process is the loader's and no exception of the program.\<close>

fun after_loader :: "debug_payload list \<Rightarrow> debug_payload list" where
  "after_loader [] = []"
| "after_loader (ExceptionEvent code a fc # es) =
     (if code = BREAKPOINT then es else ExceptionEvent code a fc # after_loader es)"
| "after_loader (e # es) = e # after_loader es"

fun second_chance :: "debug_payload \<Rightarrow> (int \<times> u64) option" where
  "second_chance (ExceptionEvent code a fc) = (if fc = 0 then Some (code, a) else None)"
| "second_chance _ = None"

definition unhandled :: "debug_payload list \<Rightarrow> (int \<times> u64) list" where
  "unhandled hist = List.map_filter second_chance (after_loader hist)"

text \<open>The documented correlation rules, over the whole history.\<close>

definition verdict :: "debug_payload list \<Rightarrow> debug_payload \<Rightarrow> termination_reason" where
  "verdict hist e =
     (case e of
        ExitProcessEvent status \<Rightarrow>
          (if unhandled hist = [] then Unknown (make_exit_status status)
           else case last (unhandled hist) of (code, address) \<Rightarrow>
             if code \<in> {u32_as_i32 0xC0000409, u32_as_i32 0x40000015}
             then FastFail (i32_as_u32 code) else Crash (i32_as_u32 code) address)
      | _ \<Rightarrow> ExternalKill (make_exit_status 1))"

definition as_pending :: "int \<times> u64 \<Rightarrow> pending_exception" where
  "as_pending = (\<lambda>(code, a). \<lparr>pe_code = code, pe_address = a,
     pe_is_fast_fail = (code = STACK_BUFFER_OVERRUN \<or> code = FATAL_APP_EXIT)\<rparr>)"

lemma map_filter_Cons: "List.map_filter f (x # xs) =
  (case f x of None \<Rightarrow> List.map_filter f xs | Some y \<Rightarrow> y # List.map_filter f xs)"
  by (simp add: List.map_filter_simps)

lemma foldl_entry_step_past:
  "ce_past_loader_bp ce \<Longrightarrow>
   ce_pending (foldl entry_step ce hist) =
     (if List.map_filter second_chance hist = [] then ce_pending ce
      else Some (as_pending (last (List.map_filter second_chance hist))))"
proof (induction hist arbitrary: ce)
  case (Cons e hist)
  have "ce_past_loader_bp (entry_step ce e)" using Cons.prems by (cases e) auto
  from Cons.IH [OF this] Cons.prems show ?case
    by (cases e) (auto simp: map_filter_Cons as_pending_def)
qed (simp add: List.map_filter_simps)

lemma foldl_entry_step_fresh:
  "\<not> ce_past_loader_bp ce \<Longrightarrow>
   ce_pending (foldl entry_step ce hist) =
     (if unhandled hist = [] then ce_pending ce else Some (as_pending (last (unhandled hist))))"
proof (induction hist arbitrary: ce)
  case Nil
  then show ?case by (simp add: unhandled_def List.map_filter_simps)
next
  case (Cons e hist)
  show ?case
  proof (cases "\<exists>code a fc. e = ExceptionEvent code a fc \<and> code = BREAKPOINT")
    case True
    then show ?thesis using Cons.prems foldl_entry_step_past [of "entry_step ce e" hist]
      by (auto simp: unhandled_def)
  next
    case False
    then have "\<not> ce_past_loader_bp (entry_step ce e)" using Cons.prems by (cases e) auto
    from Cons.IH [OF this] Cons.prems False show ?thesis
      by (cases e) (auto simp: unhandled_def map_filter_Cons as_pending_def)
  qed
qed

lemma fatal_app_exit: "u32_as_i32 0x40000015 = 0x40000015"
  by (simp add: u32_as_i32_def)

lemma exit_reason_verdict:
  assumes "ce_pending ce = None" "\<not> ce_past_loader_bp ce"
  shows "exit_reason (foldl entry_step ce hist) e = verdict hist e"
  using foldl_entry_step_fresh [OF assms(2), of hist] assms(1)
  by (cases e) (auto simp: verdict_def classify_exit_def as_pending_def STACK_BUFFER_OVERRUN_def
      FATAL_APP_EXIT_def fatal_app_exit split: prod.splits)

section \<open>Sequences of events\<close>

lemma exits_os_steps: "os_steps P s t \<Longrightarrow> exits t = exits s"
  by (auto simp: os_steps_def)

lemma deliver_frame: "i \<noteq> c \<Longrightarrow> exits (snd (run_state (deliver i r) s)) c = exits s c"
  by (auto simp: deliver_def send_exit_def drop_exit_sender_def split: send_outcome.splits)

lemma deliver_list_frame:
  "c \<notin> fst ` set ds \<Longrightarrow> exits (snd (run_state (deliver_list ds) s)) c = exits s c"
proof (induction ds arbitrary: s)
  case (Cons d ds)
  obtain i r where d: "d = (i, r)" by (cases d)
  obtain u s' where "run_state (deliver i r) s = (u, s')" by (cases "run_state (deliver i r) s")
  then show ?case using Cons deliver_frame [of i c r s] by (simp add: d)
qed simp

lemma dispatch_event_result:
  "fst (run_state (dispatch_event os ch e) s) = (continue_status ch e, fst (dispatch_children ch e))"
  using dispatch_event_refines [of e s os ch] by auto

lemma dispatch_event_exits_frame:
  assumes "c \<notin> fst ` set (snd (dispatch_children ch e))"
  shows "exits (snd (run_state (dispatch_event os ch e) s)) c = exits s c"
  using dispatch_event_refines [of e s os ch] assms
  by (auto simp: deliver_list_frame exits_os_steps)

lemma run_dispatch_all_Cons:
  "run_state (dispatch_all os ch (e # es)) s =
     run_state (dispatch_all os (fst (dispatch_children ch e)) es)
       (snd (run_state (dispatch_event os ch e) s))"
  using dispatch_event_result [of os ch e s]
  by (cases "run_state (dispatch_event os ch e) s") auto

lemma run_dispatch_all_append:
  "run_state (dispatch_all os ch (es @ fs)) s =
     (case run_state (dispatch_all os ch es) s of (ch', s') \<Rightarrow> run_state (dispatch_all os ch' fs) s')"
proof (induction es arbitrary: ch s)
  case (Cons e es)
  then show ?case by (simp only: append_Cons run_dispatch_all_Cons)
qed simp

lemma deliveries_to_routes: "fst ` set (snd (dispatch_children ch e)) \<subseteq> ran (pump_routes ch)"
proof (cases "map_of ch (de_pid e)")
  case (Some ce)
  then have "pump_routes ch (de_pid e) = Some (ce_exit_tx ce)" by (simp add: pump_routes_def)
  then show ?thesis using Some by (auto simp: dispatch_deliveries intro: ranI)
qed (simp add: dispatch_deliveries)

lemma ran_routes_dispatch: "ran (pump_routes (fst (dispatch_children ch e))) \<subseteq> ran (pump_routes ch)"
  by (auto simp: pump_routes_dispatch ran_def split: if_splits)

lemma one_route_dispatch:
  "one_route (pump_routes ch) \<Longrightarrow> one_route (pump_routes (fst (dispatch_children ch e)))"
  by (auto simp: one_route_def pump_routes_dispatch)

declare dispatch_all.simps(2) [simp del]

lemma dispatch_all_absent:
  "map_of ch p = None \<Longrightarrow> map_of (fst (run_state (dispatch_all os ch es) s)) p = None"
proof (induction es arbitrary: ch s)
  case (Cons e es)
  then show ?case by (simp add: run_dispatch_all_Cons map_of_dispatch_children)
qed simp

text \<open>A channel that is not in the table is left alone.\<close>

lemma dispatch_all_exits_frame:
  "c \<notin> ran (pump_routes ch) \<Longrightarrow> exits (snd (run_state (dispatch_all os ch es) s)) c = exits s c"
proof (induction es arbitrary: ch s)
  case (Cons e es)
  have 1: "c \<notin> ran (pump_routes (fst (dispatch_children ch e)))"
    using Cons.prems ran_routes_dispatch by blast
  have 2: "exits (snd (run_state (dispatch_event os ch e) s)) c = exits s c"
    using Cons.prems deliveries_to_routes by (intro dispatch_event_exits_frame) blast
  show ?case by (simp only: run_dispatch_all_Cons Cons.IH [OF 1] 2)
qed simp

abbreviation events_of :: "pid \<Rightarrow> debug_event list \<Rightarrow> debug_payload list" where
  "events_of p es \<equiv> map de_payload (filter (\<lambda>e. de_pid e = p) es)"

text \<open>While a child runs, its entry follows its own events and its channel is left alone.\<close>

lemma dispatch_all_running:
  assumes "map_of ch p = Some ce" "one_route (pump_routes ch)"
    and "\<forall>e\<in>set (events_of p es). \<not> terminal e"
    and "run_state (dispatch_all os ch es) s = (ch', s')"
  shows "map_of ch' p = Some (foldl entry_step ce (events_of p es))"
    and "one_route (pump_routes ch')" and "exits s' (ce_exit_tx ce) = exits s (ce_exit_tx ce)"
proof -
  have "map_of ch' p = Some (foldl entry_step ce (events_of p es)) \<and> one_route (pump_routes ch') \<and>
    exits s' (ce_exit_tx ce) = exits s (ce_exit_tx ce)"
    using assms
  proof (induction es arbitrary: ch ce s)
    case (Cons e es)
    let ?ch = "fst (dispatch_children ch e)" and ?s = "snd (run_state (dispatch_event os ch e) s)"
    let ?ce = "if de_pid e = p then entry_step ce (de_payload e) else ce"
    have m: "map_of ?ch p = Some ?ce"
      using Cons.prems by (auto simp: map_of_dispatch_children)
    have r: "run_state (dispatch_all os ?ch es) ?s = (ch', s')"
      using Cons.prems(4) by (simp only: run_dispatch_all_Cons)
    have t: "ce_exit_tx ?ce = ce_exit_tx ce" by simp
    have "ce_exit_tx ce \<notin> fst ` set (snd (dispatch_children ch e))"
    proof (cases "map_of ch (de_pid e)")
      case (Some ce')
      then have "de_pid e = p \<or> ce_exit_tx ce' \<noteq> ce_exit_tx ce"
        using Cons.prems(1,2) unfolding one_route_def pump_routes_def
        by (metis option.simps(9))
      then show ?thesis using Some Cons.prems(1,3) by (auto simp: dispatch_deliveries)
    qed (simp add: dispatch_deliveries)
    then have "exits ?s (ce_exit_tx ce) = exits s (ce_exit_tx ce)"
      by (rule dispatch_event_exits_frame)
    with Cons.IH [OF m one_route_dispatch [OF Cons.prems(2)] _ r] Cons.prems(3) t
    show ?case by auto
  qed simp
  then show "map_of ch' p = Some (foldl entry_step ce (events_of p es))"
    and "one_route (pump_routes ch')" and "exits s' (ce_exit_tx ce) = exits s (ce_exit_tx ce)"
    by blast+
qed

lemma dispatch_event_settles:
  assumes "map_of ch (de_pid e) = Some ce" "terminal (de_payload e)" "oneshot_open (exits s (ce_exit_tx ce))"
  shows "exits (snd (run_state (dispatch_event os ch e) s)) (ce_exit_tx ce) =
    settled (Inr (exit_reason ce (de_payload e))) (exits s (ce_exit_tx ce))"
  using dispatch_event_refines [of e s os ch] assms
  by (auto simp: dispatch_deliveries deliver_open exits_os_steps)

lemma pump_classifies:
  assumes "map_of ch p = Some ce" "ce_pending ce = None" "\<not> ce_past_loader_bp ce"
    and "one_route (pump_routes ch)"
    and "oneshot_open (exits s (ce_exit_tx ce))" "ch_receiver (exits s (ce_exit_tx ce))"
    and "\<forall>e\<in>set (events_of p es). \<not> terminal e"
    and "de_pid e = p" "terminal (de_payload e)"
    and "run_state (dispatch_all os ch (es @ e # rest)) s = (ch', s')"
  shows "oneshot_done (Inr (verdict (events_of p es) (de_payload e))) (exits s' (ce_exit_tx ce)) \<and>
    map_of ch' p = None"
proof -
  let ?c = "ce_exit_tx ce"
  obtain ch1 s1 where 1: "run_state (dispatch_all os ch es) s = (ch1, s1)"
    by (cases "run_state (dispatch_all os ch es) s")
  note run = dispatch_all_running [OF assms(1,4,7) 1]
  define ch2 s2 where "ch2 = fst (dispatch_children ch1 e)" and "s2 = snd (run_state (dispatch_event os ch1 e) s1)"
  have t: "ce_exit_tx (foldl entry_step ce (events_of p es)) = ?c" for es
    by (induction es arbitrary: ce rule: rev_induct) auto
  have "exits s2 ?c = settled (Inr (verdict (events_of p es) (de_payload e))) (exits s1 ?c)"
    using dispatch_event_settles [of ch1 e _ s1 os] run assms(2,3,5,8,9) t exit_reason_verdict
    by (simp add: s2_def)
  then have done2: "oneshot_done (Inr (verdict (events_of p es) (de_payload e))) (exits s2 ?c)"
    using settled_done assms(5,6) run(3) by metis
  have m2: "map_of ch2 p = None"
    using assms(8,9) run(1) by (simp add: ch2_def map_of_dispatch_children)
  have "pump_routes ch2 = (pump_routes ch1)(p := None)" 
    using assms(8,9) by (auto simp: ch2_def pump_routes_dispatch fun_eq_iff)
  moreover have "pump_routes ch1 p = Some ?c" using run(1) t by (simp add: pump_routes_def)
  ultimately have r2: "?c \<notin> ran (pump_routes ch2)"
    using ran_remove [OF run(2)] by simp
  have rest: "run_state (dispatch_all os ch2 rest) s2 = (ch', s')"
    using assms(10) 1 by (simp only: run_dispatch_all_append run_dispatch_all_Cons ch2_def s2_def prod.case)
  have "map_of ch' p = None"
    using dispatch_all_absent [OF m2, of os rest s2] rest by simp
  moreover have "exits s' ?c = exits s2 ?c"
    using dispatch_all_exits_frame [OF r2, of os rest s2] rest by simp
  ultimately show ?thesis using done2 by simp
qed

text \<open>C8 (pump classification): a child that enters the pump's table with a fresh entry and whose
  events arrive interleaved in any way with the events of other processes gets, in its own
  exit channel, exactly one result: the verdict of the documented rules on its own
  history (the last second-chance exception after the loader breakpoint decides between
  fast fail and crash, none leaves the exit code, a RIP event is an external kill). The
  child leaves the table, and nothing that happens later touches its channel.\<close>

theorem pump_classification:
  assumes "map_of ch p = Some ce" "ce_pending ce = None" "\<not> ce_past_loader_bp ce"
    and "one_route (pump_routes ch)"
    and "oneshot_open (exits s (ce_exit_tx ce))" "ch_receiver (exits s (ce_exit_tx ce))"
    and "\<forall>e\<in>set (events_of p es). \<not> terminal e"
    and "de_pid e = p" "terminal (de_payload e)"
    and "run_state (dispatch_all os ch (es @ e # rest)) s = (ch', s')"
  shows "oneshot_done (Inr (verdict (events_of p es) (de_payload e))) (exits s' (ce_exit_tx ce)) \<and>
    map_of ch' p = None"
  by (rule pump_classifies [OF assms])

theorem pump_classification_witness:
  "let ch = [(1, new_child_entry 0x10 False 0 0), (2, new_child_entry 0x20 False 0 1)];
       ev = (\<lambda>p pl. \<lparr>de_pid = p, de_tid = 1, de_payload = pl\<rparr>);
       es = [ev 1 (ExceptionEvent BREAKPOINT 0x1000 1), ev 2 (ExitProcessEvent 0),
             ev 1 (ExceptionEvent (u32_as_i32 0xC0000005) 0x401000 0)];
       e = ev 1 (ExitProcessEvent 0xC0000005);
       s' = snd (run_state (dispatch_all (failing_os :: unit win32) ch (es @ e # [])) (init_sys ()))
   in oneshot_done (Inr (Crash 0xC0000005 0x401000)) (exits s' 0)"
proof -
  let ?ch = "[(1, new_child_entry 0x10 False 0 0), (2, new_child_entry 0x20 False 0 1)]"
  let ?ev = "\<lambda>p pl. \<lparr>de_pid = p, de_tid = 1, de_payload = pl\<rparr>"
  let ?es = "[?ev 1 (ExceptionEvent BREAKPOINT 0x1000 1), ?ev 2 (ExitProcessEvent 0),
    ?ev 1 (ExceptionEvent (u32_as_i32 0xC0000005) 0x401000 0)]"
  let ?e = "?ev 1 (ExitProcessEvent 0xC0000005)"
  obtain ch' s' where r: "run_state (dispatch_all (failing_os :: unit win32) ?ch (?es @ ?e # [])) (init_sys ()) = (ch', s')"
    by (cases "run_state (dispatch_all (failing_os :: unit win32) ?ch (?es @ ?e # [])) (init_sys ())")
  have v: "verdict (events_of 1 ?es) (de_payload ?e) = Crash 0xC0000005 0x401000"
    by (simp add: verdict_def unhandled_def map_filter_Cons List.map_filter_simps BREAKPOINT_def)
  have d: "oneshot_done (Inr (verdict (events_of 1 ?es) (de_payload ?e)))
      (exits s' (ce_exit_tx (new_child_entry 0x10 False 0 0))) \<and> map_of ch' 1 = None"
  proof (rule pump_classification [OF _ _ _ _ _ _ _ _ _ r])
    show "one_route (pump_routes ?ch)"
      by (auto simp: one_route_def pump_routes_def new_child_entry_def split: if_splits)
  qed (simp_all add: new_child_entry_def init_sys_def sync_channel_def oneshot_open_def)
  then have "oneshot_done (Inr (Crash 0xC0000005 0x401000)) (exits s' 0)"
    unfolding v by (simp add: new_child_entry_def)
  with r show ?thesis unfolding Let_def by (simp only: snd_conv)
qed

text \<open>One result each: over any run of registrations (each bringing its own channel) and
  debug events, from an empty table, no exit channel gets two results and no channel that was
  never registered gets any; when no process identifier is registered twice, every
  registered child has had its result or is still in the table.\<close>

theorem pump_one_result_each:
  assumes "distinct (registered_channels ops)"
    and "run_ops (pump_register hs ms) pump_notify ops [] = (t, ds)"
  shows "distinct (map fst ds) \<and> fst ` set ds \<subseteq> set (registered_channels ops) \<and>
    ran (pump_routes t) \<inter> fst ` set ds = {} \<and>
    (distinct (map fst (registered ops)) \<longrightarrow>
       set (registered_channels ops) = fst ` set ds \<union> ran (pump_routes t))"
proof -
  have e: "pump_routes [] = (\<lambda>_. None)" by (simp add: pump_routes_def fun_eq_iff)
  note once = pump.run_ops_once [of "[]" ops, unfolded e, OF one_route_empty assms(1) _ assms(2)]
  note complete = pump.run_ops_complete [of ops "[]" hs ms t ds, unfolded e, OF _ _ assms(2)]
  show ?thesis using once complete by auto
qed

theorem pump_one_result_each_witness:
  "let ops = [Register_Op 1 0, Register_Op 2 1,
              Notify_Op \<lparr>de_pid = 2, de_tid = 9, de_payload = ExitProcessEvent 0\<rparr>];
       ds = snd (run_ops (pump_register (\<lambda>_. 0) (\<lambda>_. 0)) pump_notify ops [])
   in distinct (map fst ds) \<and> fst ` set ds \<subseteq> {0, 1}"
proof -
  let ?ops = "[Register_Op 1 0, Register_Op 2 1,
    Notify_Op \<lparr>de_pid = 2, de_tid = 9, de_payload = ExitProcessEvent 0\<rparr>]"
  obtain t ds where r: "run_ops (pump_register (\<lambda>_. 0) (\<lambda>_. 0)) pump_notify ?ops [] = (t, ds)"
    by (cases "run_ops (pump_register (\<lambda>_. 0) (\<lambda>_. 0)) pump_notify ?ops []")
  have "distinct (registered_channels ?ops)" by simp
  from pump_one_result_each [OF this r] r show ?thesis by (simp add: Let_def del: run_ops.simps)
qed

section \<open>Exceptions\<close>

text \<open>C26 (exceptions): the first breakpoint of a tracked child is the loader's: it is continued
  as handled, marked, and is the moment the affinity mask is applied, if one was asked for. Any
  other exception of a tracked child is passed on to the child; a second-chance one is
  recorded. An exception of a process that is not in the table, its loader breakpoint included,
  is answered not-handled and changes nothing.\<close>

theorem exception_dispatch:
  assumes "de_payload e = ExceptionEvent code address chance"
    and "run_state (dispatch_event os ch e) s = ((status, ch'), t)"
  shows "case map_of ch (de_pid e) of
      None \<Rightarrow> status = DBG_EXCEPTION_NOT_HANDLED \<and> ch' = ch \<and> t = s
    | Some ce \<Rightarrow>
        if \<not> ce_past_loader_bp ce \<and> code = BREAKPOINT
        then status = DBG_CONTINUE \<and> map_of ch' = (map_of ch)(de_pid e \<mapsto> ce\<lparr>ce_past_loader_bp := True\<rparr>) \<and>
          (if ce_affinity_mask ce = 0 then t = s
           else \<exists>b. calls t = calls s @ [SetProcessAffinityMask (ce_process_handle ce) (ce_affinity_mask ce) b])
        else status = DBG_EXCEPTION_NOT_HANDLED \<and> t = s \<and>
          map_of ch' = (map_of ch)(de_pid e \<mapsto>
            (if chance \<noteq> 0 then ce
             else ce\<lparr>ce_pending := Some \<lparr>pe_code = code, pe_address = address,
               pe_is_fast_fail = (code = STACK_BUFFER_OVERRUN \<or> code = FATAL_APP_EXIT)\<rparr>\<rparr>))"
proof (cases "map_of ch (de_pid e)")
  case None
  then show ?thesis using assms by (simp add: dispatch_event_def)
next
  case (Some ce)
  obtain b w where w: "w_SetProcessAffinityMask os (ce_process_handle ce) (ce_affinity_mask ce) (world s) = (b, w)"
    by (cases "w_SetProcessAffinityMask os (ce_process_handle ce) (ce_affinity_mask ce) (world s)")
  show ?thesis using assms Some w
    by (auto simp: dispatch_event_def Let_def run_api update_conv' split: if_splits)
qed

theorem exception_dispatch_witness:
  "let e = \<lparr>de_pid = 1, de_tid = 9, de_payload = ExceptionEvent BREAKPOINT 0x1000 1\<rparr>;
       (out, t) = run_state (dispatch_event (failing_os :: unit win32) [] e) (init_sys ())
   in fst out = DBG_EXCEPTION_NOT_HANDLED \<and> t = init_sys ()"
proof -
  let ?e = "\<lparr>de_pid = 1, de_tid = 9, de_payload = ExceptionEvent BREAKPOINT 0x1000 1\<rparr>"
  obtain st ch t where r: "run_state (dispatch_event (failing_os :: unit win32) [] ?e) (init_sys ()) = ((st, ch), t)"
    by (metis surj_pair)
  show ?thesis using exception_dispatch [OF _ r, of BREAKPOINT "0x1000" 1] r by simp
qed

end
