(* ===== verification/Process.thy ===== *)
theory Process
  imports Runtime
begin

text \<open>
  Creating a process: \<open>create_process_impl\<close>, its two callers and \<open>to_wide_null\<close>
  of \<open>src/crates/worrywart/src/pump.rs\<close>. The lemmas give the function's outcomes on
  every path; the properties say which arguments reach \<open>CreateProcessW\<close>, that the
  attribute list is freed exactly when it was initialised, and that an error leaves no
  handle behind.
\<close>

section \<open>Constants\<close>

definition EXTENDED_STARTUPINFO_PRESENT :: u32 where
  "EXTENDED_STARTUPINFO_PRESENT = 0x00080000"

definition CREATE_UNICODE_ENVIRONMENT :: u32 where
  "CREATE_UNICODE_ENVIRONMENT = 0x00000400"

definition DEBUG_PROCESS :: u32 where
  "DEBUG_PROCESS = 0x00000001"

unbundle bit_operations_syntax

section \<open>Requests\<close>

record spawn_request =
  rq_application_name :: "u16 list option"
  rq_command_line :: "u16 list"
  rq_environment :: "u16 list option"
  rq_current_directory :: "u16 list option"
  rq_affinity_mask :: usize
  rq_exit_tx :: nat
  rq_stdin_handle :: handle
  rq_stdout_handle :: handle
  rq_stderr_handle :: handle
  rq_use_stdio_handles :: bool
  rq_inherit_handles :: bool
  rq_job_handle :: handle

record job_spawn_params =
  jp_application_name :: "u16 list option"
  jp_command_line :: "u16 list"
  jp_environment :: "u16 list option"
  jp_current_directory :: "u16 list option"
  jp_job_handle :: handle
  jp_inherit_handles :: bool

definition to_wide_null :: "os_string \<Rightarrow> u16 list" where
  "to_wide_null s = s @ [0]"

section \<open>\<open>create_process_impl\<close>\<close>

definition creation_flags :: "bool \<Rightarrow> u32" where
  "creation_flags debug =
     (let flags = EXTENDED_STARTUPINFO_PRESENT OR CREATE_UNICODE_ENVIRONMENT in
      if debug then flags OR DEBUG_PROCESS else flags)"

definition create_process_impl ::
  "'w win32 \<Rightarrow> u16 list option \<Rightarrow> u16 list \<Rightarrow> u16 list option \<Rightarrow> u16 list option \<Rightarrow> handle \<Rightarrow>
   handle \<Rightarrow> handle \<Rightarrow> handle \<Rightarrow> bool \<Rightarrow> bool \<Rightarrow> bool \<Rightarrow> ('w, 'z, process_information) fallible" where
  "create_process_impl os application_name command_line environment current_directory job_handle
     stdin_handle stdout_handle stderr_handle use_stdio_handles inherit_handles debug =
     (let has_job = (job_handle \<noteq> null_handle \<and> job_handle \<noteq> INVALID_HANDLE_VALUE);
          attr_count = (if has_job then 1 else 0)
      in do {
        (_, attr_list_size) \<leftarrow> api (w_InitAttributeList os False attr_count 0)
          (InitAttributeList False attr_count 0);
        (init_ok, attr_list_size') \<leftarrow> api (w_InitAttributeList os True attr_count attr_list_size)
          (InitAttributeList True attr_count attr_list_size);
        if \<not> init_ok then last_os_error os
        else do {
          updated \<leftarrow>
            (if has_job
             then api (w_UpdateAttribute os 0x0002000D job_handle) (UpdateAttribute 0x0002000D job_handle)
             else State_Monad.return True);
          if \<not> updated then do {
            api (w_DeleteAttributeList os) (\<lambda>_. DeleteAttributeList);
            last_os_error os
          }
          else
            let si_handles = (if use_stdio_handles
                  then Some (stdin_handle, stdout_handle, stderr_handle) else None);
                call_args = \<lparr>
                  ca_application_name = application_name,
                  ca_command_line = command_line,
                  ca_inherit_handles = inherit_handles,
                  ca_flags = creation_flags debug,
                  ca_environment = environment,
                  ca_current_directory = current_directory,
                  ca_job_list = (if has_job then Some job_handle else None),
                  ca_std_handles = si_handles\<rparr>
            in do {
              (created, pi) \<leftarrow> api (w_CreateProcess os call_args) (CreateProcess call_args);
              api (w_DeleteAttributeList os) (\<lambda>_. DeleteAttributeList);
              if \<not> created then last_os_error os else ok pi
            }
        }
      })"

definition create_debugged_child ::
  "'w win32 \<Rightarrow> spawn_request \<Rightarrow> ('w, 'z, process_information \<times> bool) fallible" where
  "create_debugged_child os req =
     try_bind (create_process_impl os (rq_application_name req) (rq_command_line req)
         (rq_environment req) (rq_current_directory req) (rq_job_handle req)
         (rq_stdin_handle req) (rq_stdout_handle req) (rq_stderr_handle req)
         (rq_use_stdio_handles req) (rq_inherit_handles req) True)
       (\<lambda>pi. ok (pi, False))"

definition create_process_for_job ::
  "'w win32 \<Rightarrow> job_spawn_params \<Rightarrow> ('w, 'z, process_information) fallible" where
  "create_process_for_job os params =
     create_process_impl os (jp_application_name params) (jp_command_line params)
       (jp_environment params) (jp_current_directory params) (jp_job_handle params)
       INVALID_HANDLE_VALUE INVALID_HANDLE_VALUE INVALID_HANDLE_VALUE False
       (jp_inherit_handles params) False"

section \<open>The attribute list\<close>

text \<open>How many attribute lists are initialised and not yet freed.\<close>

fun attr_delta :: "call \<Rightarrow> int" where
  "attr_delta (InitAttributeList buffer n z (success, z')) = (if buffer \<and> success then 1 else 0)"
| "attr_delta DeleteAttributeList = - 1"
| "attr_delta _ = 0"

definition attr_lists :: "call list \<Rightarrow> int" where
  "attr_lists cs = (\<Sum>c\<leftarrow>cs. attr_delta c)"

lemma attr_lists_simps [simp]:
  "attr_lists [] = 0" "attr_lists (c # cs) = attr_delta c + attr_lists cs"
  "attr_lists (cs @ ds) = attr_lists cs + attr_lists ds"
  by (simp_all add: attr_lists_def)

section \<open>Outcomes\<close>

text \<open>The arguments the code passes to \<open>CreateProcessW\<close>.\<close>

definition process_args ::
  "u16 list option \<Rightarrow> u16 list \<Rightarrow> u16 list option \<Rightarrow> u16 list option \<Rightarrow> handle \<Rightarrow>
   (handle \<times> handle \<times> handle) option \<Rightarrow> bool \<Rightarrow> bool \<Rightarrow> create_args" where
  "process_args app cmd env dir job stdio inherit debug = \<lparr>
     ca_application_name = app, ca_command_line = cmd, ca_inherit_handles = inherit,
     ca_flags = (if debug then 0x00080401 else 0x00080400),
     ca_environment = env, ca_current_directory = dir,
     ca_job_list = (if valid_handle job then Some job else None), ca_std_handles = stdio\<rparr>"

lemma creation_flags_eq: "creation_flags debug = (if debug then 0x00080401 else 0x00080400)"
  by (simp add: creation_flags_def EXTENDED_STARTUPINFO_PRESENT_def CREATE_UNICODE_ENVIRONMENT_def
      DEBUG_PROCESS_def)

text \<open>A call that gives and takes no handle, makes no process and is not of the debugger.\<close>

fun debugger_call :: "call \<Rightarrow> bool" where
  "debugger_call (WaitForDebugEvent t e) = True"
| "debugger_call (ContinueDebugEvent p t st b) = True"
| "debugger_call _ = False"

definition quiet :: "call \<Rightarrow> bool" where
  "quiet c \<longleftrightarrow> neutral c \<and> (\<forall>a r. c \<noteq> CreateProcess a r) \<and> \<not> debugger_call c"

lemma quiet_simps [simp]:
  "quiet (GetLastError e)" "quiet (InitAttributeList b n z r)" "quiet (UpdateAttribute a h u)"
  "quiet DeleteAttributeList"
  by (simp_all add: quiet_def neutral_def)

lemma last_os_error_run:
  "\<exists>e w. run_state (last_os_error os) s =
     (Inl (Os_Error e), s\<lparr>world := w, calls := calls s @ [GetLastError e]\<rparr>)"
proof -
  obtain e w where "w_GetLastError os (world s) = (e, w)" by (cases "w_GetLastError os (world s)")
  then show ?thesis by (intro exI [of _ e] exI [of _ w]) (simp add: last_os_error_def run_api)
qed

text \<open>
  The paths: no attribute list, no job attribute, no process, a process. The log says on
  each path which calls were made.
\<close>

lemma create_process_impl_cases:
  assumes "run_state (create_process_impl os app cmd env dir job i u e stdio inherit debug) s = (r, t)"
  obtains (no_process) w cs err where "r = Inl (Os_Error err)" "t = s\<lparr>world := w, calls := calls s @ cs\<rparr>"
      "\<forall>c\<in>set cs. quiet c" "attr_lists cs = 0"
    | (refused) w as bs err pi where "r = Inl (Os_Error err)"
      "t = s\<lparr>world := w, calls := calls s @ as @
        [CreateProcess (process_args app cmd env dir job (if stdio then Some (i, u, e) else None) inherit debug)
          (False, pi)] @ bs\<rparr>"
      "\<forall>c\<in>set (as @ bs). quiet c" "attr_lists (as @ bs) = 0"
    | (created) w as bs pi where "r = Inr pi"
      "t = s\<lparr>world := w, calls := calls s @ as @
        [CreateProcess (process_args app cmd env dir job (if stdio then Some (i, u, e) else None) inherit debug)
          (True, pi)] @ bs\<rparr>"
      "\<forall>c\<in>set (as @ bs). quiet c" "attr_lists (as @ bs) = 0"
proof -
  define n :: u32 where "n = (if valid_handle job then 1 else 0)"
  define a where "a = process_args app cmd env dir job (if stdio then Some (i, u, e) else None) inherit debug"
  have hj: "(job \<noteq> null_handle \<and> job \<noteq> INVALID_HANDLE_VALUE) = valid_handle job"
    by (auto simp: valid_handle_def)
  obtain b1 z1 w1 where 1: "w_InitAttributeList os False n 0 (world s) = ((b1, z1), w1)"
    by (metis surj_pair)
  obtain b2 z2 w2 where 2: "w_InitAttributeList os True n z1 w1 = ((b2, z2), w2)"
    by (metis surj_pair)
  obtain b3 w3 where 3: "(if valid_handle job then w_UpdateAttribute os 0x0002000D job w2 else (True, w2)) = (b3, w3)"
    by (metis surj_pair)
  obtain b4 pi w4 where 4: "w_CreateProcess os a w3 = ((b4, pi), w4)"
    by (metis surj_pair)
  obtain x5 w5 where 5: "w_DeleteAttributeList os w4 = (x5, w5)"
    by (metis surj_pair)
  obtain x6 w6 where 6: "w_DeleteAttributeList os w3 = (x6, w6)"
    by (metis surj_pair)
  obtain e2 v2 where e2: "w_GetLastError os w2 = (e2, v2)" by (metis surj_pair)
  obtain e5 v5 where e5: "w_GetLastError os w5 = (e5, v5)" by (metis surj_pair)
  obtain e6 v6 where e6: "w_GetLastError os w6 = (e6, v6)" by (metis surj_pair)
  define init where "init = [InitAttributeList False n 0 (b1, z1), InitAttributeList True n z1 (b2, z2)]"
  define upd where "upd = (if valid_handle job then [UpdateAttribute 0x0002000D job b3] else [])"
  have run: "(r, t) =
     (if \<not> b2 then (Inl (Os_Error e2), s\<lparr>world := v2, calls := calls s @ init @ [GetLastError e2]\<rparr>)
      else if \<not> b3 then (Inl (Os_Error e6),
        s\<lparr>world := v6, calls := calls s @ init @ upd @ [DeleteAttributeList, GetLastError e6]\<rparr>)
      else if \<not> b4 then (Inl (Os_Error e5), s\<lparr>world := v5, calls := calls s @ (init @ upd) @
        [CreateProcess a (False, pi)] @ [DeleteAttributeList, GetLastError e5]\<rparr>)
      else (Inr pi, s\<lparr>world := w5, calls := calls s @ (init @ upd) @
        [CreateProcess a (True, pi)] @ [DeleteAttributeList]\<rparr>))"
    using assms 1 2 3 4 5 6 e2 e5 e6
    unfolding create_process_impl_def hj Let_def n_def [symmetric] init_def upd_def
    by (cases "valid_handle job")
      (simp_all add: run_api last_os_error_def n_def a_def process_args_def creation_flags_eq
        split: if_splits)
  show thesis
  proof (cases "b2")
    case False
    then show thesis using run
      by (intro no_process [of e2 "init @ [GetLastError e2]" v2]) (simp_all add: init_def)
  next
    case b2: True
    show thesis
    proof (cases b3)
      case False
      then show thesis using run b2
        by (intro no_process [of e6 "init @ upd @ [DeleteAttributeList, GetLastError e6]" v6])
          (simp_all add: init_def upd_def)
    next
      case b3: True
      show thesis
      proof (cases b4)
        case False
        then show thesis using run b2 b3
          by (intro refused [of e5 "init @ upd" pi "[DeleteAttributeList, GetLastError e5]" v5])
            (simp_all add: init_def upd_def a_def)
      next
        case True
        then show thesis using run b2 b3
          by (intro created [of pi "init @ upd" "[DeleteAttributeList]" w5])
            (simp_all add: init_def upd_def a_def)
      qed
    qed
  qed
qed

text \<open>The processes asked for, in order, with the answers.\<close>

fun creation :: "call \<Rightarrow> (create_args \<times> bool \<times> process_information) list" where
  "creation (CreateProcess a r) = [(a, r)]"
| "creation _ = []"

definition creations :: "call list \<Rightarrow> (create_args \<times> bool \<times> process_information) list" where
  "creations cs = concat (map creation cs)"

lemma creations_simps [simp]:
  "creations [] = []" "creations (c # cs) = creation c @ creations cs"
  "creations (cs @ ds) = creations cs @ creations ds"
  by (simp_all add: creations_def)

lemma creations_quiet: "\<forall>c\<in>set cs. quiet c \<Longrightarrow> creations cs = []"
proof (induction cs)
  case (Cons c cs)
  then show ?case by (cases c) (auto simp: quiet_def)
qed simp

lemma ledger_quiet: "\<forall>c\<in>set cs. quiet c \<Longrightarrow> ledger cs h = 0"
  by (rule ledger_neutral) (simp add: quiet_def)

definition process_handles :: "io_error + process_information \<Rightarrow> handle list" where
  "process_handles r = (case r of Inl e \<Rightarrow> [] | Inr pi \<Rightarrow> [hProcess pi, hThread pi])"

lemma process_handles_simps [simp]:
  "process_handles (Inl e) = []" "process_handles (Inr pi) = [hProcess pi, hThread pi]"
  by (simp_all add: process_handles_def)

lemma create_process_impl_effect:
  assumes "run_state (create_process_impl os app cmd env dir job i u e stdio inherit debug) s = (r, t)"
  shows "\<exists>w cs. t = s\<lparr>world := w, calls := calls s @ cs\<rparr>"
    and "held t h = held s h + owned (process_handles r) h"
    and "attr_lists (calls t) = attr_lists (calls s)"
  using assms by (cases rule: create_process_impl_cases; auto simp: ledger_quiet)+

lemma create_process_for_job_effect:
  assumes "run_state (create_process_for_job os params) s = (r, t)"
  shows "\<exists>w cs. t = s\<lparr>world := w, calls := calls s @ cs\<rparr>"
    and "held t h = held s h + owned (process_handles r) h"
    and "attr_lists (calls t) = attr_lists (calls s)"
  using create_process_impl_effect [OF assms [unfolded create_process_for_job_def]] by blast+

lemma create_debugged_child_effect:
  assumes "run_state (create_debugged_child os req) s = (r, t)"
  shows "\<exists>w cs. t = s\<lparr>world := w, calls := calls s @ cs\<rparr>"
    and "held t h = held s h + owned (process_handles (map_sum id fst r)) h"
    and "attr_lists (calls t) = attr_lists (calls s)"
proof -
  obtain r' where "run_state (create_process_impl os (rq_application_name req) (rq_command_line req)
      (rq_environment req) (rq_current_directory req) (rq_job_handle req) (rq_stdin_handle req)
      (rq_stdout_handle req) (rq_stderr_handle req) (rq_use_stdio_handles req)
      (rq_inherit_handles req) True) s = (r', t)" and r: "map_sum id fst r = r'"
    using assms by (auto simp: create_debugged_child_def split: prod.splits sum.splits)
  note e = create_process_impl_effect [OF this(1)]
  show "\<exists>w cs. t = s\<lparr>world := w, calls := calls s @ cs\<rparr>" by (rule e(1))
  show "held t h = held s h + owned (process_handles (map_sum id fst r)) h" unfolding r by (rule e(2))
  show "attr_lists (calls t) = attr_lists (calls s)" by (rule e(3))
qed

text \<open>C21 (no leak in process creation): on every path of create_process_impl, each early return
  included, the attribute list is freed exactly as often as it was initialised, the caller gets
  the two handles of the new process on success and no handle on an error, and no channel is
  touched.\<close>

theorem create_process_ledger:
  assumes "run_state (create_process_impl os app cmd env dir job i u e stdio inherit debug) s = (r, t)"
  shows "attr_lists (calls t) = attr_lists (calls s) \<and>
    held t h = held s h + owned (process_handles r) h \<and>
    (\<exists>w cs. t = s\<lparr>world := w, calls := calls s @ cs\<rparr>)"
  using create_process_impl_effect [OF assms] by blast

definition job_os :: "nat win32" where
  "job_os = failing_os\<lparr>
     w_InitAttributeList := (\<lambda>b n z w. ((b, 48), w)),
     w_UpdateAttribute := (\<lambda>a v w. (True, w)),
     w_DeleteAttributeList := (\<lambda>w. ((), w)),
     w_CreateProcess := (\<lambda>a w. ((True, \<lparr>hProcess = of_nat (4 * w + 4), hThread = of_nat (4 * w + 8),
       dwProcessId = of_nat (w + 100)\<rparr>), w + 2))\<rparr>"

theorem create_process_ledger_witness:
  "held (snd (run_state (create_process_impl job_os None [0x78, 0] None None 0x50
     0 0 0 False False True) (init_sys 1))) 8 = 1"
proof -
  let ?m = "create_process_impl job_os None [0x78, 0] None None 0x50 0 0 0 False False True"
  obtain r t where r: "run_state ?m (init_sys 1) = (r, t)" by (cases "run_state ?m (init_sys 1)")
  have "fst (run_state ?m (init_sys 1)) = Inr \<lparr>hProcess = 8, hThread = 12, dwProcessId = 101\<rparr>"
    by (simp add: create_process_impl_def job_os_def init_sys_def run_api Let_def INVALID_HANDLE_VALUE_def)
  with create_process_ledger [OF r, of 8] r show ?thesis
    by (simp add: init_sys_def valid_handle_def INVALID_HANDLE_VALUE_def)
qed

text \<open>What the two callers ask for.\<close>

definition debug_child_args :: "spawn_request \<Rightarrow> create_args" where
  "debug_child_args req =
     process_args (rq_application_name req) (rq_command_line req) (rq_environment req)
       (rq_current_directory req) (rq_job_handle req)
       (if rq_use_stdio_handles req
        then Some (rq_stdin_handle req, rq_stdout_handle req, rq_stderr_handle req) else None)
       (rq_inherit_handles req) True"

definition job_child_args :: "job_spawn_params \<Rightarrow> create_args" where
  "job_child_args params =
     process_args (jp_application_name params) (jp_command_line params) (jp_environment params)
       (jp_current_directory params) (jp_job_handle params) None (jp_inherit_handles params) False"

lemma creations_impl:
  assumes "run_state (create_process_impl os app cmd env dir job i u e stdio inherit debug) s = (Inr pi, t)"
  shows "creations (calls t) = creations (calls s) @
    [(process_args app cmd env dir job (if stdio then Some (i, u, e) else None) inherit debug, True, pi)]"
  using assms by (cases rule: create_process_impl_cases) (auto simp: creations_quiet)

lemma create_debugged_child_made:
  assumes "run_state (create_debugged_child os req) s = (Inr (pi, past), t)"
  shows "\<not> past \<and> creations (calls t) = creations (calls s) @ [(debug_child_args req, True, pi)]"
  using assms
  by (auto simp: create_debugged_child_def debug_child_args_def split: prod.splits sum.splits
      dest!: creations_impl)

lemma create_process_for_job_made:
  assumes "run_state (create_process_for_job os params) s = (Inr pi, t)"
  shows "creations (calls t) = creations (calls s) @ [(job_child_args params, True, pi)]"
  using assms by (auto simp: create_process_for_job_def job_child_args_def dest!: creations_impl)

text \<open>Processes are created as requested: a successful call has made exactly one process, with
  the command line, environment and directory it was given, in the job it was given when that
  is a real handle, inheriting handles only when asked to and, for the pump's children, under
  the debugger; the loader breakpoint of a debuggee counts as still to come.\<close>

theorem children_created_as_requested:
  "(\<forall>pi past t. run_state (create_debugged_child os req) s = (Inr (pi, past), t) \<longrightarrow>
      \<not> past \<and> creations (calls t) = creations (calls s) @ [(debug_child_args req, True, pi)]) \<and>
   (\<forall>pi t. run_state (create_process_for_job os params) s = (Inr pi, t) \<longrightarrow>
      creations (calls t) = creations (calls s) @ [(job_child_args params, True, pi)])"
  using create_debugged_child_made create_process_for_job_made by blast

definition example_job_params :: job_spawn_params where
  "example_job_params = \<lparr>jp_application_name = None, jp_command_line = [0x78, 0], jp_environment = None,
     jp_current_directory = None, jp_job_handle = 0x50, jp_inherit_handles = True\<rparr>"

theorem children_created_as_requested_witness:
  "creations (calls (snd (run_state (create_process_for_job job_os example_job_params) (init_sys 1)))) =
     [(\<lparr>ca_application_name = None, ca_command_line = [0x78, 0], ca_inherit_handles = True,
        ca_flags = 0x00080400, ca_environment = None, ca_current_directory = None,
        ca_job_list = Some 0x50, ca_std_handles = None\<rparr>,
       True, \<lparr>hProcess = 8, hThread = 12, dwProcessId = 101\<rparr>)]"
proof -
  let ?m = "create_process_for_job job_os example_job_params"
  obtain r t where r: "run_state ?m (init_sys 1) = (r, t)" by (cases "run_state ?m (init_sys 1)")
  have "fst (run_state ?m (init_sys 1)) = Inr \<lparr>hProcess = 8, hThread = 12, dwProcessId = 101\<rparr>"
    by (simp add: create_process_for_job_def create_process_impl_def job_os_def init_sys_def run_api
        Let_def INVALID_HANDLE_VALUE_def)
  with r have r': "run_state ?m (init_sys 1) = (Inr \<lparr>hProcess = 8, hThread = 12, dwProcessId = 101\<rparr>, t)"
    by simp
  from children_created_as_requested [of job_os undefined "init_sys 1" example_job_params] r'
  have "creations (calls t) = creations (calls (init_sys 1 :: nat sys)) @
      [(job_child_args example_job_params, True, \<lparr>hProcess = 8, hThread = 12, dwProcessId = 101\<rparr>)]"
    by blast
  then show ?thesis using r
    by (simp add: init_sys_def job_child_args_def example_job_params_def process_args_def valid_handle_def
        INVALID_HANDLE_VALUE_def)
qed

end
