(* ===== verification/PumpLoop.thy ===== *)
theory PumpLoop
  imports Pump Process "HOL-Library.Multiset"
begin

text \<open>
  The thread of \<open>src/crates/worrywart/src/pump.rs\<close>: \<open>PumpMessage\<close>, the methods of
  \<open>Pump\<close>, its \<open>Drop\<close>, and \<open>pump_loop\<close>. The state of the pump thread is its table of
  children; the state of the process has, beside the channels, the pump's message queue.
  One turn of the loop is \<open>pump_iteration\<close>; \<open>pump_loop\<close> runs turns until the thread
  returns or waits in \<open>rx.recv()\<close>.

  \<open>spawn_child\<close> is called on another thread: what the pump (and anyone else) does
  between the request and the receipt of the answer is its argument \<open>others\<close>, an
  arbitrary computation.
\<close>

section \<open>Messages and the queue\<close>

datatype pump_message = Spawn spawn_request nat | Shutdown

record 'w pump_sys = "'w sys" + inbox :: "pump_message chan"

type_synonym ('w, 'z, 'a) pump_io = "(('w, 'z) pump_sys_scheme, 'a) state"
type_synonym ('w, 'z, 'a) pump_fallible = "(('w, 'z) pump_sys_scheme, io_error + 'a) state"

text \<open>\<open>tx.send(m).is_ok()\<close>; the queue is unbounded.\<close>

definition inbox_send :: "pump_message \<Rightarrow> ('w, 'z, bool) pump_io" where
  "inbox_send m = State (\<lambda>s.
     case ch_send m (inbox s) of
       Sent c \<Rightarrow> (True, s\<lparr>inbox := c\<rparr>)
     | Send_Err \<Rightarrow> (False, s)
     | Send_Blocks \<Rightarrow> (False, s\<lparr>stuck := True\<rparr>))"

definition inbox_recv :: "('w, 'z, pump_message arrival) pump_io" where
  "inbox_recv = State (\<lambda>s.
     case ch_recv (inbox s) of
       Received m c \<Rightarrow> (Got m, s\<lparr>inbox := c\<rparr>)
     | Recv_Err \<Rightarrow> (Hung_Up, s)
     | Recv_Blocks \<Rightarrow> (Waits, s))"

definition inbox_try_recv :: "('w, 'z, pump_message option) pump_io" where
  "inbox_try_recv = State (\<lambda>s.
     case ch_try_recv (inbox s) of
       Some (m, c) \<Rightarrow> (Some m, s\<lparr>inbox := c\<rparr>)
     | None \<Rightarrow> (None, s))"

section \<open>\<open>pump_loop\<close>\<close>

text \<open>The result of a turn: another turn with this table, waiting in \<open>rx.recv()\<close>, or the
  end of the thread.\<close>

datatype progress = Again children | Waiting | Returned

text \<open>The end of the thread drops its table and the receiver with what is still queued.\<close>

fun drop_children :: "children \<Rightarrow> ('w, 'z, unit) io" where
  "drop_children [] = State_Monad.return ()"
| "drop_children ((p, ce) # ch) = do { drop_exit_sender (ce_exit_tx ce); drop_children ch }"

fun drop_messages :: "pump_message list \<Rightarrow> ('w, 'z, unit) io" where
  "drop_messages [] = State_Monad.return ()"
| "drop_messages (Shutdown # ms) = drop_messages ms"
| "drop_messages (Spawn req resp # ms) = do {
     drop_exit_sender (rq_exit_tx req);
     drop_response_sender resp;
     drop_messages ms
   }"

definition drop_inbox :: "('w, 'z, unit) pump_io" where
  "drop_inbox = do {
     queued \<leftarrow> State (\<lambda>s. (ch_buf (inbox s), s\<lparr>inbox := drop_receiver (inbox s)\<rparr>));
     drop_messages queued
   }"

definition pump_return :: "children \<Rightarrow> ('w, 'z, progress) pump_io" where
  "pump_return children = do {
     drop_children children;
     drop_inbox;
     State_Monad.return Returned
   }"

text \<open>\<open>PumpMessage::Spawn\<close>: an entry of the same identifier is replaced, and its sender
  dropped with it.\<close>

definition handle_spawn ::
  "'w win32 \<Rightarrow> children \<Rightarrow> spawn_request \<Rightarrow> nat \<Rightarrow> ('w, 'z, children) io" where
  "handle_spawn os children req resp_tx = do {
     result \<leftarrow> create_debugged_child os req;
     case result of
       Inr (pi, past_loader) \<Rightarrow>
         let pid = dwProcessId pi;
             entry = new_child_entry (hProcess pi) past_loader (rq_affinity_mask req) (rq_exit_tx req)
         in do {
           (case map_of children pid of
              Some old \<Rightarrow> drop_exit_sender (ce_exit_tx old)
            | None \<Rightarrow> State_Monad.return ());
           send_response resp_tx (Inr \<lparr>sr_pid = pid, sr_process_handle = hProcess pi,
             sr_thread_handle = hThread pi\<rparr>);
           State_Monad.return (AList.update pid entry children)
         }
     | Inl e \<Rightarrow> do {
         send_response resp_tx (Inl e);
         drop_exit_sender (rq_exit_tx req);
         State_Monad.return children
       }
   }"

text \<open>The second half of a turn: one debug event, at most 10 ms.\<close>

definition debug_step :: "'w win32 \<Rightarrow> children \<Rightarrow> ('w, 'z, progress) io" where
  "debug_step os children =
     (if children = [] then State_Monad.return (Again children)
      else do {
        got_event \<leftarrow> api (w_WaitForDebugEvent os 10) (WaitForDebugEvent 10);
        case got_event of
          None \<Rightarrow> State_Monad.return (Again children)
        | Some event \<Rightarrow> do {
            (continue_status, children') \<leftarrow> dispatch_event os children event;
            api (w_ContinueDebugEvent os (de_pid event) (de_tid event) continue_status)
              (ContinueDebugEvent (de_pid event) (de_tid event) continue_status);
            State_Monad.return (Again children')
          }
      })"

definition handle_message ::
  "'w win32 \<Rightarrow> children \<Rightarrow> pump_message option \<Rightarrow> ('w, 'z, progress) pump_io" where
  "handle_message os children msg =
     (case msg of
        None \<Rightarrow> debug_step os children
      | Some (Spawn req resp_tx) \<Rightarrow> do {
          children' \<leftarrow> handle_spawn os children req resp_tx;
          debug_step os children'
        }
      | Some Shutdown \<Rightarrow> pump_return children)"

definition pump_iteration :: "'w win32 \<Rightarrow> children \<Rightarrow> ('w, 'z, progress) pump_io" where
  "pump_iteration os children =
     (if children = [] then do {
        m \<leftarrow> inbox_recv;
        case m of
          Got msg \<Rightarrow> handle_message os children (Some msg)
        | Hung_Up \<Rightarrow> pump_return children
        | Waits \<Rightarrow> State_Monad.return Waiting
      }
      else do {
        msg \<leftarrow> inbox_try_recv;
        handle_message os children msg
      })"

text \<open>The loop, for at most \<open>n\<close> turns.\<close>

fun pump_loop :: "nat \<Rightarrow> 'w win32 \<Rightarrow> children \<Rightarrow> ('w, 'z, progress) pump_io" where
  "pump_loop 0 os children = State_Monad.return (Again children)"
| "pump_loop (Suc n) os children = do {
     r \<leftarrow> pump_iteration os children;
     case r of Again children' \<Rightarrow> pump_loop n os children' | _ \<Rightarrow> State_Monad.return r
   }"

section \<open>\<open>Pump\<close>\<close>

record pump_object = po_thread :: bool

definition pump_start :: "'w win32 \<Rightarrow> ('w, 'z, pump_object) pump_fallible" where
  "pump_start os = do {
     State (\<lambda>s. ((), s\<lparr>inbox := channel\<rparr>));
     r \<leftarrow> api (w_spawn_thread os ''worrywart-debug-pump'') (SpawnThread ''worrywart-debug-pump'');
     case r of
       Some e \<Rightarrow> do {
         State (\<lambda>s. ((), s\<lparr>inbox := drop_sender (drop_receiver (inbox s))\<rparr>));
         err e
       }
     | None \<Rightarrow> ok \<lparr>po_thread = True\<rparr>
   }"

text \<open>The request half of \<open>spawn_child\<close>; a failed send drops the request.\<close>

definition spawn_child_request :: "spawn_request \<Rightarrow> ('w, 'z, nat) pump_fallible" where
  "spawn_child_request req = do {
     resp \<leftarrow> new_response;
     sent \<leftarrow> inbox_send (Spawn req resp);
     if sent then ok resp
     else do {
       drop_exit_sender (rq_exit_tx req);
       drop_response_sender resp;
       err (Broken_Pipe ''pump thread gone'')
     }
   }"

text \<open>\<open>None\<close> when the answer has not come, so that the caller still waits.\<close>

definition spawn_child ::
  "('w, 'z, unit) pump_io \<Rightarrow> spawn_request \<Rightarrow> ('w, 'z, (io_error + spawn_response) option) pump_io" where
  "spawn_child others req = do {
     r \<leftarrow> spawn_child_request req;
     case r of
       Inl e \<Rightarrow> State_Monad.return (Some (Inl e))
     | Inr resp_rx \<Rightarrow> do {
         others;
         a \<leftarrow> recv_response resp_rx;
         State_Monad.return (case a of
             Got x \<Rightarrow> Some x
           | Hung_Up \<Rightarrow> Some (Inl (Broken_Pipe ''pump thread gone''))
           | Waits \<Rightarrow> None)
       }
   }"

text \<open>\<open>Drop for Pump\<close>: ask for shutdown and join the thread, which runs in \<open>others\<close>.\<close>

definition pump_drop :: "('w, 'z, unit) pump_io \<Rightarrow> pump_object \<Rightarrow> ('w, 'z, unit) pump_io" where
  "pump_drop others p = do {
     inbox_send Shutdown;
     (if po_thread p then others else State_Monad.return ());
     State (\<lambda>s. ((), s\<lparr>inbox := drop_sender (inbox s)\<rparr>))
   }"

section \<open>The channels the pump holds\<close>

text \<open>
  \<open>channels_ok T R s\<close>: the exit senders \<open>T\<close> and the answer senders \<open>R\<close> are
  held once each, nothing was sent on them yet, and no thread has blocked on a full channel.
\<close>

definition channels_ok :: "nat multiset \<Rightarrow> nat multiset \<Rightarrow> ('w, 'z) sys_scheme \<Rightarrow> bool" where
  "channels_ok T R s \<longleftrightarrow>
     (\<forall>i. count T i \<le> 1) \<and> (\<forall>i. count R i \<le> 1) \<and>
     (\<forall>i\<in>#T. oneshot_open (exits s i)) \<and> (\<forall>i\<in>#R. oneshot_open (responses s i)) \<and> \<not> stuck s"

lemma channels_ok_os [simp]:
  "channels_ok T R (s\<lparr>world := w, calls := cs\<rparr>) = channels_ok T R s"
  by (simp add: channels_ok_def)

lemma channels_ok_steps: "os_steps P s t \<Longrightarrow> channels_ok T R t = channels_ok T R s"
  by (auto simp: os_steps_def)

lemma channels_ok_inbox [simp]: "channels_ok T R (s\<lparr>inbox := c\<rparr>) = channels_ok T R s"
  by (simp add: channels_ok_def)

lemma count_add_le: "(\<forall>i. count (add_mset c T) i \<le> 1) \<Longrightarrow> (\<forall>i. count T i \<le> 1) \<and> c \<notin># T"
proof (intro conjI allI)
  assume a: "\<forall>i. count (add_mset c T) i \<le> 1"
  show "count T i \<le> 1" for i using a [rule_format, of i] by (simp split: if_splits)
  show "c \<notin># T" using a [rule_format, of c] by (simp add: not_in_iff)
qed

lemma channels_ok_exitD:
  "channels_ok (add_mset c T) R s \<Longrightarrow> channels_ok T R s \<and> c \<notin># T \<and> oneshot_open (exits s c)"
  using count_add_le [of c T] unfolding channels_ok_def by simp

lemma channels_ok_responseD:
  "channels_ok T (add_mset c R) s \<Longrightarrow> channels_ok T R s \<and> c \<notin># R \<and> oneshot_open (responses s c)"
  using count_add_le [of c R] unfolding channels_ok_def by simp

lemma channels_ok_exit:
  assumes "channels_ok (add_mset c T) R s" "\<forall>i. i \<noteq> c \<longrightarrow> exits t i = exits s i"
    and "responses t = responses s" "stuck t = stuck s"
  shows "channels_ok T R t"
proof -
  note d = channels_ok_exitD [OF assms(1)]
  have "\<forall>i\<in>#T. exits t i = exits s i" using d assms(2) by metis
  then show ?thesis using d assms(3,4) unfolding channels_ok_def by simp
qed

lemma channels_ok_response:
  assumes "channels_ok T (add_mset c R) s" "\<forall>i. i \<noteq> c \<longrightarrow> responses t i = responses s i"
    and "exits t = exits s" "stuck t = stuck s"
  shows "channels_ok T R t"
proof -
  note d = channels_ok_responseD [OF assms(1)]
  have "\<forall>i\<in>#R. responses t i = responses s i" using d assms(2) by metis
  then show ?thesis using d assms(3,4) unfolding channels_ok_def by simp
qed

lemma channels_ok_deliver:
  "channels_ok (add_mset c T) R s \<Longrightarrow> channels_ok T R (snd (run_state (deliver c r) s))"
  by (frule channels_ok_exitD, erule channels_ok_exit) (simp_all add: deliver_open)

lemma channels_ok_drop_exit:
  "channels_ok (add_mset c T) R s \<Longrightarrow> channels_ok T R (snd (run_state (drop_exit_sender c) s))"
  by (erule channels_ok_exit) (simp_all add: drop_exit_sender_def)

lemma channels_ok_drop_response:
  "channels_ok T (add_mset c R) s \<Longrightarrow> channels_ok T R (snd (run_state (drop_response_sender c) s))"
  by (erule channels_ok_response) (simp_all add: drop_response_sender_def)

lemma send_response_open:
  assumes "oneshot_open (responses s i)"
  shows "run_state (send_response i r) s =
    ((), s\<lparr>responses := (responses s)(i := settled r (responses s i))\<rparr>)"
proof (cases "ch_receiver (responses s i)")
  case True
  then show ?thesis using oneshot_send [OF assms, of r] by (simp add: send_response_def settled_def)
next
  case False
  moreover have "(responses s i)\<lparr>ch_buf := []\<rparr> = responses s i"
    using assms by (simp add: oneshot_open_def)
  ultimately show ?thesis by (simp add: send_response_def settled_def ch_send_def)
qed

lemma channels_ok_send_response:
  "channels_ok T (add_mset c R) s \<Longrightarrow> channels_ok T R (snd (run_state (send_response c r) s))"
  by (frule channels_ok_responseD, erule channels_ok_response) (simp_all add: send_response_open)

lemma channels_ok_deliver_list:
  "channels_ok (mset (map fst ds) + T) R s \<Longrightarrow> channels_ok T R (snd (run_state (deliver_list ds) s))"
proof (induction ds arbitrary: s)
  case (Cons d ds)
  obtain c r where d: "d = (c, r)" by (cases d)
  obtain u s' where s': "run_state (deliver c r) s = (u, s')" by (cases "run_state (deliver c r) s")
  have "channels_ok (mset (map fst ds) + T) R s'"
    using channels_ok_deliver [of c "mset (map fst ds) + T" R s r] Cons.prems s' by (simp add: d)
  from Cons.IH [OF this] s' show ?case by (simp add: d)
qed simp

section \<open>The channels in the table\<close>

definition tracked_txs :: "children \<Rightarrow> nat multiset" where
  "tracked_txs ch = image_mset (\<lambda>(p, ce). ce_exit_tx ce) (mset ch)"

lemma tracked_txs_simps [simp]:
  "tracked_txs [] = {#}" "tracked_txs ((p, ce) # ch) = add_mset (ce_exit_tx ce) (tracked_txs ch)"
  by (simp_all add: tracked_txs_def)

lemma delete_absent: "map_of al p = None \<Longrightarrow> AList.delete p al = al"
  by (simp add: delete_idem map_of_eq_None_iff)

text \<open>The entries of a table without duplicate keys, as a multiset.\<close>

lemma image_mset_delete:
  "distinct (map fst al) \<Longrightarrow> map_of al p = Some v \<Longrightarrow>
   image_mset f (mset al) = add_mset (f (p, v)) (image_mset f (mset (AList.delete p al)))"
  by (induction al) (auto simp: delete_absent map_of_eq_None_iff)

lemma image_mset_update:
  "distinct (map fst al) \<Longrightarrow>
   image_mset f (mset (AList.update p v al)) = add_mset (f (p, v)) (image_mset f (mset (AList.delete p al)))"
  by (induction al) (auto simp: delete_absent map_of_eq_None_iff)

lemma tracked_txs_delete:
  "distinct (map fst ch) \<Longrightarrow> map_of ch p = Some ce \<Longrightarrow>
   tracked_txs ch = add_mset (ce_exit_tx ce) (tracked_txs (AList.delete p ch))"
  by (simp add: tracked_txs_def image_mset_delete)

lemma tracked_txs_update:
  "distinct (map fst ch) \<Longrightarrow>
   tracked_txs (AList.update p ce ch) = add_mset (ce_exit_tx ce) (tracked_txs (AList.delete p ch))"
  by (simp add: tracked_txs_def image_mset_update)

text \<open>What a debug event takes out of the table is what it answers.\<close>

lemma dispatch_children_txs:
  assumes "distinct (map fst ch)"
  shows "tracked_txs ch = mset (map fst (snd (dispatch_children ch e))) + tracked_txs (fst (dispatch_children ch e))"
    and "distinct (map fst (fst (dispatch_children ch e)))"
  using assms
  by (auto simp: dispatch_children_def tracked_txs_update distinct_update distinct_delete
      tracked_txs_delete [OF assms] split: option.splits)

section \<open>The invariant of the pump\<close>

fun queued_txs :: "pump_message list \<Rightarrow> nat multiset" where
  "queued_txs [] = {#}"
| "queued_txs (Spawn req resp # ms) = add_mset (rq_exit_tx req) (queued_txs ms)"
| "queued_txs (Shutdown # ms) = queued_txs ms"

fun queued_responses :: "pump_message list \<Rightarrow> nat multiset" where
  "queued_responses [] = {#}"
| "queued_responses (Spawn req resp # ms) = add_mset resp (queued_responses ms)"
| "queued_responses (Shutdown # ms) = queued_responses ms"

text \<open>The table has one entry for each identifier; every exit sender in the table or in a queued
  request, and every answer sender in a queued request, is the only one of its channel and has
  not been used.\<close>

definition pump_inv :: "children \<Rightarrow> ('w, 'z) pump_sys_scheme \<Rightarrow> bool" where
  "pump_inv ch s \<longleftrightarrow>
     distinct (map fst ch) \<and>
     channels_ok (tracked_txs ch + queued_txs (ch_buf (inbox s)))
       (queued_responses (ch_buf (inbox s))) s"

lemma run_deliver_list_more:
  fixes s :: "('w, 'z) pump_sys_scheme"
  shows "inbox (snd (run_state (deliver_list ds) s)) = inbox s \<and>
    calls (snd (run_state (deliver_list ds) s)) = calls s \<and>
    responses (snd (run_state (deliver_list ds) s)) = responses s"
proof (induction ds arbitrary: s)
  case (Cons d ds)
  obtain c r where d: "d = (c, r)" by (cases d)
  obtain s' where s': "run_state (deliver c r) s = ((), s')" by (metis surj_pair old.unit.exhaust)
  have "inbox s' = inbox s" "calls s' = calls s" "responses s' = responses s"
    using s' by (auto simp: deliver_def send_exit_def drop_exit_sender_def split: send_outcome.splits)
  with Cons.IH [of s'] s' show ?case by (simp add: d)
qed simp

lemma dispatch_event_inv:
  fixes s :: "('w, 'z) pump_sys_scheme"
  assumes "distinct (map fst ch)" "channels_ok (tracked_txs ch + T) R s"
    and "run_state (dispatch_event os ch e) s = ((st, ch'), t)"
  shows "distinct (map fst ch')" and "channels_ok (tracked_txs ch' + T) R t" and "inbox t = inbox s"
proof -
  obtain u where u: "os_steps (event_call e) s u"
    and t: "t = snd (run_state (deliver_list (snd (dispatch_children ch e))) u)"
    and ch': "ch' = fst (dispatch_children ch e)"
    using dispatch_event_refines [of e s os ch] assms(3) by auto
  show "distinct (map fst ch')" using dispatch_children_txs(2) [OF assms(1)] by (simp add: ch')
  have "channels_ok (mset (map fst (snd (dispatch_children ch e))) + (tracked_txs ch' + T)) R u"
    using assms(2) dispatch_children_txs(1) [OF assms(1), of e] channels_ok_steps [OF u]
    by (simp add: ch' union_assoc)
  then show "channels_ok (tracked_txs ch' + T) R t"
    unfolding t by (rule channels_ok_deliver_list)
  show "inbox t = inbox s"
    using u by (auto simp: t os_steps_def run_deliver_list_more)
qed

lemma debug_step_inv:
  fixes s :: "('w, 'z) pump_sys_scheme"
  assumes "distinct (map fst ch)" "channels_ok (tracked_txs ch + T) R s"
    and "run_state (debug_step os ch) s = (r, t)"
  obtains ch' where "r = Again ch'" "distinct (map fst ch')" "channels_ok (tracked_txs ch' + T) R t"
    "inbox t = inbox s"
proof (cases "ch = []")
  case True
  then show thesis using assms that by (auto simp: debug_step_def)
next
  case False
  obtain e w where e: "w_WaitForDebugEvent os 10 (world s) = (e, w)" by (metis surj_pair)
  let ?s = "s\<lparr>world := w, calls := calls s @ [WaitForDebugEvent 10 e]\<rparr>"
  show thesis
  proof (cases e)
    case None
    then show thesis using assms that False e by (auto simp: debug_step_def run_api)
  next
    case (Some ev)
    obtain st ch' u where d: "run_state (dispatch_event os ch ev) ?s = ((st, ch'), u)"
      by (metis surj_pair)
    have "channels_ok (tracked_txs ch + T) R ?s" using assms(2) by simp
    note inv = dispatch_event_inv [OF assms(1) this d]
    obtain b w' where b: "w_ContinueDebugEvent os (de_pid ev) (de_tid ev) st (world u) = (b, w')"
      by (metis surj_pair)
    have "r = Again ch'"
      "t = u\<lparr>world := w', calls := calls u @ [ContinueDebugEvent (de_pid ev) (de_tid ev) st b]\<rparr>"
      using assms(3) False e Some d b by (auto simp: debug_step_def run_api)
    then show thesis using that [of ch'] inv by simp
  qed
qed

lemma handle_spawn_inv:
  fixes s :: "('w, 'z) pump_sys_scheme"
  assumes "distinct (map fst ch)"
    and "channels_ok (add_mset (rq_exit_tx req) (tracked_txs ch) + T) (add_mset resp R) s"
    and "run_state (handle_spawn os ch req resp) s = (ch', t)"
  shows "distinct (map fst ch')" and "channels_ok (tracked_txs ch' + T) R t" and "inbox t = inbox s"
proof -
  obtain r u where c: "run_state (create_debugged_child os req) s = (r, u)"
    by (cases "run_state (create_debugged_child os req) s")
  obtain w cs where u: "u = s\<lparr>world := w, calls := calls s @ cs\<rparr>"
    using create_debugged_child_effect(1) [OF c] by blast
  have ok: "channels_ok (add_mset (rq_exit_tx req) (tracked_txs ch) + T) (add_mset resp R) u"
    using assms(2) by (simp add: u)
  have i: "inbox u = inbox s" by (simp add: u)
  have "distinct (map fst ch') \<and> channels_ok (tracked_txs ch' + T) R t \<and> inbox t = inbox s"
  proof (cases r)
    case (Inl e)
    define v where "v = snd (run_state (send_response resp (Inl e)) u)"
    have v: "channels_ok (add_mset (rq_exit_tx req) (tracked_txs ch + T)) R v" "inbox v = inbox s"
      using channels_ok_send_response [OF ok, of "Inl e"] channels_ok_responseD [OF ok] i
      by (simp_all add: v_def send_response_open)
    have "ch' = ch" "t = snd (run_state (drop_exit_sender (rq_exit_tx req)) v)"
      using assms(3) c Inl by (auto simp: handle_spawn_def v_def split: prod.splits)
    then show ?thesis
      using assms(1) channels_ok_drop_exit [OF v(1)] v(2) by (simp add: drop_exit_sender_def)
  next
    case (Inr pl)
    obtain pi past where pl: "pl = (pi, past)" by (cases pl)
    let ?p = "dwProcessId pi" and ?msg = "Inr \<lparr>sr_pid = dwProcessId pi, sr_process_handle = hProcess pi,
      sr_thread_handle = hThread pi\<rparr> :: io_error + spawn_response"
    let ?rest = "tracked_txs (AList.delete (dwProcessId pi) ch)"
    define v where "v = (case map_of ch ?p of Some old \<Rightarrow> snd (run_state (drop_exit_sender (ce_exit_tx old)) u)
      | None \<Rightarrow> u)"
    have v: "channels_ok (add_mset (rq_exit_tx req) (?rest + T)) (add_mset resp R) v" "inbox v = inbox s"
    proof -
      show "channels_ok (add_mset (rq_exit_tx req) (?rest + T)) (add_mset resp R) v"
      proof (cases "map_of ch ?p")
        case None
        then show ?thesis using ok by (simp add: v_def delete_absent)
      next
        case (Some old)
        then have "channels_ok (add_mset (ce_exit_tx old) (add_mset (rq_exit_tx req) (?rest + T))) (add_mset resp R) u"
          using ok tracked_txs_delete [OF assms(1) Some] by (simp add: add_mset_commute)
        from channels_ok_drop_exit [OF this] Some show ?thesis by (simp add: v_def)
      qed
      show "inbox v = inbox s" using i by (simp add: v_def drop_exit_sender_def split: option.splits)
    qed
    have "ch' = AList.update ?p (new_child_entry (hProcess pi) past (rq_affinity_mask req) (rq_exit_tx req)) ch"
      "t = snd (run_state (send_response resp ?msg) v)"
      using assms(3) c Inr pl
      by (auto simp: handle_spawn_def v_def Let_def split: prod.splits option.splits)
    then show ?thesis
      using assms(1) channels_ok_send_response [OF v(1), of ?msg] channels_ok_responseD [OF v(1)] v(2)
      by (simp add: tracked_txs_update distinct_update new_child_entry_def send_response_open)
  qed
  then show "distinct (map fst ch')" "channels_ok (tracked_txs ch' + T) R t" "inbox t = inbox s"
    by blast+
qed

section \<open>The end of the thread\<close>

definition hung_up :: "nat multiset \<Rightarrow> nat multiset \<Rightarrow> ('w, 'z) sys_scheme \<Rightarrow> bool" where
  "hung_up T R s \<longleftrightarrow>
     (\<forall>i\<in>#T. oneshot_dead (exits s i)) \<and> (\<forall>i\<in>#R. oneshot_dead (responses s i)) \<and> \<not> stuck s"

lemma drop_children_run:
  "\<exists>ex. run_state (drop_children ch) s = ((), s\<lparr>exits := ex\<rparr>) \<and>
     (\<forall>i. i \<notin># tracked_txs ch \<longrightarrow> ex i = exits s i) \<and>
     (channels_ok (tracked_txs ch + T) R s \<longrightarrow> (\<forall>i\<in>#tracked_txs ch. oneshot_dead (ex i)))"
proof (induction ch arbitrary: s T)
  case Nil
  show ?case by (rule exI [of _ "exits s"]) simp
next
  case (Cons a ch)
  obtain p ce where a: "a = (p, ce)" by (cases a)
  let ?c = "ce_exit_tx ce"
  let ?s = "s\<lparr>exits := (exits s)(?c := drop_sender (exits s ?c))\<rparr>"
  obtain ex where ex: "run_state (drop_children ch) ?s = ((), ?s\<lparr>exits := ex\<rparr>)"
    "\<forall>i. i \<notin># tracked_txs ch \<longrightarrow> ex i = exits ?s i"
    "channels_ok (tracked_txs ch + T) R ?s \<longrightarrow> (\<forall>i\<in>#tracked_txs ch. oneshot_dead (ex i))"
    using Cons.IH by blast
  have "oneshot_dead (ex ?c)" "\<forall>i\<in>#tracked_txs ch. oneshot_dead (ex i)"
    if ok: "channels_ok (tracked_txs (a # ch) + T) R s"
  proof -
    have ok': "channels_ok (add_mset ?c (tracked_txs ch + T)) R s" using ok a by simp
    note d = channels_ok_exitD [OF this]
    then show "oneshot_dead (ex ?c)" using ex(2) by (simp add: oneshot_drop)
    show "\<forall>i\<in>#tracked_txs ch. oneshot_dead (ex i)"
      using ex(3) channels_ok_exit [OF ok', of ?s] by simp
  qed
  then show ?case using ex(1,2) a
    by (intro exI [of _ ex]) (auto simp: drop_exit_sender_def)
qed

lemma drop_messages_run:
  "\<exists>ex rs. run_state (drop_messages ms) s = ((), s\<lparr>exits := ex, responses := rs\<rparr>) \<and>
     (\<forall>i. i \<notin># queued_txs ms \<longrightarrow> ex i = exits s i) \<and>
     (\<forall>i. i \<notin># queued_responses ms \<longrightarrow> rs i = responses s i) \<and>
     (channels_ok (queued_txs ms) (queued_responses ms) s \<longrightarrow>
        (\<forall>i\<in>#queued_txs ms. oneshot_dead (ex i)) \<and> (\<forall>i\<in>#queued_responses ms. oneshot_dead (rs i)))"
proof (induction ms arbitrary: s)
  case Nil
  show ?case by (rule exI [of _ "exits s"], rule exI [of _ "responses s"]) simp
next
  case (Cons m ms)
  show ?case
  proof (cases m)
    case Shutdown
    then show ?thesis using Cons.IH [of s] by simp
  next
    case (Spawn req r)
    let ?c = "rq_exit_tx req"
    let ?s = "s\<lparr>exits := (exits s)(?c := drop_sender (exits s ?c)),
      responses := (responses s)(r := drop_sender (responses s r))\<rparr>"
    obtain ex rs where ex: "run_state (drop_messages ms) ?s = ((), ?s\<lparr>exits := ex, responses := rs\<rparr>)"
      "\<forall>i. i \<notin># queued_txs ms \<longrightarrow> ex i = exits ?s i"
      "\<forall>i. i \<notin># queued_responses ms \<longrightarrow> rs i = responses ?s i"
      "channels_ok (queued_txs ms) (queued_responses ms) ?s \<longrightarrow>
        (\<forall>i\<in>#queued_txs ms. oneshot_dead (ex i)) \<and> (\<forall>i\<in>#queued_responses ms. oneshot_dead (rs i))"
      using Cons.IH [of ?s] by blast
    have "oneshot_dead (ex ?c) \<and> oneshot_dead (rs r) \<and>
      (\<forall>i\<in>#queued_txs ms. oneshot_dead (ex i)) \<and> (\<forall>i\<in>#queued_responses ms. oneshot_dead (rs i))"
      if ok: "channels_ok (queued_txs (m # ms)) (queued_responses (m # ms)) s"
    proof -
      have ok1: "channels_ok (add_mset ?c (queued_txs ms)) (add_mset r (queued_responses ms)) s"
        using ok Spawn by simp
      note d = channels_ok_exitD [OF ok1] channels_ok_responseD [OF ok1]
      have "channels_ok (queued_txs ms) (add_mset r (queued_responses ms))
          (s\<lparr>exits := (exits s)(?c := drop_sender (exits s ?c))\<rparr>)"
        by (rule channels_ok_exit [OF ok1]) simp_all
      then have "channels_ok (queued_txs ms) (queued_responses ms) ?s"
        by (rule channels_ok_response) simp_all
      then show ?thesis using d ex(2-4) by (simp add: oneshot_drop)
    qed
    then show ?thesis using ex(1-3) Spawn
      by (intro exI [of _ ex] exI [of _ rs])
        (auto simp: drop_exit_sender_def drop_response_sender_def)
  qed
qed

lemma pump_return_hangs_up:
  assumes "pump_inv ch s" "run_state (pump_return ch) s = (r, t)"
  shows "r = Returned" and "ch_receiver (inbox t) = False" and "ch_buf (inbox t) = []"
    and "hung_up (tracked_txs ch + queued_txs (ch_buf (inbox s))) (queued_responses (ch_buf (inbox s))) t"
    and "calls t = calls s"
proof -
  let ?ms = "ch_buf (inbox s)"
  have ok: "channels_ok (tracked_txs ch + queued_txs ?ms) (queued_responses ?ms) s"
    using assms(1) by (simp add: pump_inv_def)
  then have ok': "channels_ok (queued_txs ?ms) (queued_responses ?ms) s"
    and disj: "\<forall>i\<in>#tracked_txs ch. i \<notin># queued_txs ?ms"
  proof -
    show "channels_ok (queued_txs ?ms) (queued_responses ?ms) s"
      using ok unfolding channels_ok_def
      by (auto simp: le_Suc_eq dest: spec)
    have le: "count (tracked_txs ch + queued_txs ?ms) i \<le> 1" for i using ok by (auto simp: channels_ok_def)
    show "\<forall>i\<in>#tracked_txs ch. i \<notin># queued_txs ?ms"
    proof (intro ballI notI)
      fix i assume "i \<in># tracked_txs ch" "i \<in># queued_txs ?ms"
      then have "1 \<le> count (tracked_txs ch) i" "1 \<le> count (queued_txs ?ms) i"
        by (simp_all add: Suc_le_eq count_greater_zero_iff)
      with le [of i, unfolded count_union] show False by linarith
    qed
  qed
  obtain ex where ex: "run_state (drop_children ch) s = ((), s\<lparr>exits := ex\<rparr>)"
    "\<forall>i. i \<notin># tracked_txs ch \<longrightarrow> ex i = exits s i" "\<forall>i\<in>#tracked_txs ch. oneshot_dead (ex i)"
    using drop_children_run [of ch s "queued_txs ?ms" "queued_responses ?ms"] ok by blast
  let ?s = "s\<lparr>exits := ex, inbox := drop_receiver (inbox s)\<rparr>"
  have "\<forall>i\<in>#queued_txs ?ms. ex i = exits s i" using ex(2) disj by blast
  then have "channels_ok (queued_txs ?ms) (queued_responses ?ms) ?s"
    using ok' by (auto simp: channels_ok_def)
  then obtain ex' rs where d: "run_state (drop_messages ?ms) ?s = ((), ?s\<lparr>exits := ex', responses := rs\<rparr>)"
    "\<forall>i. i \<notin># queued_txs ?ms \<longrightarrow> ex' i = ex i"
    "\<forall>i\<in>#queued_txs ?ms. oneshot_dead (ex' i)" "\<forall>i\<in>#queued_responses ?ms. oneshot_dead (rs i)"
    using drop_messages_run [of ?ms ?s] by auto
  have t: "r = Returned" "t = ?s\<lparr>exits := ex', responses := rs\<rparr>"
    using assms(2) ex(1) d(1) by (auto simp: pump_return_def drop_inbox_def)
  show "r = Returned" "ch_receiver (inbox t) = False" "ch_buf (inbox t) = []" "calls t = calls s"
    using t by (simp_all add: drop_receiver_def)
  have "\<forall>i\<in>#tracked_txs ch. oneshot_dead (ex' i)" using disj d(2) ex(3) by auto
  then show "hung_up (tracked_txs ch + queued_txs ?ms) (queued_responses ?ms) t"
    using t d(3,4) ok by (auto simp: hung_up_def channels_ok_def)
qed

section \<open>Every sender is accounted for\<close>

text \<open>From \<open>s\<close> to \<open>t\<close> the senders the pump holds went from \<open>T\<close> to
  \<open>T'\<close>, every sender that is missing was dropped, and no other channel was touched.\<close>

definition accounts :: "nat multiset \<Rightarrow> nat multiset \<Rightarrow> ('w, 'z) sys_scheme \<Rightarrow> ('w, 'z) sys_scheme \<Rightarrow> bool" where
  "accounts T T' s t \<longleftrightarrow>
     (\<exists>D. T = D + T' \<and> (\<forall>i. ch_senders (exits t i) = ch_senders (exits s i) - count D i) \<and>
       (\<forall>i. i \<notin># D \<longrightarrow> exits t i = exits s i))"

lemma accounts_refl: "exits t = exits s \<Longrightarrow> accounts T T s t"
  by (auto simp: accounts_def)

lemma accounts_trans [trans]: "accounts T T' s t \<Longrightarrow> accounts T' T'' t u \<Longrightarrow> accounts T T'' s u"
  unfolding accounts_def
proof (elim exE conjE)
  fix D E
  assume "T = D + T'" "\<forall>i. ch_senders (exits t i) = ch_senders (exits s i) - count D i"
    "T' = E + T''" "\<forall>i. ch_senders (exits u i) = ch_senders (exits t i) - count E i"
    "\<forall>i. i \<notin># D \<longrightarrow> exits t i = exits s i" "\<forall>i. i \<notin># E \<longrightarrow> exits u i = exits t i"
  then show "\<exists>D. T = D + T'' \<and> (\<forall>i. ch_senders (exits u i) = ch_senders (exits s i) - count D i) \<and>
      (\<forall>i. i \<notin># D \<longrightarrow> exits u i = exits s i)"
    by (intro exI [of _ "D + E"]) (simp add: union_assoc)
qed

lemma accounts_add: "accounts T T' s t \<Longrightarrow> accounts (T + Q) (T' + Q) s t"
  unfolding accounts_def by (auto simp: union_assoc)

lemma accounts_exits:
  "accounts T T' s t \<Longrightarrow> exits s' = exits s \<Longrightarrow> exits t' = exits t \<Longrightarrow> accounts T T' s' t'"
  by (simp add: accounts_def)

lemma senders_deliver:
  "ch_senders (exits (snd (run_state (deliver c r) s)) i) = ch_senders (exits s i) - (if i = c then 1 else 0)"
  by (auto simp: deliver_def send_exit_def drop_exit_sender_def drop_sender_def ch_send_def
      split: send_outcome.splits if_splits)

lemma accounts_deliver: "accounts (add_mset c T) T s (snd (run_state (deliver c r) s))"
  unfolding accounts_def by (rule exI [of _ "{#c#}"]) (simp add: senders_deliver deliver_frame)

lemma accounts_drop_exit: "accounts (add_mset c T) T s (snd (run_state (drop_exit_sender c) s))"
  unfolding accounts_def
  by (rule exI [of _ "{#c#}"]) (auto simp: drop_exit_sender_def drop_sender_def)

lemma accounts_deliver_list:
  "accounts (mset (map fst ds) + T) T s (snd (run_state (deliver_list ds) s))"
proof (induction ds arbitrary: s)
  case Nil
  show ?case by (simp add: accounts_refl)
next
  case (Cons d ds)
  obtain c r where d: "d = (c, r)" by (cases d)
  obtain u s' where s': "run_state (deliver c r) s = (u, s')" by (cases "run_state (deliver c r) s")
  have "accounts (add_mset c (mset (map fst ds) + T)) (mset (map fst ds) + T) s s'"
    using accounts_deliver [of c "mset (map fst ds) + T" s r] s' by simp
  from accounts_trans [OF this Cons.IH [of s']] s' show ?case by (simp add: d)
qed

lemma accounts_dispatch_event:
  assumes "distinct (map fst ch)" "run_state (dispatch_event os ch e) s = ((st, ch'), t)"
  shows "accounts (tracked_txs ch) (tracked_txs ch') s t"
proof -
  obtain u where u: "os_steps (event_call e) s u"
    and t: "t = snd (run_state (deliver_list (snd (dispatch_children ch e))) u)"
    and ch': "ch' = fst (dispatch_children ch e)"
    using dispatch_event_refines [of e s os ch] assms(2) by auto
  show ?thesis
    using accounts_exits [OF accounts_deliver_list exits_os_steps [OF u, symmetric] refl]
    unfolding t ch' dispatch_children_txs(1) [OF assms(1), of e] .
qed

lemma accounts_debug_step:
  assumes "distinct (map fst ch)" "run_state (debug_step os ch) s = (Again ch', t)"
  shows "accounts (tracked_txs ch) (tracked_txs ch') s t"
proof (cases "ch = []")
  case True
  then show ?thesis using assms by (simp add: debug_step_def accounts_refl)
next
  case False
  obtain e w where e: "w_WaitForDebugEvent os 10 (world s) = (e, w)" by (metis surj_pair)
  let ?s = "s\<lparr>world := w, calls := calls s @ [WaitForDebugEvent 10 e]\<rparr>"
  show ?thesis
  proof (cases e)
    case None
    then show ?thesis using assms False e by (auto simp: debug_step_def run_api accounts_refl)
  next
    case (Some ev)
    obtain st ch1 u where d: "run_state (dispatch_event os ch ev) ?s = ((st, ch1), u)"
      by (metis surj_pair)
    have "ch' = ch1" "exits t = exits u"
      using assms(2) False e Some d by (auto simp: debug_step_def run_api split: prod.splits)
    then show ?thesis using accounts_exits [OF accounts_dispatch_event [OF assms(1) d], of s t] by simp
  qed
qed

lemma send_response_exits: "exits (snd (run_state (send_response c r) s)) = exits s"
  by (auto simp: send_response_def split: send_outcome.splits)

lemma drop_response_exits: "exits (snd (run_state (drop_response_sender c) s)) = exits s"
  by (simp add: drop_response_sender_def)

lemma accounts_handle_spawn:
  assumes "distinct (map fst ch)" "run_state (handle_spawn os ch req resp) s = (ch', t)"
  shows "accounts (add_mset (rq_exit_tx req) (tracked_txs ch)) (tracked_txs ch') s t"
proof -
  obtain r u where c: "run_state (create_debugged_child os req) s = (r, u)"
    by (cases "run_state (create_debugged_child os req) s")
  have u: "exits u = exits s" using create_debugged_child_effect(1) [OF c] by auto
  show ?thesis
  proof (cases r)
    case (Inl e)
    define v where "v = snd (run_state (send_response resp (Inl e)) u)"
    have v: "exits v = exits s" by (simp add: v_def send_response_exits u)
    have "ch' = ch" "t = snd (run_state (drop_exit_sender (rq_exit_tx req)) v)"
      using assms(2) c Inl by (auto simp: handle_spawn_def v_def split: prod.splits)
    then show ?thesis using accounts_exits [OF accounts_drop_exit v [symmetric] refl] by simp
  next
    case (Inr pl)
    obtain pi past where pl: "pl = (pi, past)" by (cases pl)
    let ?p = "dwProcessId pi" and ?msg = "Inr \<lparr>sr_pid = dwProcessId pi, sr_process_handle = hProcess pi,
      sr_thread_handle = hThread pi\<rparr> :: io_error + spawn_response"
    define v where "v = (case map_of ch ?p of Some old \<Rightarrow> snd (run_state (drop_exit_sender (ce_exit_tx old)) u)
      | None \<Rightarrow> u)"
    have ch': "ch' = AList.update ?p (new_child_entry (hProcess pi) past (rq_affinity_mask req) (rq_exit_tx req)) ch"
      and t: "t = snd (run_state (send_response resp ?msg) v)"
      using assms(2) c Inr pl
      by (auto simp: handle_spawn_def v_def Let_def split: prod.splits option.splits)
    have "accounts (tracked_txs ch) (tracked_txs (AList.delete ?p ch)) s v"
    proof (cases "map_of ch ?p")
      case None
      then show ?thesis by (simp add: v_def delete_absent accounts_refl u)
    next
      case (Some old)
      then show ?thesis using accounts_exits [OF accounts_drop_exit u [symmetric] refl]
        by (simp add: v_def tracked_txs_delete [OF assms(1) Some])
    qed
    from accounts_add [OF this, of "{#rq_exit_tx req#}"]
    have "accounts (add_mset (rq_exit_tx req) (tracked_txs ch)) (tracked_txs ch') s v"
      by (simp add: ch' tracked_txs_update [OF assms(1)] new_child_entry_def)
    then show ?thesis by (rule accounts_exits) (simp_all add: t send_response_exits)
  qed
qed

lemma accounts_drop_children: "accounts (tracked_txs ch + T) T s (snd (run_state (drop_children ch) s))"
proof (induction ch arbitrary: s)
  case Nil
  show ?case by (simp add: accounts_refl)
next
  case (Cons a ch)
  obtain p ce where a: "a = (p, ce)" by (cases a)
  obtain x s' where s': "run_state (drop_exit_sender (ce_exit_tx ce)) s = (x, s')"
    by (cases "run_state (drop_exit_sender (ce_exit_tx ce)) s")
  have "accounts (add_mset (ce_exit_tx ce) (tracked_txs ch + T)) (tracked_txs ch + T) s s'"
    using accounts_drop_exit [of "ce_exit_tx ce" "tracked_txs ch + T" s] s' by simp
  from accounts_trans [OF this Cons.IH [of s']] s' show ?case by (simp add: a)
qed

lemma accounts_drop_messages: "accounts (queued_txs ms) {#} s (snd (run_state (drop_messages ms) s))"
proof (induction ms arbitrary: s)
  case Nil
  show ?case by (simp add: accounts_refl)
next
  case (Cons m ms)
  show ?case
  proof (cases m)
    case Shutdown
    then show ?thesis using Cons.IH by simp
  next
    case (Spawn req r)
    obtain x s1 where s1: "run_state (drop_exit_sender (rq_exit_tx req)) s = (x, s1)"
      by (cases "run_state (drop_exit_sender (rq_exit_tx req)) s")
    obtain y s2 where s2: "run_state (drop_response_sender r) s1 = (y, s2)"
      by (cases "run_state (drop_response_sender r) s1")
    have "accounts (add_mset (rq_exit_tx req) (queued_txs ms)) (queued_txs ms) s s2"
      using accounts_exits [OF accounts_drop_exit [of "rq_exit_tx req" "queued_txs ms" s] refl, of s2]
        drop_response_exits [of r s1] s1 s2 by simp
    from accounts_trans [OF this Cons.IH [of s2]] s1 s2 Spawn show ?thesis by simp
  qed
qed

lemma accounts_return:
  assumes "run_state (pump_return ch) s = (r, t)"
  shows "accounts (tracked_txs ch + queued_txs (ch_buf (inbox s))) {#} s t"
proof -
  obtain x s1 where s1: "run_state (drop_children ch) s = (x, s1)" by (cases "run_state (drop_children ch) s")
  have i: "inbox s1 = inbox s"
    using drop_children_run [of ch s "{#}" "{#}"] s1 by auto
  obtain y s2 where s2: "run_state (drop_messages (ch_buf (inbox s))) (s1\<lparr>inbox := drop_receiver (inbox s)\<rparr>) = (y, s2)"
    by (metis surj_pair)
  have "t = s2" using assms s1 i s2 by (simp add: pump_return_def drop_inbox_def)
  moreover have "accounts (tracked_txs ch + queued_txs (ch_buf (inbox s))) (queued_txs (ch_buf (inbox s))) s
      (s1\<lparr>inbox := drop_receiver (inbox s)\<rparr>)"
    by (rule accounts_exits [OF accounts_drop_children [of ch _ s]]) (simp_all add: s1)
  ultimately show ?thesis
    using accounts_trans [OF _ accounts_drop_messages] s2 by (metis snd_conv)
qed

section \<open>One turn\<close>

abbreviation pump_txs :: "children \<Rightarrow> ('w, 'z) pump_sys_scheme \<Rightarrow> nat multiset" where
  "pump_txs ch s \<equiv> tracked_txs ch + queued_txs (ch_buf (inbox s))"

lemma handle_message_inv:
  assumes "distinct (map fst ch)"
    and "channels_ok (pump_txs ch s + (case msg of Some (Spawn req resp) \<Rightarrow> {#rq_exit_tx req#} | _ \<Rightarrow> {#}))
       (queued_responses (ch_buf (inbox s)) +
         (case msg of Some (Spawn req resp) \<Rightarrow> {#resp#} | _ \<Rightarrow> {#})) s"
    and "run_state (handle_message os ch msg) s = (Again ch', t)"
  shows "pump_inv ch' t" and "inbox t = inbox s"
    and "accounts (tracked_txs ch + (case msg of Some (Spawn req resp) \<Rightarrow> {#rq_exit_tx req#} | _ \<Rightarrow> {#}))
      (tracked_txs ch') s t"
proof -
  have "pump_inv ch' t \<and> inbox t = inbox s \<and>
    accounts (tracked_txs ch + (case msg of Some (Spawn req resp) \<Rightarrow> {#rq_exit_tx req#} | _ \<Rightarrow> {#}))
      (tracked_txs ch') s t"
  proof (cases msg)
    case None
    then have d: "run_state (debug_step os ch) s = (Again ch', t)" using assms(3) by (simp add: handle_message_def)
    have "channels_ok (pump_txs ch s) (queued_responses (ch_buf (inbox s))) s" using assms(2) None by simp
    then show ?thesis
      by (rule debug_step_inv [OF assms(1) _ d])
        (use accounts_debug_step [OF assms(1) d] None in \<open>simp add: pump_inv_def\<close>)
  next
    case (Some m)
    show ?thesis
    proof (cases m)
      case Shutdown
      then show ?thesis using assms(3) Some
        by (auto simp: handle_message_def pump_return_def split: prod.splits)
    next
      case (Spawn req resp)
      obtain ch1 u where h: "run_state (handle_spawn os ch req resp) s = (ch1, u)"
        by (cases "run_state (handle_spawn os ch req resp) s")
      have "channels_ok (add_mset (rq_exit_tx req) (tracked_txs ch) + queued_txs (ch_buf (inbox s)))
          (add_mset resp (queued_responses (ch_buf (inbox s)))) s"
        using assms(2) Some Spawn by simp
      note inv = handle_spawn_inv [OF assms(1) this h]
      have d: "run_state (debug_step os ch1) u = (Again ch', t)"
        using assms(3) Some Spawn h by (simp add: handle_message_def)
      have acc: "accounts (add_mset (rq_exit_tx req) (tracked_txs ch)) (tracked_txs ch') s t"
        by (rule accounts_trans [OF accounts_handle_spawn [OF assms(1) h] accounts_debug_step [OF inv(1) d]])
      show ?thesis
        by (rule debug_step_inv [OF inv(1,2) d]) (use acc inv(3) Some Spawn in \<open>simp add: pump_inv_def\<close>)
    qed
  qed
  then show "pump_inv ch' t" "inbox t = inbox s"
    "accounts (tracked_txs ch + (case msg of Some (Spawn req resp) \<Rightarrow> {#rq_exit_tx req#} | _ \<Rightarrow> {#}))
      (tracked_txs ch') s t" by blast+
qed

text \<open>What a turn takes from the queue.\<close>

lemma pump_iteration_unfold:
  "run_state (pump_iteration os ch) s =
     (case ch_buf (inbox s) of
        m # ms \<Rightarrow> run_state (handle_message os ch (Some m)) (s\<lparr>inbox := (inbox s)\<lparr>ch_buf := ms\<rparr>\<rparr>)
      | [] \<Rightarrow>
          if ch \<noteq> [] then run_state (debug_step os ch) s
          else if ch_senders (inbox s) = 0 then run_state (pump_return []) s
          else (Waiting, s))"
  by (cases "ch_buf (inbox s)")
    (auto simp: pump_iteration_def inbox_recv_def inbox_try_recv_def ch_recv_def ch_try_recv_def
      handle_message_def)

lemma debug_step_again: "run_state (debug_step os ch) s = (r, t) \<Longrightarrow> \<exists>ch'. r = Again ch'"
  by (auto simp: debug_step_def run_api split: prod.splits option.splits if_splits)

lemma handle_message_progress:
  assumes "run_state (handle_message os ch msg) s = (r, t)"
  shows "(msg = Some Shutdown \<longrightarrow> r = Returned) \<and> (msg \<noteq> Some Shutdown \<longrightarrow> (\<exists>ch'. r = Again ch'))"
  using assms
  by (auto simp: handle_message_def pump_return_def split: option.splits pump_message.splits prod.splits
      dest: debug_step_again)

lemma pump_iteration_again:
  assumes "pump_inv ch s" "run_state (pump_iteration os ch) s = (Again ch', t)"
  shows "pump_inv ch' t" and "accounts (pump_txs ch s) (pump_txs ch' t) s t"
    and "ch_buf (inbox t) = tl (ch_buf (inbox s))" and "ch_receiver (inbox t) = ch_receiver (inbox s)"
proof -
  have dist: "distinct (map fst ch)" using assms(1) by (simp add: pump_inv_def)
  have "pump_inv ch' t \<and> accounts (pump_txs ch s) (pump_txs ch' t) s t \<and>
    ch_buf (inbox t) = tl (ch_buf (inbox s)) \<and> ch_receiver (inbox t) = ch_receiver (inbox s)"
  proof (cases "ch_buf (inbox s)")
    case Nil
    then have h: "run_state (handle_message os ch None) s = (Again ch', t)"
      using assms(2) by (auto simp: pump_iteration_unfold handle_message_def pump_return_def
          split: if_splits prod.splits)
    show ?thesis
      using handle_message_inv [OF dist _ h] assms(1) Nil by (auto simp: pump_inv_def)
  next
    case (Cons m ms)
    let ?s = "s\<lparr>inbox := (inbox s)\<lparr>ch_buf := ms\<rparr>\<rparr>"
    let ?T = "case Some m of Some (Spawn req resp) \<Rightarrow> {#rq_exit_tx req#} | _ \<Rightarrow> {#}"
    let ?R = "case Some m of Some (Spawn req resp) \<Rightarrow> {#resp#} | _ \<Rightarrow> {#}"
    have h: "run_state (handle_message os ch (Some m)) ?s = (Again ch', t)"
      using assms(2) Cons by (simp add: pump_iteration_unfold)
    have q: "queued_txs (m # ms) = ?T + queued_txs ms" "queued_responses (m # ms) = ?R + queued_responses ms"
      by (cases m; simp)+
    have "channels_ok (pump_txs ch ?s + ?T) (queued_responses (ch_buf (inbox ?s)) + ?R) ?s"
      using assms(1) Cons q by (simp add: pump_inv_def ac_simps)
    note inv = handle_message_inv [OF dist this h]
    have "accounts (pump_txs ch s) (pump_txs ch' t) ?s t"
      using accounts_add [OF inv(3), of "queued_txs ms"] inv(2) q Cons by (simp add: ac_simps)
    then have "accounts (pump_txs ch s) (pump_txs ch' t) s t"
      by (rule accounts_exits) simp_all
    then show ?thesis using inv(1,2) Cons by simp
  qed
  then show "pump_inv ch' t" "accounts (pump_txs ch s) (pump_txs ch' t) s t"
    "ch_buf (inbox t) = tl (ch_buf (inbox s))" "ch_receiver (inbox t) = ch_receiver (inbox s)" by blast+
qed

lemma pump_iteration_waiting:
  assumes "run_state (pump_iteration os ch) s = (Waiting, t)"
  shows "t = s \<and> ch = [] \<and> ch_buf (inbox s) = [] \<and> ch_senders (inbox s) \<noteq> 0"
proof (cases "ch_buf (inbox s)")
  case Nil
  then show ?thesis using assms
    by (auto simp: pump_iteration_unfold debug_step_def pump_return_def run_api
        split: if_splits prod.splits option.splits)
next
  case (Cons m ms)
  then show ?thesis using assms handle_message_progress [of os ch "Some m"]
    by (fastforce simp: pump_iteration_unfold)
qed

lemma pump_iteration_returned:
  assumes "pump_inv ch s" "run_state (pump_iteration os ch) s = (Returned, t)"
  shows "hung_up (pump_txs ch s) (queued_responses (ch_buf (inbox s))) t"
    and "accounts (pump_txs ch s) {#} s t" and "ch_buf (inbox t) = []" and "\<not> ch_receiver (inbox t)"
proof -
  have "hung_up (pump_txs ch s) (queued_responses (ch_buf (inbox s))) t \<and>
    accounts (pump_txs ch s) {#} s t \<and> ch_buf (inbox t) = [] \<and> \<not> ch_receiver (inbox t)"
  proof (cases "ch_buf (inbox s)")
    case Nil
    then have e: "ch = []" "run_state (pump_return []) s = (Returned, t)"
      using assms(2) by (auto simp: pump_iteration_unfold debug_step_def run_api
          split: if_splits prod.splits option.splits)
    then show ?thesis
      using pump_return_hangs_up [of "[]" s Returned t] accounts_return [OF e(2)] assms(1) by simp
  next
    case (Cons m ms)
    let ?s = "s\<lparr>inbox := (inbox s)\<lparr>ch_buf := ms\<rparr>\<rparr>"
    have h: "run_state (handle_message os ch (Some m)) ?s = (Returned, t)"
      using assms(2) Cons by (simp add: pump_iteration_unfold)
    then have m: "m = Shutdown" using handle_message_progress [OF h] by auto
    then have r: "run_state (pump_return ch) ?s = (Returned, t)"
      using h by (simp add: handle_message_def)
    have "pump_inv ch ?s" using assms(1) Cons m by (simp add: pump_inv_def)
    then show ?thesis using pump_return_hangs_up [OF _ r] accounts_return [OF r] Cons m
      by (auto simp: accounts_def)
  qed
  then show "hung_up (pump_txs ch s) (queued_responses (ch_buf (inbox s))) t"
    "accounts (pump_txs ch s) {#} s t" "ch_buf (inbox t) = []" "\<not> ch_receiver (inbox t)" by blast+
qed

section \<open>The loop\<close>

lemma pump_loop_inv:
  assumes "pump_inv ch s" "run_state (pump_loop n os ch) s = (r, t)"
  shows "case r of
      Again ch' \<Rightarrow> pump_inv ch' t \<and> accounts (pump_txs ch s) (pump_txs ch' t) s t
    | Waiting \<Rightarrow> pump_inv [] t \<and> accounts (pump_txs ch s) {#} s t
    | Returned \<Rightarrow> accounts (pump_txs ch s) {#} s t \<and> \<not> stuck t \<and> \<not> ch_receiver (inbox t)"
  using assms
proof (induction n arbitrary: ch s)
  case 0
  then show ?case by (auto simp: accounts_refl)
next
  case (Suc n)
  obtain r1 u where u: "run_state (pump_iteration os ch) s = (r1, u)"
    by (cases "run_state (pump_iteration os ch) s")
  show ?case
  proof (cases r1)
    case (Again ch1)
    note it = pump_iteration_again [OF Suc.prems(1) u [unfolded Again]]
    have "run_state (pump_loop n os ch1) u = (r, t)" using Suc.prems(2) u Again by simp
    from Suc.IH [OF it(1) this] show ?thesis
      by (cases r) (auto intro: accounts_trans [OF it(2)])
  next
    case Waiting
    then show ?thesis using Suc.prems u pump_iteration_waiting [of os ch s u]
      by (auto simp: accounts_refl)
  next
    case Returned
    then have "r = Returned" "t = u" using Suc.prems u by auto
    then show ?thesis using pump_iteration_returned [OF Suc.prems(1) u [unfolded Returned]]
      by (simp add: hung_up_def)
  qed
qed

lemma accounts_all_gone:
  assumes "accounts T {#} s t" "channels_ok T R s" "i \<in># T"
  shows "ch_senders (exits t i) = 0"
proof -
  have "count T i \<noteq> 0" using assms(3) by (simp add: not_in_iff [symmetric])
  moreover have "ch_senders (exits s i) = 1" using assms(2,3) by (simp add: channels_ok_def oneshot_open_def)
  ultimately show ?thesis using assms(1) by (auto simp: accounts_def)
qed

lemma recv_exit_no_senders:
  "ch_senders (exits s i) = 0 \<Longrightarrow> fst (run_state (recv_exit i) s) \<noteq> Waits"
  by (auto simp: recv_exit_def ch_recv_def split: list.splits)

text \<open>C6 (no waiter is left behind): whatever the API answers, the pump never blocks in a send over any number of
  turns, and once its thread has returned or sits idle in recv, every exit channel it
  was ever responsible for has its result or has hung up: nobody waits on it for ever.\<close>

theorem pump_leaves_no_waiter:
  assumes "pump_inv ch s" "run_state (pump_loop n os ch) s = (r, t)"
  shows "\<not> stuck t \<and>
    (r \<in> {Waiting, Returned} \<longrightarrow> (\<forall>i\<in>#pump_txs ch s. fst (run_state (recv_exit i) t) \<noteq> Waits))"
proof -
  note inv = pump_loop_inv [OF assms]
  have ok: "channels_ok (pump_txs ch s) (queued_responses (ch_buf (inbox s))) s"
    using assms(1) by (simp add: pump_inv_def)
  have "\<not> stuck t" using inv by (cases r) (simp_all add: pump_inv_def channels_ok_def)
  moreover have "accounts (pump_txs ch s) {#} s t" if "r \<in> {Waiting, Returned}"
    using inv that by auto
  ultimately show ?thesis
    using accounts_all_gone [OF _ ok] recv_exit_no_senders by blast
qed

text \<open>C20 (shutdown): once Shutdown is in the queue the thread returns, after at most one turn for
  each message before it, whether or not children are still in the table; the children it was
  tracking then hang up without a result.\<close>

theorem pump_shutdown_returns:
  assumes "pump_inv ch s" "Shutdown \<in> set (ch_buf (inbox s))"
    and "length (takeWhile (\<lambda>m. m \<noteq> Shutdown) (ch_buf (inbox s))) < n"
  shows "fst (run_state (pump_loop n os ch) s) = Returned \<and>
    (hd (ch_buf (inbox s)) = Shutdown \<longrightarrow>
       (\<forall>i\<in>#pump_txs ch s. fst (run_state (recv_exit i) (snd (run_state (pump_loop n os ch) s))) = Hung_Up))"
proof
  show "fst (run_state (pump_loop n os ch) s) = Returned"
    using assms
  proof (induction n arbitrary: ch s)
    case 0
    then show ?case by simp
  next
    case (Suc n)
    obtain m ms where b: "ch_buf (inbox s) = m # ms" using Suc.prems(2) by (cases "ch_buf (inbox s)") auto
    let ?s = "s\<lparr>inbox := (inbox s)\<lparr>ch_buf := ms\<rparr>\<rparr>"
    obtain r1 u where u: "run_state (pump_iteration os ch) s = (r1, u)"
      by (cases "run_state (pump_iteration os ch) s")
    then have h: "run_state (handle_message os ch (Some m)) ?s = (r1, u)"
      using b by (simp add: pump_iteration_unfold)
    show ?case
    proof (cases "m = Shutdown")
      case True
      then show ?thesis using handle_message_progress [OF h] u by simp
    next
      case False
      then obtain ch1 where r1: "r1 = Again ch1" using handle_message_progress [OF h] by auto
      note it = pump_iteration_again [OF Suc.prems(1) u [unfolded r1]]
      have "fst (run_state (pump_loop n os ch1) u) = Returned"
        using Suc.prems(2,3) b False it(3) by (intro Suc.IH [OF it(1)]) auto
      then show ?thesis using u r1 by simp
    qed
  qed
  show "hd (ch_buf (inbox s)) = Shutdown \<longrightarrow>
    (\<forall>i\<in>#pump_txs ch s. fst (run_state (recv_exit i) (snd (run_state (pump_loop n os ch) s))) = Hung_Up)"
  proof (intro impI ballI)
    fix i assume "hd (ch_buf (inbox s)) = Shutdown" and i: "i \<in># pump_txs ch s"
    then obtain ms where b: "ch_buf (inbox s) = Shutdown # ms" using assms(2) by (cases "ch_buf (inbox s)") auto
    obtain r1 u where u: "run_state (pump_iteration os ch) s = (r1, u)"
      by (cases "run_state (pump_iteration os ch) s")
    then have "r1 = Returned" using b handle_message_progress [of os ch "Some Shutdown" _ r1 u]
      by (auto simp: pump_iteration_unfold)
    note ret = pump_iteration_returned [OF assms(1) u [unfolded this]]
    have "snd (run_state (pump_loop n os ch) s) = u"
      using assms(3) u \<open>r1 = Returned\<close> by (cases n) auto
    then show "fst (run_state (recv_exit i) (snd (run_state (pump_loop n os ch) s))) = Hung_Up"
      using ret(1) i by (simp add: hung_up_def recv_exit_def oneshot_recv_dead)
  qed
qed


definition init_pump :: "'w \<Rightarrow> pump_message list \<Rightarrow> 'w pump_sys" where
  "init_pump w ms = sys.extend (init_sys w) \<lparr>inbox = channel\<lparr>ch_buf := ms\<rparr>\<rparr>"

lemma init_pump_simps [simp]:
  "inbox (init_pump w ms) = channel\<lparr>ch_buf := ms\<rparr>" "exits (init_pump w ms) i = sync_channel 1"
  "responses (init_pump w ms) i = sync_channel 1" "stuck (init_pump w ms) = False"
  "world (init_pump w ms) = w" "calls (init_pump w ms) = []"
  by (simp_all add: init_pump_def init_sys_def sys.defs)

definition exit_event_os :: "unit win32" where
  "exit_event_os = failing_os\<lparr>
     w_WaitForDebugEvent := (\<lambda>t w. (Some \<lparr>de_pid = 1, de_tid = 9, de_payload = ExitProcessEvent 3\<rparr>, w))\<rparr>"

definition one_child :: children where
  "one_child = [(1, new_child_entry 0x10 False 0 0)]"

lemma one_child_inv: "queued_txs ms = {#} \<Longrightarrow> queued_responses ms = {#} \<Longrightarrow> pump_inv one_child (init_pump w ms)"
  by (simp add: pump_inv_def one_child_def new_child_entry_def channels_ok_def)

lemma one_child_txs: "tracked_txs one_child = {#0#}"
  by (simp add: one_child_def new_child_entry_def)

theorem pump_leaves_no_waiter_witness:
  "let t = snd (run_state (pump_loop 2 exit_event_os one_child) (init_pump () []))
   in fst (run_state (recv_exit 0) t) \<noteq> Waits"
proof -
  obtain r t where r: "run_state (pump_loop 2 exit_event_os one_child) (init_pump () []) = (r, t)"
    by (cases "run_state (pump_loop 2 exit_event_os one_child) (init_pump () [])")
  have "fst (run_state (pump_loop 2 exit_event_os one_child) (init_pump () [])) = Waiting"
    by (simp add: numeral_2_eq_2 pump_iteration_unfold channel_def one_child_def debug_step_def exit_event_os_def
        run_api dispatch_event_def deliver_def send_exit_def drop_exit_sender_def failing_os_def
        new_child_entry_def ch_send_def ch_full_def sync_channel_def)
  with r have "r = Waiting" by simp
  with pump_leaves_no_waiter [OF one_child_inv r] show ?thesis
    by (simp add: r channel_def one_child_txs)
qed

theorem pump_shutdown_returns_witness:
  "fst (run_state (recv_exit 0) (snd (run_state (pump_loop 1 (failing_os :: unit win32) one_child)
     (init_pump () [Shutdown])))) = Hung_Up"
  using pump_shutdown_returns [OF one_child_inv, of "[Shutdown]" "()" 1 failing_os]
  by (simp add: one_child_def new_child_entry_def del: pump_loop.simps)

section \<open>What the pump asks of the debug API\<close>

fun debug_step_of :: "call \<Rightarrow> (pid \<times> u32 \<times> bool) list" where
  "debug_step_of (WaitForDebugEvent t (Some e)) = [(de_pid e, de_tid e, True)]"
| "debug_step_of (ContinueDebugEvent p t st b) = [(p, t, False)]"
| "debug_step_of _ = []"

text \<open>The events received (\<open>True\<close>) and continued (\<open>False\<close>), in the order of the calls.\<close>

definition debug_trace :: "call list \<Rightarrow> (pid \<times> u32 \<times> bool) list" where
  "debug_trace cs = concat (map debug_step_of cs)"

text \<open>Each event is continued before the next one is asked for.\<close>

definition in_turn :: "(pid \<times> u32) list \<Rightarrow> (pid \<times> u32 \<times> bool) list" where
  "in_turn D = concat (map (\<lambda>(p, t). [(p, t, True), (p, t, False)]) D)"

definition spawned_handles :: "call list \<Rightarrow> handle list" where
  "spawned_handles cs =
     concat (map (\<lambda>(a, made, pi). if made then [hProcess pi, hThread pi] else []) (creations cs))"

definition orderly :: "call list \<Rightarrow> bool" where
  "orderly cs \<longleftrightarrow> (\<exists>D. debug_trace cs = in_turn D) \<and> attr_lists cs = 0 \<and>
     (\<forall>h. ledger cs h = owned (spawned_handles cs) h)"

lemma in_turn_append: "in_turn (D @ E) = in_turn D @ in_turn E"
  by (simp add: in_turn_def)

lemma debug_trace_simps [simp]:
  "debug_trace [] = []" "debug_trace (c # cs) = debug_step_of c @ debug_trace cs"
  "debug_trace (cs @ ds) = debug_trace cs @ debug_trace ds"
  by (simp_all add: debug_trace_def)

lemma spawned_handles_simps [simp]:
  "spawned_handles [] = []" "spawned_handles (cs @ ds) = spawned_handles cs @ spawned_handles ds"
  by (simp_all add: spawned_handles_def)

lemma orderly_Nil [simp]: "orderly []"
  by (auto simp: orderly_def in_turn_def intro: exI [of _ "[]"])

lemma orderly_append: "orderly cs \<Longrightarrow> orderly ds \<Longrightarrow> orderly (cs @ ds)"
  unfolding orderly_def by (auto simp: in_turn_append [symmetric])

lemma quiet_trace: "\<forall>c\<in>set cs. quiet c \<Longrightarrow> debug_trace cs = [] \<and> spawned_handles cs = []"
proof (induction cs)
  case (Cons c cs)
  then have "creations (c # cs) = []" by (intro creations_quiet) simp
  then show ?case using Cons by (cases c) (auto simp: quiet_def spawned_handles_def)
qed simp


text \<open>The file handle an event brings.\<close>

definition event_files :: "debug_event \<Rightarrow> handle list" where
  "event_files e = (case de_payload e of CreateProcessEvent h \<Rightarrow> [h] | LoadDllEvent h \<Rightarrow> [h] | _ \<Rightarrow> [])"

lemma spawned_handles_Cons [simp]:
  "spawned_handles (c # cs) =
     concat (map (\<lambda>(a, made, pi). if made then [hProcess pi, hThread pi] else []) (creation c)) @
     spawned_handles cs"
  by (simp add: spawned_handles_def)

lemma event_call_trace:
  "\<forall>c\<in>set cs. event_call e c \<Longrightarrow> debug_trace cs = [] \<and> spawned_handles cs = [] \<and> attr_lists cs = 0"
proof (induction cs)
  case (Cons c cs)
  then have "event_call e c" by simp
  then have "debug_step_of c = []" "creation c = []" "attr_delta c = 0"
    by (auto simp: event_call_def split: debug_payload.splits)
  then show ?case using Cons by simp
qed simp

lemma event_call_neutral:
  "event_call e c \<Longrightarrow> event_files e = [] \<Longrightarrow> neutral c"
  by (auto simp: event_call_def event_files_def neutral_def split: debug_payload.splits)

lemma dispatch_event_calls:
  fixes s :: "('w, 'z) pump_sys_scheme"
  assumes "run_state (dispatch_event os ch e) s = (r, t)"
  shows "\<exists>cs. calls t = calls s @ cs \<and> (\<forall>c\<in>set cs. event_call e c) \<and>
    (\<forall>h. ledger cs h = - owned (event_files e) h)"
proof -
  obtain u where u: "os_steps (event_call e) s u"
    and t: "t = snd (run_state (deliver_list (snd (dispatch_children ch e))) u)"
    using dispatch_event_refines [of e s os ch] assms by auto
  obtain cs where cs: "calls u = calls s @ cs" "\<forall>c\<in>set cs. event_call e c"
    using u by (auto simp: os_steps_def)
  have c: "calls t = calls s @ cs" using cs(1) by (simp add: t run_deliver_list_more)
  have "ledger cs h = - owned (event_files e) h" for h
  proof (cases "event_files e = []")
    case True
    then have "\<forall>c\<in>set cs. neutral c" using cs(2) event_call_neutral by blast
    then show ?thesis using True by (simp add: ledger_neutral)
  next
    case False
    then obtain g where g: "de_payload e = CreateProcessEvent g \<or> de_payload e = LoadDllEvent g" "event_files e = [g]"
      by (auto simp: event_files_def split: debug_payload.splits)
    obtain x v where x: "run_state (close_event_file os g) s = (x, v)"
      by (cases "run_state (close_event_file os g) s")
    have "calls t = calls v" using assms g(1) x by (auto simp: dispatch_event_def)
    then have "held t h = held s h - owned [g] h" using close_event_file_steps(2) [OF x] by simp
    then show ?thesis using c g(2) by simp
  qed
  then show ?thesis using c cs(2) by blast
qed

lemma orderly_silent:
  "debug_trace cs = [] \<Longrightarrow> attr_lists cs = 0 \<Longrightarrow> \<forall>h. ledger cs h = owned (spawned_handles cs) h \<Longrightarrow> orderly cs"
  unfolding orderly_def in_turn_def by (auto intro: exI [of _ "[]"])

lemma debug_step_orderly:
  fixes s :: "('w, 'z) pump_sys_scheme"
  assumes "run_state (debug_step os ch) s = (r, t)"
  shows "\<exists>cs. calls t = calls s @ cs \<and> orderly cs"
proof (cases "ch = []")
  case True
  then show ?thesis using assms by (intro exI [of _ "[]"]) (simp add: debug_step_def)
next
  case False
  obtain e w where e: "w_WaitForDebugEvent os 10 (world s) = (e, w)" by (metis surj_pair)
  let ?s = "s\<lparr>world := w, calls := calls s @ [WaitForDebugEvent 10 e]\<rparr>"
  show ?thesis
  proof (cases e)
    case None
    then have "calls t = calls s @ [WaitForDebugEvent 10 None]"
      using assms False e by (auto simp: debug_step_def run_api)
    moreover have "orderly [WaitForDebugEvent 10 None]"
      by (rule orderly_silent) simp_all
    ultimately show ?thesis by blast
  next
    case (Some ev)
    obtain st ch1 u where d: "run_state (dispatch_event os ch ev) ?s = ((st, ch1), u)"
      by (metis surj_pair)
    obtain cs where cs: "calls u = calls ?s @ cs" "\<forall>c\<in>set cs. event_call ev c"
      "\<forall>h. ledger cs h = - owned (event_files ev) h"
      using dispatch_event_calls [OF d] by blast
    obtain b w' where b: "w_ContinueDebugEvent os (de_pid ev) (de_tid ev) st (world u) = (b, w')"
      by (metis surj_pair)
    let ?cs = "[WaitForDebugEvent 10 (Some ev)] @ cs @ [ContinueDebugEvent (de_pid ev) (de_tid ev) st b]"
    have "calls t = calls s @ ?cs"
      using assms False e Some d b cs(1) by (auto simp: debug_step_def run_api)
    moreover have "orderly ?cs"
      unfolding orderly_def
    proof (intro conjI allI exI)
      show "debug_trace ?cs = in_turn [(de_pid ev, de_tid ev)]"
        using event_call_trace [OF cs(2)] by (simp add: in_turn_def)
      show "attr_lists ?cs = 0" using event_call_trace [OF cs(2)] by simp
      show "ledger ?cs h = owned (spawned_handles ?cs) h" for h
        using event_call_trace [OF cs(2)] cs(3)
        by (auto simp: event_files_def split: debug_payload.splits)
    qed
    ultimately show ?thesis by blast
  qed
qed

lemma create_impl_orderly:
  assumes "run_state (create_process_impl os app cmd env dir job i u e stdio inherit debug) s = (r, t)"
  shows "\<exists>cs. calls t = calls s @ cs \<and> orderly cs"
  using assms
proof (cases rule: create_process_impl_cases)
  case (no_process w cs err)
  then show ?thesis using quiet_trace [of cs] ledger_quiet [of cs]
    by (intro exI [of _ cs]) (auto intro: orderly_silent)
next
  case (refused w as bs err pi)
  let ?cs = "as @ [CreateProcess (process_args app cmd env dir job
    (if stdio then Some (i, u, e) else None) inherit debug) (False, pi)] @ bs"
  have "orderly ?cs"
    using refused(3,4) quiet_trace [of as] quiet_trace [of bs] ledger_quiet [of as] ledger_quiet [of bs]
    by (intro orderly_silent) auto
  then show ?thesis using refused(2) by (intro exI [of _ ?cs]) simp
next
  case (created w as bs pi)
  let ?cs = "as @ [CreateProcess (process_args app cmd env dir job
    (if stdio then Some (i, u, e) else None) inherit debug) (True, pi)] @ bs"
  have "orderly ?cs"
    using created(3,4) quiet_trace [of as] quiet_trace [of bs] ledger_quiet [of as] ledger_quiet [of bs]
    by (intro orderly_silent) auto
  then show ?thesis using created(2) by (intro exI [of _ ?cs]) simp
qed

lemma create_debugged_child_orderly:
  assumes "run_state (create_debugged_child os req) s = (r, t)"
  shows "\<exists>cs. calls t = calls s @ cs \<and> orderly cs"
proof -
  obtain r' where "run_state (create_process_impl os (rq_application_name req) (rq_command_line req)
      (rq_environment req) (rq_current_directory req) (rq_job_handle req) (rq_stdin_handle req)
      (rq_stdout_handle req) (rq_stderr_handle req) (rq_use_stdio_handles req)
      (rq_inherit_handles req) True) s = (r', t)"
    using assms by (auto simp: create_debugged_child_def split: prod.splits sum.splits)
  then show ?thesis by (rule create_impl_orderly)
qed

lemma handle_spawn_orderly:
  assumes "run_state (handle_spawn os ch req resp) s = (ch', t)"
  shows "\<exists>cs. calls t = calls s @ cs \<and> orderly cs"
proof -
  obtain r u where c: "run_state (create_debugged_child os req) s = (r, u)"
    by (cases "run_state (create_debugged_child os req) s")
  have "calls t = calls u"
    using assms c
    by (auto simp: handle_spawn_def send_response_def drop_exit_sender_def Let_def
        split: sum.splits option.splits send_outcome.splits)
  then show ?thesis using create_debugged_child_orderly [OF c] by simp
qed

lemma drop_messages_calls: "calls (snd (run_state (drop_messages ms) s)) = calls s"
  using drop_messages_run [of ms s] by auto

lemma drop_children_calls: "calls (snd (run_state (drop_children ch) s)) = calls s"
  using drop_children_run [of ch s "{#}" "{#}"] by auto

lemma pump_return_calls: "calls (snd (run_state (pump_return ch) s)) = calls s"
proof -
  obtain x s1 where s1: "run_state (drop_children ch) s = (x, s1)" by (cases "run_state (drop_children ch) s")
  let ?s = "s1\<lparr>inbox := drop_receiver (inbox s1)\<rparr>"
  obtain y s2 where s2: "run_state (drop_messages (ch_buf (inbox s1))) ?s = (y, s2)" by (metis surj_pair)
  have "calls s1 = calls s" using drop_children_calls [of ch s] s1 by simp
  moreover have "calls s2 = calls ?s" using drop_messages_calls [of "ch_buf (inbox s1)" ?s] s2 by simp
  ultimately show ?thesis using s1 s2 by (simp add: pump_return_def drop_inbox_def)
qed

lemma pump_iteration_orderly:
  assumes "run_state (pump_iteration os ch) s = (r, t)"
  shows "\<exists>cs. calls t = calls s @ cs \<and> orderly cs"
proof -
  have message: "\<exists>cs. calls t' = calls s' @ cs \<and> orderly cs"
    if h: "run_state (handle_message os ch (Some m)) s' = (r, t')" for m s' t'
  proof (cases m)
    case Shutdown
    then show ?thesis using h pump_return_calls [of ch s']
      by (intro exI [of _ "[]"]) (simp add: handle_message_def)
  next
    case (Spawn req resp)
    obtain ch1 u where 1: "run_state (handle_spawn os ch req resp) s' = (ch1, u)"
      by (cases "run_state (handle_spawn os ch req resp) s'")
    have 2: "run_state (debug_step os ch1) u = (r, t')"
      using h Spawn 1 by (simp add: handle_message_def)
    obtain cs ds where "calls u = calls s' @ cs" "orderly cs" "calls t' = calls u @ ds" "orderly ds"
      using handle_spawn_orderly [OF 1] debug_step_orderly [OF 2] by blast
    then show ?thesis by (intro exI [of _ "cs @ ds"]) (simp add: orderly_append)
  qed
  show ?thesis
  proof (cases "ch_buf (inbox s)")
    case Nil
    then show ?thesis
      using assms debug_step_orderly [of os ch s r t] pump_return_calls [of "[]" s]
      by (auto simp: pump_iteration_unfold split: if_splits intro: exI [of _ "[]"])
  next
    case (Cons m ms)
    then show ?thesis using assms message [of m "s\<lparr>inbox := (inbox s)\<lparr>ch_buf := ms\<rparr>\<rparr>" t]
      by (simp add: pump_iteration_unfold)
  qed
qed

lemma pump_loop_orderly:
  assumes "run_state (pump_loop n os ch) s = (r, t)"
  shows "\<exists>cs. calls t = calls s @ cs \<and> orderly cs"
  using assms
proof (induction n arbitrary: ch s)
  case 0
  then show ?case by (intro exI [of _ "[]"]) simp
next
  case (Suc n)
  obtain r1 u where u: "run_state (pump_iteration os ch) s = (r1, u)"
    by (cases "run_state (pump_iteration os ch) s")
  obtain cs where cs: "calls u = calls s @ cs" "orderly cs" using pump_iteration_orderly [OF u] by blast
  show ?case
  proof (cases "\<exists>ch1. r1 = Again ch1")
    case True
    then obtain ch1 where "run_state (pump_loop n os ch1) u = (r, t)" using Suc.prems u by auto
    from Suc.IH [OF this] cs show ?thesis by (metis append.assoc orderly_append)
  next
    case False
    then have "t = u" using Suc.prems u by (cases r1) auto
    then show ?thesis using cs by blast
  qed
qed

text \<open>C10 (debug API discipline): over any number of turns the pump continues every debug event it receives exactly
  once, with that event's process and thread, before it asks for the next one; it closes every
  file handle the events bring, keeps no handle but the process and thread handles of the
  children it created for its callers, and frees every attribute list.\<close>

theorem pump_loop_discipline:
  assumes "run_state (pump_loop n os ch) s = (r, t)"
  shows "\<exists>cs D. calls t = calls s @ cs \<and> debug_trace cs = in_turn D \<and> attr_lists cs = 0 \<and>
    (\<forall>h. ledger cs h = owned (spawned_handles cs) h)"
  using pump_loop_orderly [OF assms] by (auto simp: orderly_def)

theorem pump_loop_discipline_witness:
  "let t = snd (run_state (pump_loop 2 exit_event_os one_child) (init_pump () []))
   in \<exists>D. debug_trace (calls t) = in_turn D"
proof -
  obtain r t where r: "run_state (pump_loop 2 exit_event_os one_child) (init_pump () []) = (r, t)"
    by (cases "run_state (pump_loop 2 exit_event_os one_child) (init_pump () [])")
  from pump_loop_discipline [OF r] r show ?thesis by auto
qed

section \<open>The events of the loop\<close>

text \<open>The debug events received, read off the log. With nothing in its queue the loop does to its
  table and to the exit channels what \<open>dispatch_all\<close> does with the events it receives; the waits and
  continuations lie in between.\<close>

fun event_of :: "call \<Rightarrow> debug_event list" where
  "event_of (WaitForDebugEvent t (Some e)) = [e]"
| "event_of _ = []"

definition events_received :: "call list \<Rightarrow> debug_event list" where
  "events_received cs = concat (map event_of cs)"

lemma events_received_simps [simp]:
  "events_received [] = []" "events_received (c # cs) = event_of c @ events_received cs"
  "events_received (cs @ ds) = events_received cs @ events_received ds"
  by (simp_all add: events_received_def)

lemma event_call_received: "\<forall>c\<in>set cs. event_call e c \<Longrightarrow> events_received cs = []"
proof (induction cs)
  case (Cons c cs)
  then have "event_of c = []" by (cases c) (auto simp: event_call_def split: debug_payload.splits)
  then show ?case using Cons by simp
qed simp

lemma deliver_exits: "exits s = exits s' \<Longrightarrow>
  exits (snd (run_state (deliver c r) s)) = exits (snd (run_state (deliver c r) s'))"
  by (auto simp: deliver_def send_exit_def drop_exit_sender_def split: send_outcome.splits)

lemma deliver_list_exits: "exits s = exits s' \<Longrightarrow>
  exits (snd (run_state (deliver_list ds) s)) = exits (snd (run_state (deliver_list ds) s'))"
proof (induction ds arbitrary: s s')
  case (Cons d ds)
  obtain c r where d: "d = (c, r)" by (cases d)
  obtain t t' where t: "run_state (deliver c r) s = ((), t)" "run_state (deliver c r) s' = ((), t')"
    by (metis surj_pair old.unit.exhaust)
  then have "exits t = exits t'" using deliver_exits [OF Cons.prems, of c r] by simp
  then show ?case using Cons.IH [of t t'] t by (simp add: d)
qed simp

lemma dispatch_event_exits:
  "exits s = exits s' \<Longrightarrow>
   exits (snd (run_state (dispatch_event os ch e) s)) = exits (snd (run_state (dispatch_event os ch e) s'))"
  using dispatch_event_refines [of e s os ch] dispatch_event_refines [of e s' os ch]
  by (auto dest!: exits_os_steps intro!: deliver_list_exits)

lemma dispatch_all_exits:
  "exits s = exits s' \<Longrightarrow>
   fst (run_state (dispatch_all os ch es) s) = fst (run_state (dispatch_all os ch es) s') \<and>
   exits (snd (run_state (dispatch_all os ch es) s)) = exits (snd (run_state (dispatch_all os ch es) s'))"
proof (induction es arbitrary: ch s s')
  case (Cons e es)
  show ?case unfolding run_dispatch_all_Cons
    by (rule Cons.IH [OF dispatch_event_exits [OF Cons.prems]])
qed simp

lemma debug_step_events:
  fixes s :: "('w, 'z) pump_sys_scheme"
  assumes "run_state (debug_step os ch) s = (r, t)"
  shows "inbox t = inbox s \<and> (\<exists>cs. calls t = calls s @ cs \<and>
    r = Again (fst (run_state (dispatch_all os ch (events_received cs)) s)) \<and>
    exits t = exits (snd (run_state (dispatch_all os ch (events_received cs)) s)))"
proof (cases "ch = []")
  case True
  then show ?thesis using assms by (intro conjI exI [of _ "[]"]) (auto simp: debug_step_def)
next
  case False
  obtain e w where e: "w_WaitForDebugEvent os 10 (world s) = (e, w)" by (metis surj_pair)
  let ?s = "s\<lparr>world := w, calls := calls s @ [WaitForDebugEvent 10 e]\<rparr>"
  show ?thesis
  proof (cases e)
    case None
    then show ?thesis using assms False e
      by (intro conjI exI [of _ "[WaitForDebugEvent 10 None]"]) (auto simp: debug_step_def run_api)
  next
    case (Some ev)
    obtain st ch1 u where d: "run_state (dispatch_event os ch ev) ?s = ((st, ch1), u)"
      by (metis surj_pair)
    obtain cs where cs: "calls u = calls ?s @ cs" "\<forall>c\<in>set cs. event_call ev c"
      using dispatch_event_calls [OF d] by blast
    obtain v where v: "os_steps (event_call ev) ?s v" "u = snd (run_state (deliver_list (snd (dispatch_children ch ev))) v)"
      using dispatch_event_refines [of ev ?s os ch] d by auto
    have i: "inbox u = inbox s" using v by (auto simp: os_steps_def run_deliver_list_more)
    obtain b w' where b: "w_ContinueDebugEvent os (de_pid ev) (de_tid ev) st (world u) = (b, w')"
      by (metis surj_pair)
    let ?cs = "[WaitForDebugEvent 10 (Some ev)] @ cs @ [ContinueDebugEvent (de_pid ev) (de_tid ev) st b]"
    have r: "r = Again ch1" "t = u\<lparr>world := w', calls := calls u @ [ContinueDebugEvent (de_pid ev) (de_tid ev) st b]\<rparr>"
      using assms False e Some d b by (auto simp: debug_step_def run_api)
    have "events_received ?cs = [ev]" using event_call_received [OF cs(2)] by simp
    moreover have "run_state (dispatch_all os ch [ev]) s = (ch1, snd (run_state (dispatch_event os ch ev) s))"
      using dispatch_event_result [of os ch ev s] dispatch_event_result [of os ch ev ?s] d
      by (simp add: run_dispatch_all_Cons)
    moreover have "exits u = exits (snd (run_state (dispatch_event os ch ev) s))"
      using dispatch_event_exits [of ?s s os ch ev] d by simp
    ultimately show ?thesis using r cs(1) i Some
      by (intro conjI exI [of _ ?cs]) simp_all
  qed
qed

lemma pump_loop_events:
  fixes s :: "('w, 'z) pump_sys_scheme"
  assumes "run_state (pump_loop n os ch) s = (Again ch', t)" "ch_buf (inbox s) = []"
  shows "\<exists>cs u. calls t = calls s @ cs \<and> run_state (dispatch_all os ch (events_received cs)) s = (ch', u) \<and>
    exits u = exits t"
  using assms
proof (induction n arbitrary: ch s)
  case 0
  then show ?case by (intro exI [of _ "[]"]) auto
next
  case (Suc n)
  obtain r1 s1 where 1: "run_state (pump_iteration os ch) s = (r1, s1)" by (metis surj_pair)
  obtain ch1 where r1: "r1 = Again ch1" "run_state (pump_loop n os ch1) s1 = (Again ch', t)"
    using Suc.prems(1) 1 by (cases r1) auto
  have "ch \<noteq> []"
  proof
    assume "ch = []"
    then have "r1 = Waiting \<or> r1 = Returned"
      using 1 Suc.prems(2) by (auto simp: pump_iteration_unfold pump_return_def split: if_splits prod.splits)
    then show False using r1 by simp
  qed
  then have d: "run_state (debug_step os ch) s = (Again ch1, s1)"
    using 1 Suc.prems(2) r1(1) by (simp add: pump_iteration_unfold)
  obtain cs where cs: "inbox s1 = inbox s" "calls s1 = calls s @ cs"
    "ch1 = fst (run_state (dispatch_all os ch (events_received cs)) s)"
    "exits s1 = exits (snd (run_state (dispatch_all os ch (events_received cs)) s))"
    using debug_step_events [OF d] by auto
  obtain ds u where ds: "calls t = calls s1 @ ds" "run_state (dispatch_all os ch1 (events_received ds)) s1 = (ch', u)"
    "exits u = exits t" using Suc.IH [OF r1(2)] Suc.prems(2) cs(1) by auto
  let ?m = "snd (run_state (dispatch_all os ch (events_received cs)) s)"
  have "run_state (dispatch_all os ch (events_received (cs @ ds))) s = run_state (dispatch_all os ch1 (events_received ds)) ?m"
    using cs(3) by (simp add: run_dispatch_all_append split: prod.split)
  then show ?case using ds dispatch_all_exits [OF cs(4), of os ch1 "events_received ds"] cs(2)
    by (intro exI [of _ "cs @ ds"] exI [of _ "snd (run_state (dispatch_all os ch1 (events_received ds)) ?m)"])
      (auto simp: prod_eq_iff)
qed

section \<open>Spawning through the pump\<close>

lemma event_call_creation: "event_call e c \<Longrightarrow> creation c = []"
  by (auto simp: event_call_def split: debug_payload.splits)

lemma debug_step_responses:
  fixes s :: "('w, 'z) pump_sys_scheme"
  assumes "run_state (debug_step os ch) s = (r, t)"
  shows "responses t = responses s" and "creations (calls t) = creations (calls s)"
proof -
  have d: "responses v = responses u \<and> creations (calls v) = creations (calls u)"
    if r: "run_state (dispatch_event os ch e) u = (x, v)" for e x and u v :: "('w, 'z) pump_sys_scheme"
  proof -
    obtain u' where u': "os_steps (event_call e) u u'"
      and v: "v = snd (run_state (deliver_list (snd (dispatch_children ch e))) u')"
      using dispatch_event_refines [of e u os ch] r by auto
    obtain w cs where cs: "u' = u\<lparr>world := w, calls := calls u @ cs\<rparr>" "\<forall>c\<in>set cs. event_call e c"
      using u' by (auto simp: os_steps_def)
    have "\<forall>c\<in>set cs. creation c = []"
      using cs(2) event_call_creation by blast
    then have "creations cs = []" by (simp add: creations_def)
    then show ?thesis by (simp add: v run_deliver_list_more cs(1))
  qed
  have "responses t = responses s \<and> creations (calls t) = creations (calls s)"
    using assms by (auto simp: debug_step_def run_api split: if_splits prod.splits option.splits dest!: d)
  then show "responses t = responses s" "creations (calls t) = creations (calls s)" by blast+
qed

text \<open>The processes made, with what was asked for.\<close>

definition made_processes :: "call list \<Rightarrow> (create_args \<times> process_information) list" where
  "made_processes cs = concat (map (\<lambda>(a, made, pi). if made then [(a, pi)] else []) (creations cs))"

lemma create_debugged_child_failed:
  assumes "run_state (create_debugged_child os req) s = (Inl e, t)"
  shows "made_processes (calls t) = made_processes (calls s)"
proof -
  have "run_state (create_process_impl os (rq_application_name req) (rq_command_line req)
      (rq_environment req) (rq_current_directory req) (rq_job_handle req) (rq_stdin_handle req)
      (rq_stdout_handle req) (rq_stderr_handle req) (rq_use_stdio_handles req)
      (rq_inherit_handles req) True) s = (Inl e, t)"
    using assms by (auto simp: create_debugged_child_def split: prod.splits sum.splits)
  then show ?thesis by (cases rule: create_process_impl_cases) (auto simp: creations_quiet made_processes_def)
qed

lemma made_processes_append: "made_processes (cs @ ds) = made_processes cs @ made_processes ds"
  by (simp add: made_processes_def)

text \<open>Creating a process makes no call of the debug loop.\<close>

lemma create_debugged_child_calls:
  assumes "run_state (create_debugged_child os req) s = (r, t)"
  shows "\<exists>cs. calls t = calls s @ cs \<and> (\<forall>c\<in>set cs. \<not> debugger_call c) \<and>
    (\<forall>x. r = Inr x \<longrightarrow> made_processes cs \<noteq> [])"
proof -
  obtain r' where c: "run_state (create_process_impl os (rq_application_name req) (rq_command_line req)
      (rq_environment req) (rq_current_directory req) (rq_job_handle req) (rq_stdin_handle req)
      (rq_stdout_handle req) (rq_stderr_handle req) (rq_use_stdio_handles req)
      (rq_inherit_handles req) True) s = (r', t)" "\<forall>e. r' = Inl e \<longrightarrow> r = Inl e"
    using assms by (auto simp: create_debugged_child_def split: prod.splits sum.splits)
  from c(1) show ?thesis
  proof (cases rule: create_process_impl_cases)
    case (no_process w cs e)
    then show ?thesis using c(2) by (intro exI [of _ cs]) (auto simp: quiet_def)
  next
    case (refused w as bs e pi)
    from refused(2) obtain a where "calls t = calls s @ as @ [CreateProcess a (False, pi)] @ bs" by simp
    then show ?thesis using refused(1,3) c(2)
      by (intro exI [of _ "as @ [CreateProcess a (False, pi)] @ bs"]) (auto simp: quiet_def)
  next
    case (created w as bs pi)
    from created(2) obtain a where "calls t = calls s @ as @ [CreateProcess a (True, pi)] @ bs" by simp
    then show ?thesis using created(3)
      by (intro exI [of _ "as @ [CreateProcess a (True, pi)] @ bs"])
        (auto simp: quiet_def made_processes_def creations_def)
  qed
qed

text \<open>A turn that starts with an empty table: either a process is made, or the table stays empty and
  the debug loop is left alone.\<close>

lemma empty_turn:
  assumes "run_state (pump_iteration os []) s = (r, t)"
  shows "\<exists>cs. calls t = calls s @ cs \<and>
    (made_processes cs = [] \<longrightarrow> (\<forall>c\<in>set cs. \<not> debugger_call c) \<and> (\<forall>ch. r = Again ch \<longrightarrow> ch = []))"
proof (cases "ch_buf (inbox s)")
  case Nil
  then show ?thesis using assms pump_return_calls [of "[]" s]
    by (intro exI [of _ "[]"]) (auto simp: pump_iteration_unfold pump_return_def split: if_splits prod.splits)
next
  case (Cons m ms)
  let ?s = "s\<lparr>inbox := (inbox s)\<lparr>ch_buf := ms\<rparr>\<rparr>"
  have h: "run_state (handle_message os [] (Some m)) ?s = (r, t)"
    using assms Cons by (simp add: pump_iteration_unfold)
  show ?thesis
  proof (cases m)
    case Shutdown
    then show ?thesis using h pump_return_calls [of "[]" ?s]
      by (intro exI [of _ "[]"]) (auto simp: handle_message_def pump_return_def split: prod.splits)
  next
    case (Spawn req resp)
    obtain x u where c: "run_state (create_debugged_child os req) ?s = (x, u)" by (metis surj_pair)
    obtain cs where cs: "calls u = calls ?s @ cs" "\<forall>c\<in>set cs. \<not> debugger_call c"
      "\<forall>y. x = Inr y \<longrightarrow> made_processes cs \<noteq> []" using create_debugged_child_calls [OF c] by blast
    obtain ch1 v where 1: "run_state (handle_spawn os [] req resp) ?s = (ch1, v)" by (metis surj_pair)
    have v: "calls v = calls u" "\<forall>e. x = Inl e \<longrightarrow> ch1 = []"
      using 1 c by (auto simp: handle_spawn_def send_response_def drop_exit_sender_def Let_def
          split: sum.splits option.splits send_outcome.splits)
    have d: "run_state (debug_step os ch1) v = (r, t)"
      using h Spawn 1 by (simp add: handle_message_def)
    show ?thesis
    proof (cases x)
      case (Inl e)
      then show ?thesis using v d cs by (intro exI [of _ cs]) (auto simp: debug_step_def)
    next
      case (Inr y)
      obtain ds where "calls t = calls v @ ds" using debug_step_orderly [OF d] by blast
      then show ?thesis using v(1) cs Inr
        by (intro exI [of _ "cs @ ds"]) (simp add: made_processes_append)
    qed
  qed
qed

text \<open>C39 (no table, no events): from an empty table on, whatever messages the pump handles and over any
  number of turns, as long as no process is made it makes no call of the debug loop, failed spawns
  included, and its table stays empty: whatever events of untracked debuggees are pending stay pending.\<close>

theorem pump_idle_without_children:
  assumes "run_state (pump_loop n os []) s = (r, t)" "made_processes (calls t) = made_processes (calls s)"
  shows "\<exists>cs. calls t = calls s @ cs \<and> (\<forall>c\<in>set cs. \<not> debugger_call c) \<and> (\<forall>ch. r = Again ch \<longrightarrow> ch = [])"
  using assms
proof (induction n arbitrary: s)
  case 0
  then show ?case by (intro exI [of _ "[]"]) auto
next
  case (Suc n)
  obtain r1 u where u: "run_state (pump_iteration os []) s = (r1, u)" by (metis surj_pair)
  obtain cs where cs: "calls u = calls s @ cs"
    "made_processes cs = [] \<longrightarrow> (\<forall>c\<in>set cs. \<not> debugger_call c) \<and> (\<forall>ch. r1 = Again ch \<longrightarrow> ch = [])"
    using empty_turn [OF u] by blast
  show ?case
  proof (cases "\<exists>ch. r1 = Again ch")
    case True
    then obtain ch where ch: "r1 = Again ch" by blast
    then have l: "run_state (pump_loop n os ch) u = (r, t)" using Suc.prems(1) u by simp
    obtain ds where ds: "calls t = calls u @ ds" using pump_loop_orderly [OF l] by blast
    have m: "made_processes cs = []" "made_processes (calls t) = made_processes (calls u)"
      using Suc.prems(2) by (simp_all add: ds cs(1) made_processes_append)
    then have "ch = []" "\<forall>c\<in>set cs. \<not> debugger_call c" using cs(2) ch by blast+
    then show ?thesis using Suc.IH [of u] l m(2) cs(1) by fastforce
  next
    case False
    then have "t = u" "r = r1" using Suc.prems(1) u by (cases r1; simp)+
    then show ?thesis using cs Suc.prems(2) False
      by (intro exI [of _ cs]) (simp add: made_processes_append)
  qed
qed

definition response_of :: "process_information \<Rightarrow> spawn_response" where
  "response_of pi = \<lparr>sr_pid = dwProcessId pi, sr_process_handle = hProcess pi, sr_thread_handle = hThread pi\<rparr>"

lemma handle_spawn_answer:
  assumes "oneshot_open (responses s resp)" "run_state (handle_spawn os ch req resp) s = (ch', t)"
  shows "case fst (run_state (create_debugged_child os req) s) of
      Inl e \<Rightarrow> responses t resp = settled (Inl e) (responses s resp) \<and> ch' = ch \<and>
        exits t = (exits s)(rq_exit_tx req := drop_sender (exits s (rq_exit_tx req))) \<and>
        made_processes (calls t) = made_processes (calls s)
    | Inr (pi, past) \<Rightarrow> responses t resp = settled (Inr (response_of pi)) (responses s resp) \<and>
        map_of ch' (dwProcessId pi) =
          Some (new_child_entry (hProcess pi) False (rq_affinity_mask req) (rq_exit_tx req)) \<and>
        made_processes (calls t) = made_processes (calls s) @ [(debug_child_args req, pi)]"
proof -
  obtain r u where c: "run_state (create_debugged_child os req) s = (r, u)"
    by (cases "run_state (create_debugged_child os req) s")
  have u: "responses u = responses s" "exits u = exits s" using create_debugged_child_effect(1) [OF c] by auto
  have o: "oneshot_open (responses (s'::('a, 'b) sys_scheme) resp)" if "responses s' = responses s" for s'
    using assms(1) that by simp
  show ?thesis
  proof (cases r)
    case (Inl e)
    then show ?thesis using assms(2) c u o create_debugged_child_failed [of os req s e u]
      by (auto simp: handle_spawn_def send_response_open drop_exit_sender_def)
  next
    case (Inr pl)
    obtain pi past where pl: "pl = (pi, past)" by (cases pl)
    note made = create_debugged_child_made [OF c [unfolded Inr pl]]
    show ?thesis using assms(2) c u o Inr pl made
      by (auto simp: handle_spawn_def send_response_open drop_exit_sender_def Let_def response_of_def
          update_conv' made_processes_def split: option.splits)
  qed
qed


lemma spawn_child_turn:
  assumes "pump_inv ch s" "ch_buf (inbox s) = []" "ch_receiver (inbox s)" "ch_cap (inbox s) = None"
    and "rq_exit_tx req \<notin># tracked_txs ch" "oneshot_open (exits s (rq_exit_tx req))"
    and "run_state (spawn_child (do { pump_iteration os ch; State_Monad.return () }) req) s = (answer, t)"
  shows "case answer of
      None \<Rightarrow> False
    | Some (Inr a) \<Rightarrow> \<exists>pi. a = response_of pi \<and>
        made_processes (calls t) = made_processes (calls s) @ [(debug_child_args req, pi)]
    | Some (Inl e) \<Rightarrow> made_processes (calls t) = made_processes (calls s) \<and>
        ch_senders (exits t (rq_exit_tx req)) = 0"
    and "\<exists>cs. calls t = calls s @ cs \<and> orderly cs"
proof -
  let ?r = "next_response s"
  let ?s = "s\<lparr>responses := (responses s)(?r := sync_channel 1), next_response := ?r + 1\<rparr>"
  have c: "ch_buf (inbox s) = [] \<and> ch_receiver (inbox s) \<and> ch_cap (inbox s) = None" using assms(2-4) by simp
  obtain ch1 u where h: "run_state (handle_spawn os ch req ?r) ?s = (ch1, u)"
    by (cases "run_state (handle_spawn os ch req ?r) ?s")
  obtain p v where d: "run_state (debug_step os ch1) u = (p, v)" by (cases "run_state (debug_step os ch1) u")
  have q: "(inbox s)\<lparr>ch_buf := [], ch_buf := []\<rparr> = inbox s" "(inbox s)\<lparr>ch_buf := []\<rparr> = inbox s" using assms(2) by simp_all
  have turn: "run_state (pump_iteration os ch) (?s\<lparr>inbox := (inbox s)\<lparr>ch_buf := [Spawn req ?r]\<rparr>\<rparr>) = (p, v)"
    using h d q by (simp add: pump_iteration_unfold handle_message_def)
  have a: "run_state (recv_response ?r) v = (case ch_recv (responses v ?r) of
      Received x c \<Rightarrow> (Got x, v\<lparr>responses := (responses v)(?r := c)\<rparr>)
    | Recv_Err \<Rightarrow> (Hung_Up, v) | Recv_Blocks \<Rightarrow> (Waits, v))"
    by (simp add: recv_response_def)
  note step = debug_step_responses [OF d]
  have open_s: "oneshot_open (responses ?s ?r)" by simp
  note answer = handle_spawn_answer [OF open_s h]
  have run: "run_state (spawn_child (do { pump_iteration os ch; State_Monad.return () }) req) s =
    (case run_state (recv_response ?r) v of (y, t) \<Rightarrow>
       (case y of Got x \<Rightarrow> Some x | Hung_Up \<Rightarrow> Some (Inl (Broken_Pipe ''pump thread gone'')) | Waits \<Rightarrow> None, t))"
    using c turn by (simp add: spawn_child_def spawn_child_request_def new_response_def inbox_send_def ch_send_def
        ch_full_def)
  have made: "made_processes (calls v) = made_processes (calls u)" using step(2) by (simp add: made_processes_def)
  have "calls t = calls v"
    using assms(7) run a by (auto split: recv_outcome.splits)
  then show "\<exists>cs. calls t = calls s @ cs \<and> orderly cs" using pump_iteration_orderly [OF turn] by simp
  show "case answer of
      None \<Rightarrow> False
    | Some (Inr a) \<Rightarrow> \<exists>pi. a = response_of pi \<and>
        made_processes (calls t) = made_processes (calls s) @ [(debug_child_args req, pi)]
    | Some (Inl e) \<Rightarrow> made_processes (calls t) = made_processes (calls s) \<and>
        ch_senders (exits t (rq_exit_tx req)) = 0"
  proof (cases "fst (run_state (create_debugged_child os req) ?s)")
    case (Inl e)
    then have "responses u ?r = settled (Inl e) (sync_channel 1)" using answer by simp
    then have "answer = Some (Inl e)" "calls t = calls v" "exits t = exits v"
      using assms(7) run a step(1) by (auto simp: settled_def sync_channel_def drop_sender_def ch_recv_def)
    moreover have "ch_senders (exits v (rq_exit_tx req)) = 0"
    proof -
      obtain ch2 where p: "p = Again ch2" using debug_step_again [OF d] by blast
      have "distinct (map fst ch1)" using Inl answer assms(1) by (simp add: pump_inv_def)
      from accounts_debug_step [OF this d [unfolded p]] have
        "ch_senders (exits v (rq_exit_tx req)) \<le> ch_senders (exits u (rq_exit_tx req))"
        by (auto simp: accounts_def)
      also have "\<dots> = 0" using Inl answer assms(6) by (simp add: drop_sender_def oneshot_open_def)
      finally show ?thesis by simp
    qed
    ultimately show ?thesis using Inl answer made by simp
  next
    case (Inr pl)
    obtain pi past where pl: "pl = (pi, past)" by (cases pl)
    then have "responses u ?r = settled (Inr (response_of pi)) (sync_channel 1)" using answer Inr by simp
    then have "answer = Some (Inr (response_of pi))" "calls t = calls v"
      using assms(7) run a step(1) by (auto simp: settled_def sync_channel_def drop_sender_def ch_recv_def)
    then show ?thesis using Inr pl answer made by auto
  qed
qed

text \<open>Spawn is answered: a request put to an idle pump is answered by its next turn, whatever the API does: with the
  identifier and handles of the one process made, with the arguments of the request, or with the
  error of its creation; then no process was made and the exit channel has no sender.
  The caller never waits.\<close>

theorem spawn_child_answered:
  assumes "pump_inv ch s" "ch_buf (inbox s) = []" "ch_receiver (inbox s)" "ch_cap (inbox s) = None"
    and "rq_exit_tx req \<notin># tracked_txs ch" "oneshot_open (exits s (rq_exit_tx req))"
    and "run_state (spawn_child (do { pump_iteration os ch; State_Monad.return () }) req) s = (answer, t)"
  shows "case answer of
      None \<Rightarrow> False
    | Some (Inr a) \<Rightarrow> \<exists>pi. a = response_of pi \<and>
        made_processes (calls t) = made_processes (calls s) @ [(debug_child_args req, pi)]
    | Some (Inl e) \<Rightarrow> made_processes (calls t) = made_processes (calls s) \<and>
        ch_senders (exits t (rq_exit_tx req)) = 0"
  by (rule spawn_child_turn(1) [OF assms])

definition example_request :: spawn_request where
  "example_request = \<lparr>rq_application_name = None, rq_command_line = [0x78, 0], rq_environment = None,
     rq_current_directory = None, rq_affinity_mask = 0, rq_exit_tx = 5, rq_stdin_handle = INVALID_HANDLE_VALUE,
     rq_stdout_handle = INVALID_HANDLE_VALUE, rq_stderr_handle = INVALID_HANDLE_VALUE,
     rq_use_stdio_handles = False, rq_inherit_handles = False, rq_job_handle = 0x50\<rparr>"

text \<open>Two spawns that fail while an event of another debuggee is pending.\<close>

theorem pump_idle_without_children_witness:
  "\<exists>r t. run_state (pump_loop 3 exit_event_os []) (init_pump () [Spawn example_request 0, Spawn example_request 1]) = (r, t) \<and>
     calls t \<noteq> [] \<and> (\<forall>c\<in>set (calls t). \<not> debugger_call c)"
proof -
  let ?s = "init_pump () [Spawn example_request 0, Spawn example_request 1]"
  obtain r t where r: "run_state (pump_loop 3 exit_event_os []) ?s = (r, t)" by (metis surj_pair)
  have "calls (snd (run_state (pump_loop 3 exit_event_os []) ?s)) \<noteq> [] \<and>
      made_processes (calls (snd (run_state (pump_loop 3 exit_event_os []) ?s))) = []"
    by (simp add: numeral_3_eq_3 pump_iteration_unfold handle_message_def handle_spawn_def create_debugged_child_def
        create_process_impl_def run_api Let_def example_request_def exit_event_os_def failing_os_def last_os_error_def
        send_response_def ch_send_def ch_full_def sync_channel_def channel_def drop_exit_sender_def debug_step_def
        made_processes_def creations_def INVALID_HANDLE_VALUE_def)
  then have c: "calls t \<noteq> []" "made_processes (calls t) = made_processes (calls ?s)"
    using r by (simp_all add: made_processes_def creations_def)
  show ?thesis using pump_idle_without_children [OF r c(2)] r c(1) by auto
qed

theorem spawn_child_answered_witness:
  "fst (run_state (spawn_child (do { pump_iteration job_os one_child; State_Monad.return () }) example_request)
     (init_pump 1 [])) \<noteq> None"
proof -
  let ?m = "spawn_child (do { pump_iteration job_os one_child; State_Monad.return () }) example_request"
  obtain answer t where r: "run_state ?m (init_pump 1 []) = (answer, t)"
    by (cases "run_state ?m (init_pump 1 [])")
  from spawn_child_answered [OF one_child_inv _ _ _ _ _ r] r show ?thesis
    by (auto simp: channel_def one_child_txs example_request_def split: option.splits)
qed

end
