(* ===== verification/Iocp.thy ===== *)
theory Iocp
  imports PumpLoop
begin

text \<open>
  The completion-port listener of \<open>src/crates/worrywart/src/iocp.rs\<close>: \<open>Iocp::start\<close>,
  \<open>register\<close>, \<open>Drop\<close>, \<open>iocp_loop\<close>, \<open>dispatch_notification\<close>,
  \<open>drain_remaining\<close>, \<open>classify_iocp_exit\<close> and \<open>get_exit_code\<close>. The state of
  the listener thread is its two tables, \<open>waiters\<close> and \<open>pending\<close>; the queue of
  registrations is \<open>regs\<close>.
\<close>

definition JOB_OBJECT_MSG_EXIT_PROCESS :: u32 where
  "JOB_OBJECT_MSG_EXIT_PROCESS = 7"

definition JOB_OBJECT_MSG_ABNORMAL_EXIT_PROCESS :: u32 where
  "JOB_OBJECT_MSG_ABNORMAL_EXIT_PROCESS = 8"

definition JOB_KEY :: usize where
  "JOB_KEY = 1"

definition SHUTDOWN_KEY :: usize where
  "SHUTDOWN_KEY = 0"

definition PROCESS_QUERY_LIMITED_INFORMATION :: u32 where
  "PROCESS_QUERY_LIMITED_INFORMATION = 0x1000"

section \<open>State\<close>

datatype iocp_message = Register pid nat

record 'w worry_sys = "'w pump_sys" + regs :: "iocp_message chan"

type_synonym ('w, 'z, 'a) iocp_io = "(('w, 'z) worry_sys_scheme, 'a) state"
type_synonym ('w, 'z, 'a) iocp_fallible = "(('w, 'z) worry_sys_scheme, io_error + 'a) state"

type_synonym waiters = "(pid \<times> nat) list"
type_synonym pending = "(pid \<times> term_result) list"

section \<open>Classification\<close>

definition get_exit_code :: "'w win32 \<Rightarrow> pid \<Rightarrow> ('w, 'z, u32 option) io" where
  "get_exit_code os pid = do {
     handle \<leftarrow> api (w_OpenProcess os PROCESS_QUERY_LIMITED_INFORMATION pid)
       (OpenProcess PROCESS_QUERY_LIMITED_INFORMATION pid);
     if handle = null_handle then State_Monad.return None
     else do {
       (success, code) \<leftarrow> api (w_GetExitCodeProcess os handle 0) (GetExitCodeProcess handle 0);
       close_handle os handle;
       State_Monad.return (if \<not> success then None else Some code)
     }
   }"

definition classify_iocp_exit :: "'w win32 \<Rightarrow> pid \<Rightarrow> u32 \<Rightarrow> ('w, 'z, term_result) io" where
  "classify_iocp_exit os pid msg_type = do {
     r \<leftarrow> get_exit_code os pid;
     let code = (case r of None \<Rightarrow> 0 | Some c \<Rightarrow> c);
     State_Monad.return
       (if msg_type = JOB_OBJECT_MSG_ABNORMAL_EXIT_PROCESS then Inr (Crash code 0)
        else Inr (Unknown (make_exit_status code)))
   }"

section \<open>Notifications and registrations\<close>

definition dispatch_notification ::
  "'w win32 \<Rightarrow> u32 \<Rightarrow> usize \<Rightarrow> waiters \<Rightarrow> pending \<Rightarrow> ('w, 'z, waiters \<times> pending) io" where
  "dispatch_notification os msg_type overlapped waiters pending =
     (if msg_type \<noteq> JOB_OBJECT_MSG_EXIT_PROCESS \<and> msg_type \<noteq> JOB_OBJECT_MSG_ABNORMAL_EXIT_PROCESS
      then State_Monad.return (waiters, pending)
      else
        let pid = ucast overlapped in do {
          result \<leftarrow> classify_iocp_exit os pid msg_type;
          case map_of waiters pid of
            Some tx \<Rightarrow> do {
              deliver tx result;
              State_Monad.return (AList.delete pid waiters, pending)
            }
          | None \<Rightarrow> State_Monad.return (waiters, AList.update pid result pending)
        })"

text \<open>One registration; a sender it replaces is dropped.\<close>

definition register_waiter :: "pid \<Rightarrow> nat \<Rightarrow> waiters \<Rightarrow> pending \<Rightarrow> ('w, 'z, waiters \<times> pending) io" where
  "register_waiter pid exit_tx waiters pending =
     (case map_of pending pid of
        Some result \<Rightarrow> do {
          deliver exit_tx result;
          State_Monad.return (waiters, AList.delete pid pending)
        }
      | None \<Rightarrow> do {
          (case map_of waiters pid of
             Some old \<Rightarrow> drop_exit_sender old
           | None \<Rightarrow> State_Monad.return ());
          State_Monad.return (AList.update pid exit_tx waiters, pending)
        })"

fun register_all :: "iocp_message list \<Rightarrow> waiters \<Rightarrow> pending \<Rightarrow> ('w, 'z, waiters \<times> pending) io" where
  "register_all [] waiters pending = State_Monad.return (waiters, pending)"
| "register_all (Register pid exit_tx # ms) waiters pending = do {
     (waiters', pending') \<leftarrow> register_waiter pid exit_tx waiters pending;
     register_all ms waiters' pending'
   }"

text \<open>\<open>while let Ok(msg) = rx.try_recv()\<close> takes everything that is queued.\<close>

definition drain_registrations :: "waiters \<Rightarrow> pending \<Rightarrow> ('w, 'z, waiters \<times> pending) iocp_io" where
  "drain_registrations waiters pending = do {
     ms \<leftarrow> State (\<lambda>s. (ch_buf (regs s), s\<lparr>regs := (regs s)\<lparr>ch_buf := []\<rparr>\<rparr>));
     register_all ms waiters pending
   }"

section \<open>\<open>drain_remaining\<close> and \<open>iocp_loop\<close>\<close>

definition get_status ::
  "'w win32 \<Rightarrow> handle \<Rightarrow> u32 \<Rightarrow> ('w, 'z, bool \<times> packet) io" where
  "get_status os iocp timeout =
     api (w_GetQueuedCompletionStatus os iocp timeout (0, 0, 0))
       (GetQueuedCompletionStatus iocp timeout (0, 0, 0))"

text \<open>The drain runs as long as packets keep coming, so it may not return.\<close>

partial_function (option) drain_remaining ::
  "'w win32 \<Rightarrow> handle \<Rightarrow> waiters \<Rightarrow> pending \<Rightarrow> ('w, 'z) sys_scheme \<Rightarrow>
   ((waiters \<times> pending) \<times> ('w, 'z) sys_scheme) option" where
  "drain_remaining os iocp waiters pending s =
     (case run_state (get_status os iocp 0) s of
        ((success, bytes, key, overlapped), s') \<Rightarrow>
          if \<not> success \<and> overlapped = 0 then Some ((waiters, pending), s')
          else if key = SHUTDOWN_KEY then Some ((waiters, pending), s')
          else
            case run_state (dispatch_notification os bytes overlapped waiters pending) s' of
              ((waiters', pending'), s'') \<Rightarrow> drain_remaining os iocp waiters' pending' s'')"

datatype listening = Listening waiters pending | Ended

text \<open>The end of the thread: the port is closed, the tables are dropped with their senders, the
  receiver with the registrations still queued.\<close>

fun drop_waiters :: "waiters \<Rightarrow> ('w, 'z, unit) io" where
  "drop_waiters [] = State_Monad.return ()"
| "drop_waiters ((p, tx) # ws) = do { drop_exit_sender tx; drop_waiters ws }"

definition end_listener :: "'w win32 \<Rightarrow> handle \<Rightarrow> waiters \<Rightarrow> ('w, 'z, listening) iocp_io" where
  "end_listener os iocp waiters = do {
     close_handle os iocp;
     drop_waiters waiters;
     queued \<leftarrow> State (\<lambda>s. (ch_buf (regs s), s\<lparr>regs := drop_receiver (regs s)\<rparr>));
     drop_waiters (map (\<lambda>m. case m of Register p tx \<Rightarrow> (p, tx)) queued);
     State_Monad.return Ended
   }"

text \<open>One turn of \<open>iocp_loop\<close>.\<close>

definition iocp_turn ::
  "'w win32 \<Rightarrow> handle \<Rightarrow> waiters \<Rightarrow> pending \<Rightarrow> ('w, 'z) worry_sys_scheme \<Rightarrow>
   (listening \<times> ('w, 'z) worry_sys_scheme) option" where
  "iocp_turn os iocp waiters pending s =
     (case run_state (do {
             (waiters', pending') \<leftarrow> drain_registrations waiters pending;
             status \<leftarrow> get_status os iocp 10;
             State_Monad.return (waiters', pending', status)
           }) s of
        ((waiters', pending', success, bytes, key, overlapped), s') \<Rightarrow>
          if key = SHUTDOWN_KEY then
            (case drain_remaining os iocp waiters' pending' s' of
               None \<Rightarrow> None
             | Some ((waiters'', pending''), s'') \<Rightarrow>
                 Some (run_state (end_listener os iocp waiters'') s''))
          else if \<not> success \<and> overlapped = 0 then Some (Listening waiters' pending', s')
          else
            case run_state (dispatch_notification os bytes overlapped waiters' pending') s' of
              ((waiters'', pending''), s'') \<Rightarrow> Some (Listening waiters'' pending'', s''))"

text \<open>The loop, for at most \<open>n\<close> turns.\<close>

fun iocp_loop ::
  "nat \<Rightarrow> 'w win32 \<Rightarrow> handle \<Rightarrow> waiters \<Rightarrow> pending \<Rightarrow> ('w, 'z) worry_sys_scheme \<Rightarrow>
   (listening \<times> ('w, 'z) worry_sys_scheme) option" where
  "iocp_loop 0 os iocp waiters pending s = Some (Listening waiters pending, s)"
| "iocp_loop (Suc n) os iocp waiters pending s =
     (case iocp_turn os iocp waiters pending s of
        Some (Listening waiters' pending', s') \<Rightarrow> iocp_loop n os iocp waiters' pending' s'
      | r \<Rightarrow> r)"

section \<open>\<open>Iocp\<close>\<close>

record iocp_object =
  io_iocp_handle :: handle
  io_thread :: bool

definition iocp_start :: "'w win32 \<Rightarrow> handle \<Rightarrow> ('w, 'z, iocp_object) iocp_fallible" where
  "iocp_start os job = do {
     iocp \<leftarrow> api (w_CreateIoCompletionPort os) CreateIoCompletionPort;
     if iocp = null_handle then last_os_error os
     else do {
       success \<leftarrow> api (w_SetJobCompletionPort os job JOB_KEY iocp) (SetJobCompletionPort job JOB_KEY iocp);
       if \<not> success then do {
         close_handle os iocp;
         last_os_error os
       }
       else do {
         State (\<lambda>s. ((), s\<lparr>regs := channel\<rparr>));
         r \<leftarrow> api (w_spawn_thread os ''worrywart-iocp'') (SpawnThread ''worrywart-iocp'');
         case r of
           Some e \<Rightarrow> do {
             close_handle os iocp;
             State (\<lambda>s. ((), s\<lparr>regs := drop_sender (drop_receiver (regs s))\<rparr>));
             err e
           }
         | None \<Rightarrow> ok \<lparr>io_iocp_handle = iocp, io_thread = True\<rparr>
       }
     }
   }"

text \<open>A registration that cannot be sent drops its sender.\<close>

definition iocp_register :: "pid \<Rightarrow> nat \<Rightarrow> ('w, 'z, unit) iocp_io" where
  "iocp_register pid exit_tx = do {
     sent \<leftarrow> State (\<lambda>s.
       case ch_send (Register pid exit_tx) (regs s) of
         Sent c \<Rightarrow> (True, s\<lparr>regs := c\<rparr>)
       | Send_Err \<Rightarrow> (False, s)
       | Send_Blocks \<Rightarrow> (False, s\<lparr>stuck := True\<rparr>));
     if sent then State_Monad.return () else drop_exit_sender exit_tx
   }"

text \<open>\<open>Drop for Iocp\<close>: a packet with the shutdown key, then join the listener, which runs
  in \<open>others\<close>.\<close>

definition iocp_drop ::
  "'w win32 \<Rightarrow> ('w, 'z, unit) iocp_io \<Rightarrow> iocp_object \<Rightarrow> ('w, 'z, unit) iocp_io" where
  "iocp_drop os others p = do {
     api (w_PostQueuedCompletionStatus os (io_iocp_handle p) 0 SHUTDOWN_KEY 0)
       (PostQueuedCompletionStatus (io_iocp_handle p) 0 SHUTDOWN_KEY 0);
     (if io_thread p then others else State_Monad.return ());
     State (\<lambda>s. ((), s\<lparr>regs := drop_sender (regs s)\<rparr>))
   }"

section \<open>The listener as a router\<close>

definition pure_register :: "pid \<Rightarrow> nat \<Rightarrow> waiters \<times> pending \<Rightarrow> (waiters \<times> pending) \<times> (nat \<times> term_result) list" where
  "pure_register p c = (\<lambda>(ws, pd).
     case map_of pd p of
       Some r \<Rightarrow> ((ws, AList.delete p pd), [(c, r)])
     | None \<Rightarrow> ((AList.update p c ws, pd), []))"

definition pure_notify :: "pid \<times> term_result \<Rightarrow> waiters \<times> pending \<Rightarrow> (waiters \<times> pending) \<times> (nat \<times> term_result) list" where
  "pure_notify = (\<lambda>(p, r) (ws, pd).
     case map_of ws p of
       Some c \<Rightarrow> ((AList.delete p ws, pd), [(c, r)])
     | None \<Rightarrow> ((ws, AList.update p r pd), []))"

definition iocp_routes :: "waiters \<times> pending \<Rightarrow> pid \<Rightarrow> nat option" where
  "iocp_routes st = map_of (fst st)"

interpretation iocp: router pure_register pure_notify iocp_routes
proof
  fix p c s s' and ds :: "(nat \<times> term_result) list"
  assume "pure_register p c s = (s', ds)"
  then show "(ds = [] \<and> iocp_routes s' = (iocp_routes s)(p \<mapsto> c)) \<or>
      (\<exists>r. ds = [(c, r)] \<and> iocp_routes s' = iocp_routes s)"
    by (cases s) (auto simp: pure_register_def iocp_routes_def update_conv' split: option.splits)
next
  fix e s s' and ds :: "(nat \<times> term_result) list"
  assume "pure_notify e s = (s', ds)"
  then show "(ds = [] \<and> iocp_routes s' = iocp_routes s) \<or>
      (\<exists>p c r. iocp_routes s p = Some c \<and> ds = [(c, r)] \<and> iocp_routes s' = (iocp_routes s)(p := None))"
    by (cases s; cases e) (auto simp: pure_notify_def iocp_routes_def delete_conv' split: option.splits)
qed

text \<open>The code does what the pure steps say: the same tables, and the results of the pure step
  sent in order.\<close>

lemma register_waiter_refines:
  assumes "map_of waiters p = None"
  shows "run_state (register_waiter p c waiters pd) s =
     (case pure_register p c (waiters, pd) of
        (st, ds) \<Rightarrow> (st, snd (run_state (deliver_list ds) s)))"
proof (cases "map_of pd p")
  case None
  then show ?thesis using assms by (simp add: register_waiter_def pure_register_def)
next
  case (Some r)
  obtain u t where "run_state (deliver c r) s = (u, t)" by (cases "run_state (deliver c r) s")
  then show ?thesis using Some by (simp add: register_waiter_def pure_register_def)
qed

definition exit_message :: "u32 \<Rightarrow> bool" where
  "exit_message m \<longleftrightarrow> m = 7 \<or> m = 8"

text \<open>The calls that read the exit code of a process by its identifier, and the code read.\<close>

definition exit_query :: "pid \<Rightarrow> u32 \<Rightarrow> call list \<Rightarrow> bool" where
  "exit_query p code cs \<longleftrightarrow>
     (cs = [OpenProcess 0x1000 p 0] \<and> code = 0) \<or>
     (\<exists>h success c b. h \<noteq> 0 \<and> code = (if success then c else 0) \<and>
        cs = [OpenProcess 0x1000 p h, GetExitCodeProcess h 0 (success, c), CloseHandle h b])"

lemma exit_query_ledger: "exit_query p code cs \<Longrightarrow> ledger cs h = 0"
  by (auto simp: exit_query_def)

definition iocp_reason :: "u32 \<Rightarrow> u32 \<Rightarrow> termination_reason" where
  "iocp_reason m code = (if m = 8 then Crash code 0 else Unknown (make_exit_status code))"

lemma classify_run:
  "\<exists>w cs code. exit_query p code cs \<and>
     run_state (classify_iocp_exit os p m) s =
       (Inr (iocp_reason m code), s\<lparr>world := w, calls := calls s @ cs\<rparr>)"
proof -
  obtain h w1 where h: "w_OpenProcess os PROCESS_QUERY_LIMITED_INFORMATION p (world s) = (h, w1)" by (metis surj_pair)
  show ?thesis
  proof (cases "h = 0")
    case True
    then show ?thesis using h
      by (intro exI [of _ w1] exI [of _ "[OpenProcess 0x1000 p 0]"] exI [of _ 0])
        (simp add: classify_iocp_exit_def get_exit_code_def run_api exit_query_def iocp_reason_def
          PROCESS_QUERY_LIMITED_INFORMATION_def JOB_OBJECT_MSG_ABNORMAL_EXIT_PROCESS_def Let_def)
  next
    case False
    obtain ok c w2 where c: "w_GetExitCodeProcess os h 0 w1 = ((ok, c), w2)" by (metis surj_pair)
    obtain b w3 where b: "w_CloseHandle os h w2 = (b, w3)" by (metis surj_pair)
    let ?cs = "[OpenProcess 0x1000 p h, GetExitCodeProcess h 0 (ok, c), CloseHandle h b]"
    have "exit_query p (if ok then c else 0) ?cs" using False by (auto simp: exit_query_def)
    moreover have "run_state (classify_iocp_exit os p m) s =
       (Inr (iocp_reason m (if ok then c else 0)), s\<lparr>world := w3, calls := calls s @ ?cs\<rparr>)"
      using h c b False
      by (simp add: classify_iocp_exit_def get_exit_code_def run_api close_handle_def iocp_reason_def
          PROCESS_QUERY_LIMITED_INFORMATION_def JOB_OBJECT_MSG_ABNORMAL_EXIT_PROCESS_def Let_def)
    ultimately show ?thesis by blast
  qed
qed

lemma dispatch_notification_ignored:
  "\<not> exit_message m \<Longrightarrow> run_state (dispatch_notification os m ov ws pd) s = ((ws, pd), s)"
  by (auto simp: dispatch_notification_def exit_message_def JOB_OBJECT_MSG_EXIT_PROCESS_def
      JOB_OBJECT_MSG_ABNORMAL_EXIT_PROCESS_def)

lemma dispatch_notification_refines:
  assumes "exit_message m"
  shows "\<exists>w cs code. exit_query (ucast ov) code cs \<and>
     run_state (dispatch_notification os m ov ws pd) s =
       (case pure_notify (ucast ov, Inr (iocp_reason m code)) (ws, pd) of
          (st, ds) \<Rightarrow> (st, snd (run_state (deliver_list ds) (s\<lparr>world := w, calls := calls s @ cs\<rparr>))))"
proof -
  obtain w cs code where q: "exit_query (ucast ov) code cs"
    and r: "run_state (classify_iocp_exit os (ucast ov) m) s =
       (Inr (iocp_reason m code), s\<lparr>world := w, calls := calls s @ cs\<rparr>)"
    using classify_run [of "ucast ov" os m s] by blast
  let ?s = "s\<lparr>world := w, calls := calls s @ cs\<rparr>"
  have m: "\<not> (m \<noteq> JOB_OBJECT_MSG_EXIT_PROCESS \<and> m \<noteq> JOB_OBJECT_MSG_ABNORMAL_EXIT_PROCESS)"
    using assms by (auto simp: exit_message_def JOB_OBJECT_MSG_EXIT_PROCESS_def
        JOB_OBJECT_MSG_ABNORMAL_EXIT_PROCESS_def)
  have "run_state (dispatch_notification os m ov ws pd) s =
       (case pure_notify (ucast ov, Inr (iocp_reason m code)) (ws, pd) of
          (st, ds) \<Rightarrow> (st, snd (run_state (deliver_list ds) ?s)))"
  proof (cases "map_of ws (ucast ov)")
    case None
    then show ?thesis using r unfolding dispatch_notification_def if_not_P [OF m] Let_def
      by (simp add: pure_notify_def)
  next
    case (Some c)
    obtain u t where "run_state (deliver c (Inr (iocp_reason m code))) ?s = (u, t)"
      by (metis surj_pair)
    then show ?thesis using r Some unfolding dispatch_notification_def if_not_P [OF m] Let_def
      by (simp add: pure_notify_def)
  qed
  then show ?thesis using q by blast
qed

section \<open>Registrations and notifications in any order\<close>

datatype iocp_event = Registration pid nat | Packet u32 usize

definition listener_step ::
  "'w win32 \<Rightarrow> iocp_event \<Rightarrow> waiters \<Rightarrow> pending \<Rightarrow> ('w, 'z, waiters \<times> pending) io" where
  "listener_step os e ws pd =
     (case e of
        Registration p c \<Rightarrow> register_waiter p c ws pd
      | Packet m ov \<Rightarrow> dispatch_notification os m ov ws pd)"

text \<open>What the listener does with registrations and packets, in the order it sees them.
  (\<open>iocp_turn_events\<close> below shows it of the turns of the loop.)\<close>

fun listener_run ::
  "'w win32 \<Rightarrow> iocp_event list \<Rightarrow> waiters \<Rightarrow> pending \<Rightarrow> ('w, 'z, waiters \<times> pending) io" where
  "listener_run os [] ws pd = State_Monad.return (ws, pd)"
| "listener_run os (e # es) ws pd = do {
     (ws', pd') \<leftarrow> listener_step os e ws pd;
     listener_run os es ws' pd'
   }"

text \<open>A registration of the process, or a message that it has exited.\<close>

fun concerns :: "pid \<Rightarrow> iocp_event \<Rightarrow> bool" where
  "concerns p (Registration q c) = (q = p)"
| "concerns p (Packet m ov) = (exit_message m \<and> ucast ov = p)"

fun registers :: "nat \<Rightarrow> iocp_event \<Rightarrow> bool" where
  "registers c (Registration q d) = (d = c)"
| "registers c (Packet m ov) = False"

lemma run_listener_append:
  "run_state (listener_run os (es @ fs) ws pd) s =
     (case run_state (listener_run os es ws pd) s of
        ((ws', pd'), s') \<Rightarrow> run_state (listener_run os fs ws' pd') s')"
  by (induction es arbitrary: ws pd s) (auto split: prod.splits)

lemma pure_notify_simps:
  "map_of ws p = None \<Longrightarrow> pure_notify (p, r) (ws, pd) = ((ws, AList.update p r pd), [])"
  "map_of ws p = Some c \<Longrightarrow> pure_notify (p, r) (ws, pd) = ((AList.delete p ws, pd), [(c, r)])"
  by (simp_all add: pure_notify_def)

lemma deliver_calls: "calls (snd (run_state (deliver c r) u)) = calls u"
  by (auto simp: deliver_def send_exit_def drop_exit_sender_def split: send_outcome.splits)

lemma deliver_list_calls: "calls (snd (run_state (deliver_list ds) s)) = calls s"
proof (induction ds arbitrary: s)
  case (Cons d ds)
  obtain c r where d: "d = (c, r)" by (cases d)
  obtain u s' where "run_state (deliver c r) s = (u, s')" by (cases "run_state (deliver c r) s")
  then show ?case using Cons [of s'] deliver_calls [of c r s] by (simp add: d)
qed simp

lemma exit_packet_query:
  assumes "run_state (dispatch_notification os m ov ws pd) s = ((ws', pd'), t)" "exit_message m"
  obtains u code ds cs where "exits u = exits s" "stuck u = stuck s"
    "pure_notify (ucast ov, Inr (iocp_reason m code)) (ws, pd) = ((ws', pd'), ds)"
    "t = snd (run_state (deliver_list ds) u)" "exit_query (ucast ov) code cs" "calls t = calls s @ cs"
proof -
  obtain w cs code where q: "exit_query (ucast ov) code cs"
    and r: "run_state (dispatch_notification os m ov ws pd) s =
       (case pure_notify (ucast ov, Inr (iocp_reason m code)) (ws, pd) of
          (st, ds) \<Rightarrow> (st, snd (run_state (deliver_list ds) (s\<lparr>world := w, calls := calls s @ cs\<rparr>))))"
    using dispatch_notification_refines [OF assms(2), of ov os ws pd s] by blast
  obtain st ds where n: "pure_notify (ucast ov, Inr (iocp_reason m code)) (ws, pd) = (st, ds)"
    by (cases "pure_notify (ucast ov, Inr (iocp_reason m code)) (ws, pd)")
  have e: "st = (ws', pd')" "t = snd (run_state (deliver_list ds) (s\<lparr>world := w, calls := calls s @ cs\<rparr>))"
    using r unfolding assms(1) n by simp_all
  show thesis
    by (rule that [of "s\<lparr>world := w, calls := calls s @ cs\<rparr>" code ds cs])
      (simp_all add: n e q deliver_list_calls)
qed

lemma exit_packet:
  assumes "run_state (dispatch_notification os m ov ws pd) s = ((ws', pd'), t)" "exit_message m"
  obtains u code ds where "exits u = exits s" "stuck u = stuck s"
    "pure_notify (ucast ov, Inr (iocp_reason m code)) (ws, pd) = ((ws', pd'), ds)"
    "t = snd (run_state (deliver_list ds) u)"
  using exit_packet_query [OF assms] by blast

lemma listener_step_calls:
  assumes "run_state (listener_step os e ws pd) s = (r, t)"
  shows "\<exists>cs. calls t = calls s @ cs"
proof (cases e)
  case (Registration p c)
  then show ?thesis using assms deliver_list_calls [of "[(c, the (map_of pd p))]" s]
    by (auto simp: listener_step_def register_waiter_def drop_exit_sender_def split: option.splits prod.splits)
next
  case (Packet m ov)
  obtain ws' pd' where r: "r = (ws', pd')" by (cases r)
  show ?thesis
  proof (cases "exit_message m")
    case True
    then show ?thesis using assms Packet r exit_packet_query [of os m ov ws pd s ws' pd' t]
      by (metis iocp_event.simps(6) listener_step_def)
  next
    case False
    then show ?thesis using assms Packet by (simp add: listener_step_def dispatch_notification_ignored)
  qed
qed

lemma listener_run_calls:
  assumes "run_state (listener_run os es ws pd) s = (r, t)"
  shows "\<exists>cs. calls t = calls s @ cs"
  using assms
proof (induction es arbitrary: ws pd s)
  case (Cons e es)
  obtain ws1 pd1 s1 where 1: "run_state (listener_step os e ws pd) s = ((ws1, pd1), s1)"
    by (metis surj_pair)
  have "run_state (listener_run os es ws1 pd1) s1 = (r, t)" using Cons.prems 1 by simp
  from Cons.IH [OF this] listener_step_calls [OF 1] show ?case by auto
qed simp

text \<open>One packet, in terms of the tables and channels.\<close>

lemma packet_effect:
  assumes "run_state (dispatch_notification os m ov ws pd) s = ((ws', pd'), t)"
    and "\<forall>p c. map_of ws p = Some c \<longrightarrow> oneshot_open (exits s c)"
  obtains (ignored) "\<not> exit_message m" "ws' = ws" "pd' = pd" "t = s"
    | (waiting) code c where "exit_message m" "map_of ws (ucast ov) = Some c"
        "map_of ws' = (map_of ws)(ucast ov := None)" "pd' = pd"
        "exits t = (exits s)(c := settled (Inr (iocp_reason m code)) (exits s c))"
        "\<exists>cs. calls t = calls s @ cs \<and> exit_query (ucast ov) code cs"
    | (early) code where "exit_message m" "map_of ws (ucast ov) = None" "ws' = ws"
        "map_of pd' = (map_of pd)(ucast ov \<mapsto> Inr (iocp_reason m code))" "exits t = exits s"
proof (cases "exit_message m")
  case False
  then show thesis using assms ignored by (simp add: dispatch_notification_ignored)
next
  case True
  obtain u code ds cs where u: "exits u = exits s"
      and r: "pure_notify (ucast ov, Inr (iocp_reason m code)) (ws, pd) = ((ws', pd'), ds)"
        "t = snd (run_state (deliver_list ds) u)"
      and q: "exit_query (ucast ov) code cs" "calls t = calls s @ cs"
    by (rule exit_packet_query [OF assms(1) True])
  show thesis
  proof (cases "map_of ws (ucast ov)")
    case None
    show thesis
      by (rule early [OF True None]) (use r u None in \<open>auto simp: pure_notify_simps update_conv'\<close>)
  next
    case (Some c)
    then have "oneshot_open (exits u c)" using assms(2) u by simp
    note d = deliver_open [OF this, of "Inr (iocp_reason m code)"]
    have ds: "ws' = AList.delete (ucast ov) ws" "pd' = pd" "ds = [(c, Inr (iocp_reason m code))]"
      using r(1) unfolding pure_notify_simps(2) [OF Some] by simp_all
    show thesis
      by (rule waiting [OF True Some])
        (use r(2) d u q in \<open>auto simp: ds delete_conv'\<close>)
  qed
qed

text \<open>An event of another process leaves the process and its channel alone.\<close>

lemma other_step:
  assumes "run_state (listener_step os e ws pd) s = ((ws', pd'), t)"
    and "\<not> concerns p e" "\<not> registers c e" "\<forall>q. q \<noteq> p \<longrightarrow> map_of ws q \<noteq> Some c"
  shows "map_of ws' p = map_of ws p \<and> map_of pd' p = map_of pd p \<and> exits t c = exits s c \<and>
    (\<forall>q. q \<noteq> p \<longrightarrow> map_of ws' q \<noteq> Some c)"
proof (cases e)
  case (Registration q d)
  then have q: "q \<noteq> p" "d \<noteq> c" using assms(2,3) by auto
  show ?thesis
  proof (cases "map_of pd q")
    case None
    then show ?thesis
      using assms(1,4) Registration q
      by (auto simp: listener_step_def register_waiter_def drop_exit_sender_def update_conv'
          split: option.splits if_splits)
  next
    case (Some r)
    then show ?thesis
      using assms(1,4) Registration q deliver_frame [of d c r s]
      by (auto simp: listener_step_def register_waiter_def delete_conv' split: prod.splits)
  qed
next
  case (Packet m ov)
  show ?thesis
  proof (cases "exit_message m")
    case False
    then show ?thesis using assms Packet by (simp add: listener_step_def dispatch_notification_ignored)
  next
    case True
    then have q: "ucast ov \<noteq> p" using assms(2) Packet by simp
    obtain u code ds where u: "exits u = exits s"
      and r: "pure_notify (ucast ov, Inr (iocp_reason m code)) (ws, pd) = ((ws', pd'), ds)"
        "t = snd (run_state (deliver_list ds) u)"
      by (rule exit_packet [OF _ True]) (use assms(1) Packet in \<open>simp add: listener_step_def\<close>)
    show ?thesis
    proof (cases "map_of ws (ucast ov)")
      case None
      then show ?thesis using r q assms(4) u by (auto simp: pure_notify_simps update_conv')
    next
      case (Some d)
      then have "d \<noteq> c" using assms(4) q by auto
      then show ?thesis using r q assms(4) Some u deliver_list_frame [of c "[(d, Inr (iocp_reason m code))]" u]
        by (auto simp: pure_notify_simps delete_conv' split: if_splits)
    qed
  qed
qed

lemma other_run:
  assumes "run_state (listener_run os es ws pd) s = ((ws', pd'), t)"
    and "\<forall>e\<in>set es. \<not> concerns p e \<and> \<not> registers c e" "\<forall>q. q \<noteq> p \<longrightarrow> map_of ws q \<noteq> Some c"
  shows "map_of ws' p = map_of ws p \<and> map_of pd' p = map_of pd p \<and> exits t c = exits s c \<and>
    (\<forall>q. q \<noteq> p \<longrightarrow> map_of ws' q \<noteq> Some c)"
  using assms
proof (induction es arbitrary: ws pd s)
  case (Cons e es)
  obtain ws1 pd1 s1 where 1: "run_state (listener_step os e ws pd) s = ((ws1, pd1), s1)"
    by (metis surj_pair)
  have e: "\<not> concerns p e" "\<not> registers c e" using Cons.prems(2) by auto
  note st = other_step [OF 1 e Cons.prems(3)]
  have r: "run_state (listener_run os es ws1 pd1) s1 = ((ws', pd'), t)" using Cons.prems(1) 1 by simp
  have "\<forall>e\<in>set es. \<not> concerns p e \<and> \<not> registers c e" using Cons.prems(2) by simp
  from Cons.IH [OF r this] st show ?case by simp
qed auto


lemma filter_two:
  assumes "filter P es = [x, y]"
  shows "\<exists>a b d. es = a @ x # b @ y # d \<and> (\<forall>e\<in>set a \<union> set b \<union> set d. \<not> P e)"
proof -
  obtain a r where a: "es = a @ x # r" "\<forall>e\<in>set a. \<not> P e" "[y] = filter P r"
    using filter_eq_ConsD [OF assms] by blast
  obtain b d where "r = b @ y # d" "\<forall>e\<in>set b. \<not> P e" "[] = filter P d"
    using filter_eq_ConsD [OF a(3) [symmetric]] by blast
  note b = this
  have "es = a @ x # b @ y # d" "\<forall>e\<in>set a \<union> set b \<union> set d. \<not> P e"
    using a b by (auto simp: filter_empty_conv dest: sym)
  then show ?thesis by blast
qed

lemma listener_delivers:
  assumes "filter (concerns p) es \<in> {[Registration p c, Packet m ov], [Packet m ov, Registration p c]}"
    and "\<forall>e\<in>set es. registers c e \<longrightarrow> concerns p e"
    and "oneshot_open (exits s c)" "ch_receiver (exits s c)"
    and "run_state (listener_run os es [] []) s = ((ws, pd), t)"
  shows "(\<exists>code us cs vs. oneshot_done (Inr (iocp_reason m code)) (exits t c) \<and>
       calls t = us @ cs @ vs \<and> exit_query p code cs) \<and> map_of ws p = None \<and> map_of pd p = None"
proof -
  obtain x y where xy: "filter (concerns p) es = [x, y]"
    "(x, y) = (Registration p c, Packet m ov) \<or> (x, y) = (Packet m ov, Registration p c)"
    using assms(1) by auto
  then obtain a b d where es: "es = a @ x # b @ y # d" "\<forall>e\<in>set a \<union> set b \<union> set d. \<not> concerns p e"
    using filter_two by metis
  then have away: "\<forall>e\<in>set a. \<not> concerns p e \<and> \<not> registers c e" "\<forall>e\<in>set b. \<not> concerns p e \<and> \<not> registers c e"
    "\<forall>e\<in>set d. \<not> concerns p e \<and> \<not> registers c e" using assms(2) by auto
  have m: "exit_message m \<and> ucast ov = p"
  proof -
    have "Packet m ov \<in> set (filter (concerns p) es)" using xy by auto
    then show ?thesis by simp
  qed
  obtain ws1 pd1 s1 where 1: "run_state (listener_run os a [] []) s = ((ws1, pd1), s1)" by (metis surj_pair)
  obtain ws2 pd2 s2 where 2: "run_state (listener_step os x ws1 pd1) s1 = ((ws2, pd2), s2)" by (metis surj_pair)
  obtain ws3 pd3 s3 where 3: "run_state (listener_run os b ws2 pd2) s2 = ((ws3, pd3), s3)" by (metis surj_pair)
  obtain ws4 pd4 s4 where 4: "run_state (listener_step os y ws3 pd3) s3 = ((ws4, pd4), s4)" by (metis surj_pair)
  have 5: "run_state (listener_run os d ws4 pd4) s4 = ((ws, pd), t)"
    using assms(5) es(1) 1 2 3 4 by (simp add: run_listener_append)
  have o1: "map_of ws1 p = None \<and> map_of pd1 p = None \<and> exits s1 c = exits s c \<and> (\<forall>q. q \<noteq> p \<longrightarrow> map_of ws1 q \<noteq> Some c)"
    using other_run [OF 1 away(1)] by simp
  have cl: "\<exists>vs. calls s4 = calls s2 @ vs" "\<exists>vs. calls t = calls s4 @ vs"
    using listener_run_calls [OF 3] listener_step_calls [OF 4] listener_run_calls [OF 5] by auto
  have "\<exists>code us cs vs. (map_of ws4 p = None \<and> map_of pd4 p = None \<and> (\<forall>q. q \<noteq> p \<longrightarrow> map_of ws4 q \<noteq> Some c) \<and>
    exits s4 c = settled (Inr (iocp_reason m code)) (exits s c)) \<and>
    calls s4 = us @ cs @ vs \<and> exit_query p code cs"
    using xy(2)
  proof
    assume e: "(x, y) = (Registration p c, Packet m ov)"
    then have st2: "map_of ws2 = (map_of ws1)(p \<mapsto> c)" "pd2 = pd1" "exits s2 c = exits s1 c"
      using 2 o1 by (auto simp: listener_step_def register_waiter_def update_conv')
    then have "\<forall>q. q \<noteq> p \<longrightarrow> map_of ws2 q \<noteq> Some c" using o1 by simp
    note o3 = other_run [OF 3 away(2) this]
    obtain u code ds cs where u: "exits u = exits s3"
      and q: "exit_query (ucast ov) code cs" "calls s4 = calls s3 @ cs"
      and r: "pure_notify (ucast ov, Inr (iocp_reason m code)) (ws3, pd3) = ((ws4, pd4), ds)"
        "s4 = snd (run_state (deliver_list ds) u)"
      by (rule exit_packet_query [of os m ov ws3 pd3 s3 ws4 pd4 s4]) (use m 4 e in \<open>simp_all add: listener_step_def\<close>)
    have "oneshot_open (exits u c)" using o3 st2 o1 assms(3) u by simp
    from deliver_open [OF this] r o3 st2 o1 m u have "map_of ws4 p = None \<and> map_of pd4 p = None \<and>
      (\<forall>q. q \<noteq> p \<longrightarrow> map_of ws4 q \<noteq> Some c) \<and> exits s4 c = settled (Inr (iocp_reason m code)) (exits s c)"
      by (auto simp: pure_notify_simps delete_conv')
    moreover have "calls s4 = calls s3 @ cs @ []" "exit_query p code cs" using q m by simp_all
    ultimately show ?thesis by blast
  next
    assume e: "(x, y) = (Packet m ov, Registration p c)"
    obtain u code ds cs where u: "exits u = exits s1"
      and q: "exit_query (ucast ov) code cs" "calls s2 = calls s1 @ cs"
      and r: "pure_notify (ucast ov, Inr (iocp_reason m code)) (ws1, pd1) = ((ws2, pd2), ds)"
        "s2 = snd (run_state (deliver_list ds) u)"
      by (rule exit_packet_query [of os m ov ws1 pd1 s1 ws2 pd2 s2]) (use m 2 e in \<open>simp_all add: listener_step_def\<close>)
    have "pure_notify (ucast ov, Inr (iocp_reason m code)) (ws1, pd1) =
        ((ws1, AList.update p (Inr (iocp_reason m code)) pd1), [])"
      using o1 m by (simp add: pure_notify_simps)
    then have st2: "ws2 = ws1" "map_of pd2 p = Some (Inr (iocp_reason m code))" "exits s2 = exits s1"
      unfolding r(2) using r(1) u by (auto simp: update_conv')
    have "\<forall>q. q \<noteq> p \<longrightarrow> map_of ws2 q \<noteq> Some c" using st2(1) o1 by simp
    note o3 = other_run [OF 3 away(2) this]
    have "oneshot_open (exits s3 c)" using o3 st2 o1 assms(3) by simp
    from deliver_open [OF this] have "map_of ws4 p = None \<and> map_of pd4 p = None \<and>
      (\<forall>q. q \<noteq> p \<longrightarrow> map_of ws4 q \<noteq> Some c) \<and> exits s4 c = settled (Inr (iocp_reason m code)) (exits s c)"
      using 4 e o3 st2 o1 by (auto simp: listener_step_def register_waiter_def delete_conv')
    moreover obtain vs where "calls s4 = calls s1 @ cs @ vs" using cl(1) q(2) by auto
    moreover have "exit_query p code cs" using q(1) m by simp
    ultimately show ?thesis by blast
  qed
  then obtain code us cs vs where q: "calls s4 = us @ cs @ vs" "exit_query p code cs"
    and o4: "map_of ws4 p = None" "map_of pd4 p = None" "\<forall>q. q \<noteq> p \<longrightarrow> map_of ws4 q \<noteq> Some c"
    "exits s4 c = settled (Inr (iocp_reason m code)) (exits s c)" by blast
  have "oneshot_done (Inr (iocp_reason m code)) (exits t c)" "map_of ws p = None" "map_of pd p = None"
    using other_run [OF 5 away(3) o4(3)] o4 settled_done [OF assms(3,4)] by simp_all
  moreover obtain vs' where "calls t = us @ cs @ vs'" using q(1) cl(2) by auto
  ultimately show ?thesis using q(2) by blast
qed

text \<open>C9 (registration and notification commute): whether a child's exit message is processed after
  or before its registration, and whatever other children register and exit in between, its
  channel gets the classification of that message, and both tables forget the child. (When the
  message comes first it waits in the pending table, keyed by the process identifier alone.)\<close>

theorem iocp_delivers_in_any_order:
  assumes "filter (concerns p) es \<in> {[Registration p c, Packet m ov], [Packet m ov, Registration p c]}"
    and "\<forall>e\<in>set es. registers c e \<longrightarrow> concerns p e"
    and "oneshot_open (exits s c)" "ch_receiver (exits s c)"
    and "run_state (listener_run os es [] []) s = ((ws, pd), t)"
  shows "(\<exists>code us cs vs. oneshot_done (Inr (iocp_reason m code)) (exits t c) \<and>
       calls t = us @ cs @ vs \<and> exit_query p code cs) \<and> map_of ws p = None \<and> map_of pd p = None"
  by (rule listener_delivers [OF assms])

theorem iocp_delivers_in_any_order_witness:
  "\<exists>code. oneshot_done (Inr (iocp_reason 8 code)) (exits (snd (run_state
     (listener_run (failing_os :: unit win32) [Packet 8 100, Registration 7 1, Packet 6 100, Registration 100 0, Packet 7 7] [] [])
     (init_sys ()))) 0)"
proof -
  let ?es = "[Packet 8 100, Registration 7 1, Packet 6 100, Registration 100 0, Packet 7 7]"
  obtain ws pd t where r: "run_state (listener_run (failing_os :: unit win32) ?es [] []) (init_sys ()) = ((ws, pd), t)"
    by (metis surj_pair)
  have "filter (concerns 100) ?es \<in> {[Registration 100 0, Packet 8 100], [Packet 8 100, Registration 100 0]}"
    by (simp add: exit_message_def)
  from iocp_delivers_in_any_order [OF this _ _ _ r]
  have "\<exists>code. oneshot_done (Inr (iocp_reason 8 code)) (exits t 0)"
    by (auto simp: init_sys_def sync_channel_def oneshot_open_def exit_message_def simp del: listener_run.simps)
  then show ?thesis using r by simp
qed

text \<open>One result each, listener: over any run of registrations, each with a channel of its
  own, and exit notifications, no channel is sent two results and only registered channels are
  sent any.\<close>

theorem iocp_one_result_each:
  assumes "distinct (registered_channels ops)"
    and "run_ops pure_register pure_notify ops ([], []) = (t, ds)"
  shows "distinct (map fst ds) \<and> fst ` set ds \<subseteq> set (registered_channels ops) \<and>
    ran (iocp_routes t) \<inter> fst ` set ds = {}"
proof -
  have e: "iocp_routes ([], []) = (\<lambda>_. None)" by (simp add: iocp_routes_def fun_eq_iff)
  note once = iocp.run_ops_once [of "([], [])" ops, unfolded e, OF one_route_empty assms(1) _ assms(2)]
  show ?thesis using once by auto
qed

theorem iocp_one_result_each_witness:
  "distinct (map fst (snd (run_ops pure_register pure_notify
     [Notify_Op (4, Inr (Crash 5 0)), Register_Op 4 0, Notify_Op (4, Inr (Crash 6 0)), Register_Op 4 1] ([], []))))"
proof -
  let ?ops = "[Notify_Op (4, Inr (Crash 5 0)), Register_Op 4 0, Notify_Op (4, Inr (Crash 6 0)), Register_Op 4 1]"
  obtain t ds where r: "run_ops pure_register pure_notify ?ops ([], []) = (t, ds)" by (metis surj_pair)
  have "distinct (registered_channels ?ops)" by simp
  from iocp_one_result_each [OF this r] r show ?thesis by (simp del: run_ops.simps)
qed

section \<open>A turn of the loop as events\<close>

text \<open>What a turn that goes on does is what \<open>listener_run\<close> does with the registrations that were
  queued and then with the packet, if the wait brought one; the wait itself lies in between.\<close>

fun registration_event :: "iocp_message \<Rightarrow> iocp_event" where
  "registration_event (Register p c) = Registration p c"

fun packet_events :: "bool \<times> packet \<Rightarrow> iocp_event list" where
  "packet_events (success, b, k, ov) = (if \<not> success \<and> ov = 0 then [] else [Packet b ov])"

lemma register_all_events:
  "run_state (register_all ms ws pd) s = run_state (listener_run os (map registration_event ms) ws pd) s"
proof (induction ms arbitrary: ws pd s)
  case (Cons m ms)
  then show ?case by (cases m) (auto simp: listener_step_def split: prod.splits)
qed simp

lemma iocp_turn_events:
  assumes "iocp_turn os iocp ws pd s = Some (Listening ws' pd', t)"
  shows "\<exists>ws1 pd1 s1 status w.
    run_state (listener_run os (map registration_event (ch_buf (regs s))) ws pd) (s\<lparr>regs := (regs s)\<lparr>ch_buf := []\<rparr>\<rparr>) =
      ((ws1, pd1), s1) \<and>
    w_GetQueuedCompletionStatus os iocp 10 (0, 0, 0) (world s1) = (status, w) \<and> fst (snd (snd status)) \<noteq> SHUTDOWN_KEY \<and>
    run_state (listener_run os (packet_events status) ws1 pd1)
      (s1\<lparr>world := w, calls := calls s1 @ [GetQueuedCompletionStatus iocp 10 (0, 0, 0) status]\<rparr>) = ((ws', pd'), t)"
proof -
  obtain ws1 pd1 s1 where 1: "run_state (listener_run os (map registration_event (ch_buf (regs s))) ws pd)
      (s\<lparr>regs := (regs s)\<lparr>ch_buf := []\<rparr>\<rparr>) = ((ws1, pd1), s1)" by (metis surj_pair)
  obtain success b k ov w where 2: "w_GetQueuedCompletionStatus os iocp 10 (0, 0, 0) (world s1) = ((success, b, k, ov), w)"
    by (metis surj_pair)
  let ?s2 = "s1\<lparr>world := w, calls := calls s1 @ [GetQueuedCompletionStatus iocp 10 (0, 0, 0) (success, b, k, ov)]\<rparr>"
  obtain ws2 pd2 s2 where 3: "run_state (dispatch_notification os b ov ws1 pd1) ?s2 = ((ws2, pd2), s2)" by (metis surj_pair)
  have t: "iocp_turn os iocp ws pd s =
     (if k = SHUTDOWN_KEY then (case drain_remaining os iocp ws1 pd1 ?s2 of None \<Rightarrow> None
        | Some ((ws'', pd''), s'') \<Rightarrow> Some (run_state (end_listener os iocp ws'') s''))
      else if \<not> success \<and> ov = 0 then Some (Listening ws1 pd1, ?s2) else Some (Listening ws2 pd2, s2))"
    using 1 2 3
    by (cases success) (simp_all add: iocp_turn_def drain_registrations_def register_all_events [of _ _ _ _ os] get_status_def run_api)
  have e: "fst (run_state (end_listener os iocp ws'') s'') = Ended" for ws'' s''
    by (simp add: end_listener_def split: prod.splits)
  have k: "k \<noteq> SHUTDOWN_KEY"
  proof
    assume "k = SHUTDOWN_KEY"
    then obtain ws'' s'' where "run_state (end_listener os iocp ws'') s'' = (Listening ws' pd', t)"
      using assms unfolding t by (auto split: option.splits)
    then show False using e [of ws'' s''] by simp
  qed
  have "run_state (listener_run os (packet_events (success, b, k, ov)) ws1 pd1) ?s2 = ((ws', pd'), t)"
    using assms k 3 unfolding t by (auto simp: listener_step_def split: if_splits)
  then show ?thesis using 1 2 k by auto
qed

section \<open>Timeouts\<close>

text \<open>
  What Windows documents for a wait that times out: the call fails, the overlapped
  pointer is set to null and the other two out-variables are left as they were.
\<close>

definition times_out :: "'w win32 \<Rightarrow> handle \<Rightarrow> u32 \<Rightarrow> packet \<Rightarrow> 'w \<Rightarrow> 'w \<Rightarrow> bool" where
  "times_out os iocp timeout p w w' \<longleftrightarrow>
     w_GetQueuedCompletionStatus os iocp timeout p w = ((False, fst p, fst (snd p), 0), w')"

lemma drop_waiters_run:
  "\<exists>ex. run_state (drop_waiters ws) s = ((), s\<lparr>exits := ex\<rparr>) \<and>
     (\<forall>i. oneshot_open (exits s i) \<and> i \<in> snd ` set ws \<longrightarrow> oneshot_dead (ex i)) \<and>
     (\<forall>i. oneshot_dead (exits s i) \<longrightarrow> oneshot_dead (ex i)) \<and>
     (\<forall>i. i \<notin> snd ` set ws \<longrightarrow> ex i = exits s i)"
proof (induction ws arbitrary: s)
  case Nil
  show ?case by (rule exI [of _ "exits s"]) simp
next
  case (Cons a ws)
  obtain p c where a: "a = (p, c)" by (cases a)
  let ?s = "s\<lparr>exits := (exits s)(c := drop_sender (exits s c))\<rparr>"
  obtain ex where ex: "run_state (drop_waiters ws) ?s = ((), ?s\<lparr>exits := ex\<rparr>)"
    "\<forall>i. oneshot_open (exits ?s i) \<and> i \<in> snd ` set ws \<longrightarrow> oneshot_dead (ex i)"
    "\<forall>i. oneshot_dead (exits ?s i) \<longrightarrow> oneshot_dead (ex i)"
    "\<forall>i. i \<notin> snd ` set ws \<longrightarrow> ex i = exits ?s i"
    using Cons.IH [of ?s] by blast
  have dead: "oneshot_dead (drop_sender k)" if "oneshot_dead k" for k :: "term_result chan"
    using that by (simp add: oneshot_dead_def drop_sender_def)
  have 1: "oneshot_dead (ex i)" if "oneshot_open (exits s i)" "i \<in> snd ` set (a # ws)" for i
    using that ex(2,3) oneshot_drop [of "exits s i"] a by (cases "i = c") auto
  have 2: "oneshot_dead (ex i)" if "oneshot_dead (exits s i)" for i
  proof (cases "i = c")
    case True
    then show ?thesis using that ex(3) dead [of "exits s c"] by simp
  next
    case False
    then show ?thesis using that ex(3) by simp
  qed
  have 3: "ex i = exits s i" if "i \<notin> snd ` set (a # ws)" for i
    using that ex(4) a by auto
  show ?case
    by (rule exI [of _ ex]) (use ex(1) 1 2 3 a in \<open>simp add: drop_exit_sender_def\<close>)
qed

lemma idle_turn_ends:
  assumes "times_out os iocp 10 (0, 0, 0) (world s) w1" "times_out os iocp 0 (0, 0, 0) w1 w2" "ch_buf (regs s) = []"
    and "\<forall>c\<in>snd ` set ws. oneshot_open (exits s c)"
  shows "\<exists>t b. iocp_turn os iocp ws pd s = Some (Ended, t) \<and>
    CloseHandle iocp b \<in> set (calls t) \<and> \<not> ch_receiver (regs t) \<and> sentinels t = sentinels s \<and>
    (\<forall>c\<in>snd ` set ws. oneshot_dead (exits t c))"
proof -
  have 1: "w_GetQueuedCompletionStatus os iocp 10 (0, 0, 0) (world s) = ((False, 0, 0, 0), w1)"
    and 2: "w_GetQueuedCompletionStatus os iocp 0 (0, 0, 0) w1 = ((False, 0, 0, 0), w2)"
    using assms(1,2) by (simp_all add: times_out_def)
  let ?c1 = "GetQueuedCompletionStatus iocp 10 (0, 0, 0) (False, 0, 0, 0)"
  let ?c2 = "GetQueuedCompletionStatus iocp 0 (0, 0, 0) (False, 0, 0, 0)"
  obtain b w3 where 3: "w_CloseHandle os iocp w2 = (b, w3)" by (metis surj_pair)
  let ?regs = "(regs s)\<lparr>ch_buf := []\<rparr>"
  let ?s3 = "s\<lparr>regs := ?regs, world := w3, calls := calls s @ [?c1, ?c2, CloseHandle iocp b]\<rparr>"
  obtain ex where ex: "run_state (drop_waiters ws) ?s3 = ((), ?s3\<lparr>exits := ex\<rparr>)"
    "\<forall>i. oneshot_open (exits s i) \<and> i \<in> snd ` set ws \<longrightarrow> oneshot_dead (ex i)"
    using drop_waiters_run [of ws ?s3] by auto
  have "iocp_turn os iocp ws pd s = Some (Ended, ?s3\<lparr>exits := ex, regs := drop_receiver ?regs\<rparr>)"
    using 1 2 3 ex(1) assms(3)
    by (simp add: iocp_turn_def drain_registrations_def get_status_def run_api SHUTDOWN_KEY_def
        drain_remaining.simps end_listener_def close_handle_def)
  moreover have "\<forall>c\<in>snd ` set ws. oneshot_dead (ex c)" using ex(2) assms(4) by blast
  ultimately show ?thesis
    by (intro exI [of _ "?s3\<lparr>exits := ex, regs := drop_receiver ?regs\<rparr>"] exI [of _ b])
      (auto simp: drop_receiver_def)
qed

text \<open>C28 (a timeout shuts the listener down): the completion key starts as 0, which is
  SHUTDOWN_KEY, and is tested before the timeout is. So when the wait of a turn times out as
  documented, and nothing has arrived when the drain asks again, those idle 10 ms end the listener:
  it closes the port and every child registered with it hangs up, as if shutdown had been asked for.\<close>

theorem iocp_timeout_ends_listener:
  assumes "times_out os iocp 10 (0, 0, 0) (world s) w1" "times_out os iocp 0 (0, 0, 0) w1 w2" "ch_buf (regs s) = []"
    and "\<forall>c\<in>snd ` set ws. oneshot_open (exits s c)"
  shows "\<exists>t b. iocp_turn os iocp ws pd s = Some (Ended, t) \<and>
    CloseHandle iocp b \<in> set (calls t) \<and> \<not> ch_receiver (regs t) \<and>
    (\<forall>c\<in>snd ` set ws. fst (run_state (recv_exit c) t) = Hung_Up)"
proof -
  obtain t b where "iocp_turn os iocp ws pd s = Some (Ended, t)" "CloseHandle iocp b \<in> set (calls t)"
    "\<not> ch_receiver (regs t)" "\<forall>c\<in>snd ` set ws. oneshot_dead (exits t c)"
    using idle_turn_ends [OF assms] by blast
  then show ?thesis by (intro exI [of _ t] exI [of _ b]) (simp add: recv_exit_def oneshot_recv_dead)
qed

definition init_worry :: "'w \<Rightarrow> 'w worry_sys" where
  "init_worry w = pump_sys.extend (init_pump w []) \<lparr>regs = channel\<rparr>"

lemma init_worry_simps [simp]:
  "regs (init_worry w) = channel" "inbox (init_worry w) = channel\<lparr>ch_buf := []\<rparr>"
  "exits (init_worry w) i = sync_channel 1" "responses (init_worry w) i = sync_channel 1"
  "stuck (init_worry w) = False" "world (init_worry w) = w" "calls (init_worry w) = []"
  by (simp_all add: init_worry_def init_pump_def init_sys_def sys.defs pump_sys.defs)

definition idle_port_os :: "'w win32" where
  "idle_port_os = failing_os\<lparr>
     w_GetQueuedCompletionStatus := (\<lambda>h t p w. ((False, fst p, fst (snd p), 0), w))\<rparr>"

theorem iocp_timeout_ends_listener_witness:
  "\<exists>t b. iocp_turn (idle_port_os :: unit win32) 0x80 [(100, 3)] [] (init_worry ()) = Some (Ended, t) \<and>
     CloseHandle 0x80 b \<in> set (calls t) \<and> \<not> ch_receiver (regs t) \<and>
     (\<forall>c\<in>snd ` set [(100 :: pid, 3)]. fst (run_state (recv_exit c) t) = Hung_Up)"
  by (rule iocp_timeout_ends_listener) (auto simp: times_out_def idle_port_os_def channel_def)

section \<open>Draining the port\<close>

text \<open>
  A port as documented: packets come out in the order they were queued, an empty port
  times out, and reading the exit code of a process leaves the port alone.
  \<open>queued\<close> reads the packets off the world.
\<close>

definition port_contract :: "'w win32 \<Rightarrow> handle \<Rightarrow> ('w \<Rightarrow> packet list) \<Rightarrow> bool" where
  "port_contract os iocp queued \<longleftrightarrow>
     (\<forall>timeout p w. case queued w of
        [] \<Rightarrow> \<exists>w'. w_GetQueuedCompletionStatus os iocp timeout p w = ((False, fst p, fst (snd p), 0), w') \<and> queued w' = []
      | pk # pks \<Rightarrow> \<exists>w'. w_GetQueuedCompletionStatus os iocp timeout p w = ((True, pk), w') \<and> queued w' = pks) \<and>
     (\<forall>a p w. queued (snd (w_OpenProcess os a p w)) = queued w) \<and>
     (\<forall>h c w. queued (snd (w_GetExitCodeProcess os h c w)) = queued w) \<and>
     (\<forall>h w. queued (snd (w_CloseHandle os h w)) = queued w)"

lemma classify_queued:
  assumes "port_contract os iocp q"
  shows "q (world (snd (run_state (classify_iocp_exit os p m) s))) = q (world s)"
proof -
  note c = assms [unfolded port_contract_def]
  obtain h w1 where h: "w_OpenProcess os PROCESS_QUERY_LIMITED_INFORMATION p (world s) = (h, w1)" by (metis surj_pair)
  then have 1: "q w1 = q (world s)" using c by (metis snd_conv)
  obtain ok c' w2 where g: "w_GetExitCodeProcess os h 0 w1 = ((ok, c'), w2)" by (metis surj_pair)
  then have 2: "q w2 = q w1" using c by (metis snd_conv)
  obtain b w3 where cl: "w_CloseHandle os h w2 = (b, w3)" by (metis surj_pair)
  then have 3: "q w3 = q w2" using c by (metis snd_conv)
  show ?thesis using h g cl 1 2 3
    by (simp add: classify_iocp_exit_def get_exit_code_def run_api close_handle_def Let_def)
qed

lemma deliver_world: "world (snd (run_state (deliver c r) s)) = world s"
  by (auto simp: deliver_def send_exit_def drop_exit_sender_def split: send_outcome.splits)

lemma dispatch_notification_queued:
  assumes "port_contract os iocp q" "run_state (dispatch_notification os m ov ws pd) s = (st, t)"
  shows "q (world t) = q (world s)"
proof (cases "exit_message m")
  case False
  then show ?thesis using assms(2) by (cases st) (simp add: dispatch_notification_ignored)
next
  case True
  then have m: "\<not> (m \<noteq> JOB_OBJECT_MSG_EXIT_PROCESS \<and> m \<noteq> JOB_OBJECT_MSG_ABNORMAL_EXIT_PROCESS)"
    by (auto simp: exit_message_def JOB_OBJECT_MSG_EXIT_PROCESS_def JOB_OBJECT_MSG_ABNORMAL_EXIT_PROCESS_def)
  obtain r u where c: "run_state (classify_iocp_exit os (ucast ov) m) s = (r, u)"
    by (cases "run_state (classify_iocp_exit os (ucast ov) m) s")
  have "q (world u) = q (world s)" using classify_queued [OF assms(1), of "ucast ov" m s] c by simp
  moreover have "world t = world u"
  proof (cases "map_of ws (ucast ov)")
    case None
    then show ?thesis using assms(2) c
      unfolding dispatch_notification_def if_not_P [OF m] Let_def by simp
  next
    case (Some d)
    obtain x v where "run_state (deliver d r) u = (x, v)" by (cases "run_state (deliver d r) u")
    then show ?thesis using assms(2) c Some deliver_world [of d r u]
      unfolding dispatch_notification_def if_not_P [OF m] Let_def by auto
  qed
  ultimately show ?thesis by simp
qed

text \<open>The waiters' channels are open and their own.\<close>

definition waiters_ok :: "waiters \<Rightarrow> ('w, 'z) sys_scheme \<Rightarrow> bool" where
  "waiters_ok ws s \<longleftrightarrow> one_route (map_of ws) \<and>
     (\<forall>p c. map_of ws p = Some c \<longrightarrow> oneshot_open (exits s c) \<and> ch_receiver (exits s c))"

lemma waiters_ok_packet:
  assumes "waiters_ok ws s" "run_state (dispatch_notification os m ov ws pd) s = ((ws', pd'), t)"
  shows "waiters_ok ws' t"
proof -
  have ok: "\<forall>p c. map_of ws p = Some c \<longrightarrow> oneshot_open (exits s c)" "one_route (map_of ws)"
    using assms(1) by (auto simp: waiters_ok_def)
  from assms(2) ok(1) show ?thesis
  proof (cases rule: packet_effect)
    case ignored
    then show ?thesis using assms(1) by simp
  next
    case (waiting code c)
    have "oneshot_open (exits t d) \<and> ch_receiver (exits t d)" if d: "map_of ws' p = Some d" for p d
    proof -
      have "map_of ws p = Some d" "p \<noteq> ucast ov" using d waiting(3) by (auto split: if_splits)
      moreover from this waiting(2) ok(2) have "d \<noteq> c" unfolding one_route_def by metis
      ultimately show ?thesis using waiting(5) assms(1) by (auto simp: waiters_ok_def)
    qed
    then show ?thesis using ok(2) waiting(3) by (simp add: waiters_ok_def one_route_remove)
  next
    case (early code)
    then show ?thesis using assms(1) by (simp add: waiters_ok_def)
  qed
qed

text \<open>What a packet does to one waiter.\<close>

lemma packet_waiter:
  assumes "waiters_ok ws s" "run_state (dispatch_notification os m ov ws pd) s = ((ws', pd'), t)"
    and "map_of ws p = Some c"
  shows "if exit_message m \<and> ucast ov = p
     then map_of ws' p = None \<and> c \<notin> ran (map_of ws') \<and>
       (\<exists>code cs. oneshot_done (Inr (iocp_reason m code)) (exits t c) \<and> calls t = calls s @ cs \<and> exit_query p code cs)
     else map_of ws' p = Some c"
proof -
  have ok: "\<forall>p c. map_of ws p = Some c \<longrightarrow> oneshot_open (exits s c)" "one_route (map_of ws)"
    "oneshot_open (exits s c)" "ch_receiver (exits s c)"
    using assms(1,3) by (auto simp: waiters_ok_def)
  from assms(2) ok(1) show ?thesis
  proof (cases rule: packet_effect)
    case ignored
    then show ?thesis using assms(3) by simp
  next
    case (waiting code d)
    show ?thesis
    proof (cases "ucast ov = p")
      case True
      then have "d = c" using waiting(2) assms(3) by simp
      then show ?thesis using waiting True settled_done [OF ok(3,4)] ran_remove [OF ok(2) assms(3)]
        by auto
    next
      case False
      then show ?thesis using waiting assms(3) by auto
    qed
  next
    case (early code)
    then show ?thesis using assms(3) by auto
  qed
qed

lemma packet_other_channel:
  assumes "waiters_ok ws s" "run_state (dispatch_notification os m ov ws pd) s = ((ws', pd'), t)"
    and "c \<notin> ran (map_of ws)"
  shows "exits t c = exits s c" and "c \<notin> ran (map_of ws')"
proof -
  have ok: "\<forall>p c. map_of ws p = Some c \<longrightarrow> oneshot_open (exits s c)" "one_route (map_of ws)"
    using assms(1) by (auto simp: waiters_ok_def)
  from assms(2) ok(1) have "exits t c = exits s c \<and> c \<notin> ran (map_of ws')"
  proof (cases rule: packet_effect)
    case (waiting code d)
    then have "d \<noteq> c" using assms(3) by (auto simp: ran_def)
    then show ?thesis using waiting assms(3) ran_remove [OF ok(2) waiting(2)] by simp
  qed (use assms(3) in simp_all)
  then show "exits t c = exits s c" "c \<notin> ran (map_of ws')" by simp_all
qed

text \<open>The first exit message of the process in the queue.\<close>

fun first_exit :: "packet list \<Rightarrow> pid \<Rightarrow> u32 option" where
  "first_exit [] p = None"
| "first_exit ((b, k, ov) # pks) p = (if exit_message b \<and> ucast ov = p then Some b else first_exit pks p)"

text \<open>Between two states the channel got what that message says, with the code read in between by
  the identifier of the process.\<close>

definition exit_delivered ::
  "pid \<Rightarrow> u32 \<Rightarrow> nat \<Rightarrow> ('w, 'z) sys_scheme \<Rightarrow> ('w, 'z) sys_scheme \<Rightarrow> bool" where
  "exit_delivered p m c s t \<longleftrightarrow> (\<exists>code us cs vs. calls t = calls s @ us @ cs @ vs \<and> exit_query p code cs \<and>
     oneshot_done (Inr (if m = 8 then Crash code 0 else Unknown (make_exit_status code))) (exits t c))"

lemma exit_deliveredI:
  assumes "calls s1 = calls s @ us" "calls s2 = calls s1 @ cs" "calls t = calls s2 @ vs" "exit_query p code cs"
    and "oneshot_done (Inr (iocp_reason m code)) (exits t c)"
  shows "exit_delivered p m c s t"
  unfolding exit_delivered_def using assms
  by (intro exI [of _ code] exI [of _ us] exI [of _ cs] exI [of _ vs]) (simp add: iocp_reason_def)

lemma exit_delivered_earlier:
  "exit_delivered p m c s1 t \<Longrightarrow> calls s1 = calls s @ us \<Longrightarrow> exit_delivered p m c s t"
  unfolding exit_delivered_def by (metis append.assoc)

lemma drain_step:
  assumes "w_GetQueuedCompletionStatus os iocp 0 (0, 0, 0) (world s) = ((success, b, k, ov), w)"
  shows "drain_remaining os iocp ws pd s =
    (let s' = s\<lparr>world := w, calls := calls s @ [GetQueuedCompletionStatus iocp 0 (0, 0, 0) (success, b, k, ov)]\<rparr> in
     if \<not> success \<and> ov = 0 \<or> k = SHUTDOWN_KEY then Some ((ws, pd), s')
     else case run_state (dispatch_notification os b ov ws pd) s' of
       ((ws', pd'), s'') \<Rightarrow> drain_remaining os iocp ws' pd' s'')"
  using assms by (subst drain_remaining.simps) (simp add: get_status_def run_api Let_def)

lemma port_status:
  assumes "port_contract os iocp queued"
  shows "queued w = [] \<Longrightarrow>
      \<exists>w'. w_GetQueuedCompletionStatus os iocp timeout (a, b, c) w = ((False, a, b, 0), w') \<and> queued w' = []"
    and "queued w = pk # pks \<Longrightarrow>
      \<exists>w'. w_GetQueuedCompletionStatus os iocp timeout (a, b, c) w = ((True, pk), w') \<and> queued w' = pks"
proof -
  have "case queued w of
        [] \<Rightarrow> \<exists>w'. w_GetQueuedCompletionStatus os iocp timeout (a, b, c) w = ((False, fst (a, b, c), fst (snd (a, b, c)), 0), w') \<and> queued w' = []
      | pk # pks \<Rightarrow> \<exists>w'. w_GetQueuedCompletionStatus os iocp timeout (a, b, c) w = ((True, pk), w') \<and> queued w' = pks"
    using assms unfolding port_contract_def by blast
  then show "queued w = [] \<Longrightarrow>
      \<exists>w'. w_GetQueuedCompletionStatus os iocp timeout (a, b, c) w = ((False, a, b, 0), w') \<and> queued w' = []"
    and "queued w = pk # pks \<Longrightarrow>
      \<exists>w'. w_GetQueuedCompletionStatus os iocp timeout (a, b, c) w = ((True, pk), w') \<and> queued w' = pks"
    by auto
qed

text \<open>C19 (the drain loses nothing): when shutdown is asked for, draining the port returns, leaves the port empty,
  and every registered child whose exit message was queued gets the classification of its own
  message, the first one for its identifier, with the exit code read under that identifier during
  the drain; the other waiters stay registered.\<close>

theorem drain_delivers_queued:
  assumes "port_contract os iocp queued" "waiters_ok ws s" "queued (world s) = pks"
    and "\<forall>(b, k, ov)\<in>set pks. k \<noteq> SHUTDOWN_KEY"
  shows "\<exists>ws' pd' t. drain_remaining os iocp ws pd s = Some ((ws', pd'), t) \<and> queued (world t) = [] \<and>
    (\<forall>p c. map_of ws p = Some c \<longrightarrow>
       (case first_exit pks p of
          Some m \<Rightarrow> exit_delivered p m c s t
        | None \<Rightarrow> map_of ws' p = Some c))"
proof -
  have "\<exists>ws' pd' t. drain_remaining os iocp ws pd s = Some ((ws', pd'), t) \<and> queued (world t) = [] \<and>
    (\<exists>cs. calls t = calls s @ cs) \<and> (\<forall>c. c \<notin> ran (map_of ws) \<longrightarrow> exits t c = exits s c) \<and>
    (\<forall>p c. map_of ws p = Some c \<longrightarrow>
       (case first_exit pks p of
          Some m \<Rightarrow> exit_delivered p m c s t
        | None \<Rightarrow> map_of ws' p = Some c))"
    using assms(2-4)
  proof (induction pks arbitrary: ws pd s)
    case Nil
    obtain w where w: "w_GetQueuedCompletionStatus os iocp 0 (0, 0, 0) (world s) = ((False, 0, 0, 0), w)" "queued w = []"
      using port_status(1) [OF assms(1)] Nil.prems(2) by blast
    show ?case by (simp add: drain_step [OF w(1)] w(2))
  next
    case (Cons pk pks)
    obtain b k ov where pk: "pk = (b, k, ov)" by (cases pk)
    obtain w where w: "w_GetQueuedCompletionStatus os iocp 0 (0, 0, 0) (world s) = ((True, b, k, ov), w)" "queued w = pks"
      using port_status(2) [OF assms(1)] Cons.prems(2) pk by blast
    let ?s = "s\<lparr>world := w, calls := calls s @ [GetQueuedCompletionStatus iocp 0 (0, 0, 0) (True, b, k, ov)]\<rparr>"
    obtain ws1 pd1 s1 where d: "run_state (dispatch_notification os b ov ws pd) ?s = ((ws1, pd1), s1)"
      by (metis surj_pair)
    have ok: "waiters_ok ws ?s" using Cons.prems(1) by (simp add: waiters_ok_def)
    have q: "queued (world s1) = pks" using dispatch_notification_queued [OF assms(1) d] w(2) by simp
    have k: "k \<noteq> SHUTDOWN_KEY" "\<forall>(b, k, ov)\<in>set pks. k \<noteq> SHUTDOWN_KEY" using Cons.prems(3) pk by auto
    obtain ws' pd' t cs where IH: "drain_remaining os iocp ws1 pd1 s1 = Some ((ws', pd'), t)" "queued (world t) = []"
      "calls t = calls s1 @ cs" "\<forall>c. c \<notin> ran (map_of ws1) \<longrightarrow> exits t c = exits s1 c"
      "\<forall>p c. map_of ws1 p = Some c \<longrightarrow>
       (case first_exit pks p of Some m \<Rightarrow> exit_delivered p m c s1 t | None \<Rightarrow> map_of ws' p = Some c)"
      using Cons.IH [OF waiters_ok_packet [OF ok d] q k(2)] by blast
    obtain us where us: "calls s1 = calls s @ us"
      using listener_step_calls [of os "Packet b ov" ws pd ?s "(ws1, pd1)" s1] d by (auto simp: listener_step_def)
    have run: "drain_remaining os iocp ws pd s = Some ((ws', pd'), t)"
      using d k(1) IH(1) by (simp add: drain_step [OF w(1)])
    have frame: "exits t c = exits s c" if "c \<notin> ran (map_of ws)" for c
      using packet_other_channel [OF ok d that] IH(4) by simp
    have waiter: "case first_exit (pk # pks) p of Some m \<Rightarrow> exit_delivered p m c s t | None \<Rightarrow> map_of ws' p = Some c"
      if m: "map_of ws p = Some c" for p c
    proof (cases "exit_message b \<and> ucast ov = p")
      case True
      then obtain code ds where "oneshot_done (Inr (iocp_reason b code)) (exits s1 c)" "c \<notin> ran (map_of ws1)"
        "calls s1 = calls ?s @ ds" "exit_query p code ds"
        using packet_waiter [OF ok d m] by auto
      moreover from this have "oneshot_done (Inr (iocp_reason b code)) (exits t c)" using IH(4) by simp
      ultimately have "exit_delivered p b c s t"
        by (intro exit_deliveredI [of ?s s _ s1 ds t cs p code]) (simp_all add: IH(3))
      then show ?thesis using True pk by simp
    next
      case False
      then have "map_of ws1 p = Some c" using packet_waiter [OF ok d m] by (simp split: if_splits)
      with IH(5) have "case first_exit pks p of Some m \<Rightarrow> exit_delivered p m c s1 t | None \<Rightarrow> map_of ws' p = Some c"
        by blast
      then show ?thesis using False pk exit_delivered_earlier [OF _ us] by (auto split: option.splits)
    qed
    show ?case
      using run IH(2,3) us frame waiter by auto
  qed
  then show ?thesis by blast
qed

text \<open>A port that is a list of packets.\<close>

definition port_os :: "packet list win32" where
  "port_os = failing_os\<lparr>
     w_GetQueuedCompletionStatus := (\<lambda>h t p w. case w of [] \<Rightarrow> ((False, fst p, fst (snd p), 0), []) | pk # pks \<Rightarrow> ((True, pk), pks))\<rparr>"

lemma port_os_contract: "port_contract port_os 0x80 (\<lambda>w. w)"
  by (auto simp: port_contract_def port_os_def failing_os_def split: list.split)

theorem drain_delivers_queued_witness:
  "\<exists>ws' pd' t. drain_remaining port_os 0x80 [(100, 0), (101, 1), (102, 2)] [] (init_sys [(6, 1, 100), (8, 1, 100), (7, 1, 102)]) =
     Some ((ws', pd'), t) \<and> (\<exists>code. oneshot_done (Inr (Crash code 0)) (exits t 0)) \<and> map_of ws' 101 = Some 1 \<and>
     (\<exists>code. oneshot_done (Inr (Unknown (make_exit_status code))) (exits t 2))"
proof -
  let ?ws = "[(100 :: pid, 0), (101, 1), (102, 2)]" and ?pks = "[(6 :: u32, 1 :: usize, 100 :: usize), (8, 1, 100), (7, 1, 102)]"
  have ok: "waiters_ok ?ws (init_sys ?pks)"
    by (auto simp: waiters_ok_def one_route_def init_sys_def sync_channel_def oneshot_open_def split: if_splits)
  obtain ws' pd' t where d: "drain_remaining port_os 0x80 ?ws [] (init_sys ?pks) = Some ((ws', pd'), t)"
    "\<forall>p c. map_of ?ws p = Some c \<longrightarrow>
       (case first_exit ?pks p of Some m \<Rightarrow> exit_delivered p m c (init_sys ?pks) t | None \<Rightarrow> map_of ws' p = Some c)"
    using drain_delivers_queued [OF port_os_contract ok refl, of "[]"]
    by (auto simp: init_sys_def SHUTDOWN_KEY_def)
  have "exit_delivered 100 8 0 (init_sys ?pks) t" "exit_delivered 102 7 2 (init_sys ?pks) t"
    using d(2) [rule_format, of 100 0] d(2) [rule_format, of 102 2] by (simp_all add: exit_message_def)
  moreover have "map_of ws' 101 = Some 1"
    using d(2) [rule_format, of 101 1] by (simp add: exit_message_def)
  ultimately show ?thesis using d(1) unfolding exit_delivered_def by auto
qed

section \<open>The handles of the listener\<close>

lemma iocp_start_effect:
  assumes "run_state (iocp_start os job) s = (r, t)"
  shows "(\<forall>h. held t h = held s h + (case r of Inl e \<Rightarrow> 0 | Inr p \<Rightarrow> owned [io_iocp_handle p] h)) \<and>
    (case r of Inl e \<Rightarrow> True
     | Inr p \<Rightarrow> io_iocp_handle p \<noteq> 0 \<and> calls t = calls s @
         [CreateIoCompletionPort (io_iocp_handle p), SetJobCompletionPort job JOB_KEY (io_iocp_handle p) True,
          SpawnThread ''worrywart-iocp'' None])"
proof -
  obtain p w1 where 1: "w_CreateIoCompletionPort os (world s) = (p, w1)" by (metis surj_pair)
  obtain b w2 where 2: "w_SetJobCompletionPort os job JOB_KEY p w1 = (b, w2)" by (metis surj_pair)
  obtain e w3 where 3: "w_spawn_thread os ''worrywart-iocp'' w2 = (e, w3)" by (metis surj_pair)
  show ?thesis using assms 1 2 3
    by (cases e)
      (auto simp: iocp_start_def run_api last_os_error_def close_handle_def split: if_splits prod.splits)
qed

text \<open>C34 (no leak in Iocp::start): on every error path the port is closed again; on success the caller holds
  the one port, which is associated with the job under the job key before the thread starts.\<close>

theorem iocp_start_ledger:
  assumes "run_state (iocp_start os job) s = (r, t)"
  shows "(\<forall>h. held t h = held s h + (case r of Inl e \<Rightarrow> 0 | Inr p \<Rightarrow> owned [io_iocp_handle p] h)) \<and>
    (case r of Inl e \<Rightarrow> True
     | Inr p \<Rightarrow> io_iocp_handle p \<noteq> 0 \<and> calls t = calls s @
         [CreateIoCompletionPort (io_iocp_handle p), SetJobCompletionPort job JOB_KEY (io_iocp_handle p) True,
          SpawnThread ''worrywart-iocp'' None])"
  by (rule iocp_start_effect [OF assms])

definition start_os :: "unit win32" where
  "start_os = failing_os\<lparr>w_CreateIoCompletionPort := (\<lambda>w. (0x80, w)), w_CloseHandle := (\<lambda>h w. (True, w))\<rparr>"

theorem iocp_start_ledger_witness:
  "held (snd (run_state (iocp_start start_os 0x50) (init_worry ()))) 0x80 = 0"
proof -
  obtain r t where r: "run_state (iocp_start start_os 0x50) (init_worry ()) = (r, t)"
    by (cases "run_state (iocp_start start_os 0x50) (init_worry ())")
  have "\<exists>e. fst (run_state (iocp_start start_os 0x50) (init_worry ())) = Inl e"
    by (simp add: iocp_start_def start_os_def failing_os_def run_api last_os_error_def close_handle_def
        split: prod.splits)
  with iocp_start_ledger [OF r] r show ?thesis by auto
qed

end
