(* ===== verification/Sentinel.thy ===== *)
theory Sentinel
  imports Runtime
begin

text \<open>
  Technique 3, the in-process sentinel (\<open>src/crates/worrywart/src/sentinel.rs\<close>): the
  creation of the inheritable pipe, the listener thread that reads frames of eight
  bytes until the pipe ends, the decimal text in which the write handle travels to the
  child, and the child's side as \<open>bin/helper_sentinel.rs\<close> writes it.
\<close>

section \<open>Constants\<close>

definition wide :: "string \<Rightarrow> os_string" where
  "wide s = map (\<lambda>c. of_nat (of_char c)) s"

definition ENV_VAR :: os_string where
  "ENV_VAR = wide ''WORRYWART_SENTINEL_HANDLE''"

text \<open>\<open>*b"WORT"\<close>\<close>

definition SENTINEL_MAGIC :: "u8 list" where
  "SENTINEL_MAGIC = [0x57, 0x4F, 0x52, 0x54]"

definition SENTINEL_MSG_LEN :: nat where
  "SENTINEL_MSG_LEN = 8"

definition HANDLE_FLAG_INHERIT :: u32 where
  "HANDLE_FLAG_INHERIT = 1"

section \<open>The listener thread\<close>

text \<open>\<open>ReadFile\<close> into \<open>buf[offset..]\<close>.\<close>

definition write_at :: "u8 list \<Rightarrow> nat \<Rightarrow> u8 list \<Rightarrow> u8 list" where
  "write_at buf offset data = take offset buf @ data @ drop (offset + length data) buf"

text \<open>
  The loop of \<open>sentinel_thread\<close>. It runs as long as the child keeps its write handle
  open, so it may not return: \<open>None\<close>. A failed or empty read ends it.
\<close>

partial_function (option) sentinel_loop ::
  "'w win32 \<Rightarrow> handle \<Rightarrow> u8 list \<Rightarrow> nat \<Rightarrow> bool \<Rightarrow> ('w, 'z) sys_scheme \<Rightarrow>
   (bool \<times> ('w, 'z) sys_scheme) option" where
  "sentinel_loop os h buf offset received s =
     (case run_state (api (w_ReadFile os h (SENTINEL_MSG_LEN - offset))
             (ReadFile h (SENTINEL_MSG_LEN - offset))) s of
        (r, s') \<Rightarrow>
          case r of
            None \<Rightarrow> Some (received, s')
          | Some data \<Rightarrow>
              if data = [] then Some (received, s')
              else if SENTINEL_MSG_LEN \<le> offset + length data then
                sentinel_loop os h (write_at buf offset data) 0
                  (if take 4 (write_at buf offset data) = SENTINEL_MAGIC then True else received) s'
              else sentinel_loop os h (write_at buf offset data) (offset + length data) received s')"

definition sentinel_thread ::
  "'w win32 \<Rightarrow> handle \<Rightarrow> nat \<Rightarrow> ('w, 'z) sys_scheme \<Rightarrow> (unit \<times> ('w, 'z) sys_scheme) option" where
  "sentinel_thread os read_handle tx s =
     (case sentinel_loop os read_handle (replicate SENTINEL_MSG_LEN 0) 0 False s of
        None \<Rightarrow> None
      | Some (received, s') \<Rightarrow>
          Some (run_state (do { close_handle os read_handle; deliver_sentinel tx received }) s'))"

section \<open>\<open>create\<close>\<close>

text \<open>When the thread cannot be started its closure, with the sender, is dropped at once, and the
  receiver when the function returns.\<close>

record sentinel_pipe =
  sp_write_handle :: handle
  sp_sentinel_rx :: nat

definition start_listener :: "handle \<Rightarrow> nat \<Rightarrow> ('w, 'z, unit) io" where
  "start_listener read_handle tx =
     State (\<lambda>s. ((), s\<lparr>listeners := listeners s @ [(read_handle, tx)]\<rparr>))"

definition create :: "'w win32 \<Rightarrow> ('w, 'z, sentinel_pipe) fallible" where
  "create os = do {
     p \<leftarrow> api (w_CreatePipe os True) (CreatePipe True);
     case p of
       None \<Rightarrow> last_os_error os
     | Some (read_handle, write_handle) \<Rightarrow> do {
         b \<leftarrow> api (w_SetHandleInformation os read_handle HANDLE_FLAG_INHERIT 0)
                (SetHandleInformation read_handle HANDLE_FLAG_INHERIT 0);
         if \<not> b then do {
           e \<leftarrow> api (w_GetLastError os) GetLastError;
           close_handle os read_handle;
           close_handle os write_handle;
           err (Os_Error e)
         }
         else do {
           ch \<leftarrow> new_sentinel;
           t \<leftarrow> api (w_spawn_thread os ''worrywart-sentinel'') (SpawnThread ''worrywart-sentinel'');
           case t of
             Some e \<Rightarrow> do {
               drop_sentinel_sender ch;
               close_handle os read_handle;
               close_handle os write_handle;
               drop_sentinel_receiver ch;
               err e
             }
           | None \<Rightarrow> do {
               start_listener read_handle ch;
               ok \<lparr>sp_write_handle = write_handle, sp_sentinel_rx = ch\<rparr>
             }
         }
       }
   }"

section \<open>The handle in the environment\<close>

text \<open>\<open>usize::to_string\<close>\<close>

fun decimal :: "nat \<Rightarrow> os_string" where
  "decimal n = (if n < 10 then [0x30 + of_nat n] else decimal (n div 10) @ [0x30 + of_nat (n mod 10)])"

declare decimal.simps [simp del]

definition usize_to_string :: "usize \<Rightarrow> os_string" where
  "usize_to_string n = decimal (unat n)"

text \<open>\<open>str::parse::<usize>\<close>: an optional plus sign, digits, overflow checked.\<close>

fun parse_digits :: "nat \<Rightarrow> os_string \<Rightarrow> nat option" where
  "parse_digits acc [] = Some acc"
| "parse_digits acc (c # cs) =
     (if 0x30 \<le> c \<and> c \<le> 0x39 \<and> acc * 10 + unat (c - 0x30) < 2 ^ 64
      then parse_digits (acc * 10 + unat (c - 0x30)) cs else None)"

definition parse_usize :: "os_string \<Rightarrow> usize option" where
  "parse_usize s =
     (if s = [] \<or> s = [0x2B] then None
      else map_option of_nat (parse_digits 0 (if hd s = 0x2B then tl s else s)))"

section \<open>The child's side: \<open>bin/helper_sentinel.rs\<close>\<close>

text \<open>\<open>i32::to_le_bytes\<close>\<close>

definition to_le_bytes :: "u32 \<Rightarrow> u8 list" where
  "to_le_bytes c = map (\<lambda>i. ucast (drop_bit (8 * i) c)) [0, 1, 2, 3]"

definition helper_message :: "u8 list" where
  "helper_message = SENTINEL_MAGIC @ to_le_bytes 0"

text \<open>The handle the helper writes to: the variable, when it is set, parses and is not 0.\<close>

definition helper_handle :: "(os_string \<Rightarrow> os_string option) \<Rightarrow> handle option" where
  "helper_handle env_var =
     (case env_var ENV_VAR of
        None \<Rightarrow> None
      | Some val \<Rightarrow>
          (case parse_usize val of
             None \<Rightarrow> None
           | Some n \<Rightarrow> if n \<noteq> 0 then Some n else None))"

text \<open>The exit code of the program: 2 when the write fails or is short.\<close>

definition helper_main :: "'w win32 \<Rightarrow> (os_string \<Rightarrow> os_string option) \<Rightarrow> ('w, 'z, u32) io" where
  "helper_main os env_var =
     (case helper_handle env_var of
        None \<Rightarrow> State_Monad.return 0
      | Some handle \<Rightarrow> do {
          (success, written) \<leftarrow> api (w_WriteFile os handle helper_message) (WriteFile handle helper_message);
          State_Monad.return (if \<not> success \<or> written \<noteq> of_nat (length helper_message) then 2 else 0)
        })"

section \<open>Reference: frames of the stream\<close>

text \<open>What the bytes of a whole pipe mean: some aligned frame of eight bytes starts with
  the magic. A last, shorter frame counts for nothing.\<close>

function has_sentinel :: "u8 list \<Rightarrow> bool" where
  "has_sentinel bs =
     (if length bs < SENTINEL_MSG_LEN then False
      else take 4 bs = SENTINEL_MAGIC \<or> has_sentinel (drop SENTINEL_MSG_LEN bs))"
  by pat_completeness auto
termination
  by (relation "measure length") (auto simp: SENTINEL_MSG_LEN_def)

declare has_sentinel.simps [simp del]

text \<open>
  The documented behaviour of \<open>ReadFile\<close> on a pipe, for the bytes \<open>pending w\<close> that
  will come out of it before its end: a read takes between one byte and as many as it
  asked for, in order; at the end it fails or returns no byte.
\<close>

definition reads_pipe :: "'w win32 \<Rightarrow> handle \<Rightarrow> ('w \<Rightarrow> u8 list) \<Rightarrow> bool" where
  "reads_pipe os h pending \<longleftrightarrow>
     (\<forall>w n. 0 < n \<longrightarrow>
        (if pending w = [] then fst (w_ReadFile os h n w) = None \<or> fst (w_ReadFile os h n w) = Some []
         else \<exists>k. 1 \<le> k \<and> k \<le> n \<and> k \<le> length (pending w) \<and>
           fst (w_ReadFile os h n w) = Some (take k (pending w)) \<and>
           pending (snd (w_ReadFile os h n w)) = drop k (pending w)))"

lemma reads_pipe_end:
  "reads_pipe os h pending \<Longrightarrow> pending w = [] \<Longrightarrow> 0 < n \<Longrightarrow>
   fst (w_ReadFile os h n w) = None \<or> fst (w_ReadFile os h n w) = Some []"
  by (auto simp: reads_pipe_def)

lemma reads_pipe_some:
  assumes "reads_pipe os h pending" "pending w \<noteq> []" "0 < n"
  obtains k w' where "1 \<le> k" "k \<le> n" "k \<le> length (pending w)"
    "w_ReadFile os h n w = (Some (take k (pending w)), w')" "pending w' = drop k (pending w)"
proof -
  obtain k where "1 \<le> k" "k \<le> n" "k \<le> length (pending w)"
    "fst (w_ReadFile os h n w) = Some (take k (pending w))"
    "pending (snd (w_ReadFile os h n w)) = drop k (pending w)"
    using assms unfolding reads_pipe_def by metis
  then show ?thesis using that [of k "snd (w_ReadFile os h n w)"] by (metis prod.collapse)
qed

lemma sentinel_loop_correct:
  assumes "reads_pipe os h pending" "offset < SENTINEL_MSG_LEN" "length buf = SENTINEL_MSG_LEN"
  shows "\<exists>s'. sentinel_loop os h buf offset received s =
      Some (received \<or> has_sentinel (take offset buf @ pending (world s)), s') \<and>
      os_steps neutral s s'"
  using assms(2,3)
proof (induction "length (pending (world s))" arbitrary: s buf offset received rule: less_induct)
  case less
  let ?n = "SENTINEL_MSG_LEN - offset"
  have n: "0 < ?n" using less.prems by simp
  show ?case
  proof (cases "pending (world s) = []")
    case True
    obtain r w' where r: "w_ReadFile os h ?n (world s) = (r, w')" by (cases "w_ReadFile os h ?n (world s)")
    with reads_pipe_end [OF assms(1) True n] have e: "r = None \<or> r = Some []" by simp
    have "\<not> has_sentinel (take offset buf)"
      using less.prems by (subst has_sentinel.simps) simp
    with True e r show ?thesis
      by (subst sentinel_loop.simps) (auto simp: run_api neutral_def)
  next
    case False
    obtain k w' where k: "1 \<le> k" "k \<le> ?n" "k \<le> length (pending (world s))"
      and r: "w_ReadFile os h ?n (world s) = (Some (take k (pending (world s))), w')"
      and p: "pending w' = drop k (pending (world s))"
      by (rule reads_pipe_some [OF assms(1) False n])
    let ?data = "take k (pending (world s))"
    let ?s = "s\<lparr>world := w', calls := calls s @ [ReadFile h ?n (Some ?data)]\<rparr>"
    let ?buf = "write_at buf offset ?data"
    have len: "length ?data = k" and ne: "?data \<noteq> []" using k by (auto simp: min_def)
    have buf: "length ?buf = SENTINEL_MSG_LEN" "take (offset + k) ?buf = take offset buf @ ?data"
      using less.prems k len by (auto simp: write_at_def min_def)
    have all: "take offset buf @ pending (world s) = take (offset + k) ?buf @ pending w'"
      using buf(2) p by simp
    have os: "os_steps neutral s ?s" by (rule os_steps_one) (simp add: neutral_def)
    have dec: "length (pending (world ?s)) < length (pending (world s))"
      using p k False by simp
    let ?full = "SENTINEL_MSG_LEN \<le> offset + k"
    let ?rec = "if take 4 ?buf = SENTINEL_MAGIC then True else received"
    have step: "sentinel_loop os h buf offset received s =
       (if ?full then sentinel_loop os h ?buf 0 ?rec ?s
        else sentinel_loop os h ?buf (offset + k) received ?s)"
      using r ne len by (subst sentinel_loop.simps) (simp add: run_api)
    show ?thesis
    proof (cases ?full)
      case True
      then have full: "offset + k = SENTINEL_MSG_LEN" using k by simp
      then have buf': "take (offset + k) ?buf = ?buf" using buf(1) by simp
      have "has_sentinel (?buf @ pending w') \<longleftrightarrow> take 4 ?buf = SENTINEL_MAGIC \<or> has_sentinel (pending w')"
        using buf(1) by (subst has_sentinel.simps) (simp add: SENTINEL_MSG_LEN_def)
      then show ?thesis
        using less.hyps [OF dec, of 0 ?buf ?rec] buf(1) step True all buf' os_steps_trans [OF os]
        by (auto simp: SENTINEL_MSG_LEN_def)
    next
      case nf: False
      then show ?thesis
        using less.hyps [OF dec, of "offset + k" ?buf received] buf step all os_steps_trans [OF os] by auto
    qed
  qed
qed

lemma has_sentinel_append:
  assumes "length xs = SENTINEL_MSG_LEN * n"
  shows "has_sentinel (xs @ ys) \<longleftrightarrow> has_sentinel xs \<or> has_sentinel ys"
  using assms
proof (induction n arbitrary: xs)
  case 0
  moreover have "\<not> has_sentinel []" by (subst has_sentinel.simps) (simp add: SENTINEL_MSG_LEN_def)
  ultimately show ?case by simp
next
  case (Suc n)
  then have "length (drop SENTINEL_MSG_LEN xs) = SENTINEL_MSG_LEN * n" "SENTINEL_MSG_LEN \<le> length xs" "4 \<le> length xs"
    by (simp_all add: SENTINEL_MSG_LEN_def)
  then show ?case
    using Suc.IH [of "drop SENTINEL_MSG_LEN xs"] has_sentinel.simps [of "xs @ ys"] has_sentinel.simps [of xs]
    by simp
qed

lemma has_sentinel_short: "length bs < SENTINEL_MSG_LEN \<Longrightarrow> \<not> has_sentinel bs"
  by (subst has_sentinel.simps) simp

lemma has_sentinel_helper_message: "has_sentinel (helper_message @ rest)"
  by (subst has_sentinel.simps)
    (simp add: helper_message_def SENTINEL_MAGIC_def to_le_bytes_def SENTINEL_MSG_LEN_def)

lemma length_helper_message: "length helper_message = SENTINEL_MSG_LEN"
  by (simp add: helper_message_def SENTINEL_MAGIC_def to_le_bytes_def SENTINEL_MSG_LEN_def)

section \<open>The handle's text\<close>

lemma decimal_digits: "c \<in> set (decimal n) \<Longrightarrow> 0x30 \<le> c \<and> c \<le> 0x39"
proof (induction n rule: decimal.induct)
  case (1 n)
  have digit: "0x30 \<le> (0x30 + of_nat d :: u16) \<and> 0x30 + of_nat d \<le> (0x39 :: u16)" if "d < 10" for d
  proof -
    have "unat (0x30 + of_nat d :: u16) = 0x30 + d"
      using that by (simp add: unat_word_ariths unat_of_nat)
    then show ?thesis using that by (simp add: word_le_nat_alt)
  qed
  show ?case
  proof (cases "n < 10")
    case True
    then show ?thesis using 1(2) digit [of n] by (subst (asm) decimal.simps) auto
  next
    case False
    then show ?thesis using 1 digit [of "n mod 10"] by (subst (asm) (2) decimal.simps) auto
  qed
qed

lemma parse_digits_append:
  "parse_digits a (xs @ ys) = Option.bind (parse_digits a xs) (\<lambda>b. parse_digits b ys)"
  by (induction xs arbitrary: a) auto

lemma parse_digit:
  assumes "d < 10" "a * 10 + d < 2 ^ 64"
  shows "parse_digits a [0x30 + of_nat d] = Some (a * 10 + d)"
proof -
  have u: "unat (0x30 + of_nat d :: u16) = 0x30 + d" "unat (of_nat d :: u16) = d"
    using assms by (simp_all add: unat_word_ariths unat_of_nat)
  then have "0x30 \<le> (0x30 + of_nat d :: u16)" "0x30 + of_nat d \<le> (0x39 :: u16)"
    using assms by (simp_all add: word_le_nat_alt)
  then show ?thesis using u assms by simp
qed

lemma parse_decimal: "n < 2 ^ 64 \<Longrightarrow> parse_digits 0 (decimal n) = Some n"
proof (induction n rule: decimal.induct)
  case (1 n)
  show ?case
  proof (cases "n < 10")
    case True
    then show ?thesis using parse_digit [of n 0] by (subst decimal.simps) simp
  next
    case False
    have "n div 10 * 10 + n mod 10 = n" by simp
    then show ?thesis
      using False 1 parse_digit [of "n mod 10" "n div 10"]
      by (subst decimal.simps) (simp add: parse_digits_append)
  qed
qed

lemma decimal_nonempty [simp]: "decimal n \<noteq> []"
  by (subst decimal.simps) simp

lemma parse_usize_to_string: "parse_usize (usize_to_string n) = Some n"
proof -
  have plus: "0x2B \<notin> set (decimal m)" for m
    using decimal_digits [of "0x2B" m] by auto
  then have "decimal (unat n) \<noteq> [0x2B]" "hd (decimal (unat n)) \<noteq> 0x2B"
    by (metis list.set_intros(1)) (metis plus decimal_nonempty hd_in_set)
  moreover have "unat n < 2 ^ 64" using unsigned_less [of n] by simp
  ultimately show ?thesis
    by (simp add: parse_usize_def usize_to_string_def parse_decimal)
qed

interpretation handle_text: codec usize_to_string "\<lambda>t. the (parse_usize t)" "\<lambda>_. True"
  by unfold_locales (simp add: parse_usize_to_string)

lemma usize_to_string_env: "0 \<notin> set (usize_to_string n)"
  using decimal_digits [of 0 "unat n"] by (auto simp: usize_to_string_def)

section \<open>Properties\<close>

lemma deliver_sentinel_open:
  "oneshot_open (sentinels s i) \<Longrightarrow> ch_receiver (sentinels s i) \<Longrightarrow>
   \<exists>t. run_state (deliver_sentinel i b) s = ((), t) \<and> oneshot_done b (sentinels t i) \<and>
     calls t = calls s \<and> t = s\<lparr>sentinels := (sentinels s)(i := sentinels t i)\<rparr>"
  using oneshot_send [of "sentinels s i" b] by (auto simp: deliver_sentinel_def)

lemma sentinel_thread_ends:
  assumes "reads_pipe os h pending"
    and "oneshot_open (sentinels s tx)" "ch_receiver (sentinels s tx)"
  shows "\<exists>t. sentinel_thread os h tx s = Some ((), t) \<and>
     oneshot_done (has_sentinel (pending (world s))) (sentinels t tx) \<and>
     stuck t = stuck s \<and> (\<forall>g. held t g = held s g - owned [h] g) \<and>
     t = s\<lparr>world := world t, calls := calls t, sentinels := (sentinels s)(tx := sentinels t tx)\<rparr>"
proof -
  obtain s1 where l: "sentinel_loop os h (replicate SENTINEL_MSG_LEN 0) 0 False s =
      Some (has_sentinel (pending (world s)), s1)" and os: "os_steps neutral s s1"
    using sentinel_loop_correct [OF assms(1), of 0 "replicate SENTINEL_MSG_LEN 0" False s]
    by (auto simp: SENTINEL_MSG_LEN_def)
  obtain b w where c: "w_CloseHandle os h (world s1) = (b, w)" by fastforce
  let ?s2 = "s1\<lparr>world := w, calls := calls s1 @ [CloseHandle h b]\<rparr>"
  have "oneshot_open (sentinels ?s2 tx)" "ch_receiver (sentinels ?s2 tx)"
    using assms(2,3) os_steps_frame(3) [OF os] by simp_all
  then obtain t where t: "run_state (deliver_sentinel tx (has_sentinel (pending (world s)))) ?s2 = ((), t)"
    "oneshot_done (has_sentinel (pending (world s))) (sentinels t tx)" "calls t = calls ?s2"
    "t = ?s2\<lparr>sentinels := (sentinels ?s2)(tx := sentinels t tx)\<rparr>"
    using deliver_sentinel_open by blast
  obtain ws cs where s1: "s1 = s\<lparr>world := ws, calls := calls s @ cs\<rparr>" using os by (auto simp: os_steps_def)
  have r: "sentinel_thread os h tx s = Some ((), t)"
    using l c t(1) by (simp add: sentinel_thread_def close_handle_def run_api)
  have "\<forall>g. held t g = held s g - owned [h] g" using t(3) os_steps_held [OF os] by simp
  moreover have e: "t = s\<lparr>world := w, calls := calls s @ cs @ [CloseHandle h b],
      sentinels := (sentinels s)(tx := sentinels t tx)\<rparr>" by (subst t(4)) (simp add: s1)
  have "world t = w" "calls t = calls s @ cs @ [CloseHandle h b]"
    using arg_cong [OF e, of world] arg_cong [OF e, of calls] by simp_all
  with e have "t = s\<lparr>world := world t, calls := calls t, sentinels := (sentinels s)(tx := sentinels t tx)\<rparr>"
    by simp
  moreover have "stuck t = stuck s" by (subst t(4)) (simp add: s1)
  ultimately show ?thesis using r t(2) by blast
qed

text \<open>C15 (verdict): once the pipe ends, the listener returns whatever the sizes of its reads
  were. It reports \<open>true\<close> exactly when some aligned frame of eight bytes of the whole
  stream starts with the magic, it reports once without blocking, and it closes the read
  handle it owns and no other.\<close>

theorem sentinel_thread_verdict:
  assumes "reads_pipe os h pending"
    and "oneshot_open (sentinels s tx)" "ch_receiver (sentinels s tx)"
  shows "\<exists>t. sentinel_thread os h tx s = Some ((), t) \<and>
     oneshot_done (has_sentinel (pending (world s))) (sentinels t tx) \<and>
     stuck t = stuck s \<and> (\<forall>g. held t g = held s g - owned [h] g)"
  using sentinel_thread_ends [OF assms] by blast

definition chunk_os :: "u8 list win32" where
  "chunk_os = failing_os\<lparr>w_ReadFile := (\<lambda>h n w. if w = [] then (None, w) else (Some (take (min n 3) w), drop (min n 3) w))\<rparr>"

lemma chunk_os_reads_pipe: "reads_pipe chunk_os h (\<lambda>w. w)"
proof -
  have "\<exists>k. 1 \<le> k \<and> k \<le> n \<and> k \<le> length w \<and> take (min n 3) w = take k w \<and> drop (min n 3) w = drop k w"
    if "0 < n" "w \<noteq> []" for n and w :: "u8 list"
    by (rule exI [of _ "min (length w) (min n 3)"]) (use that in \<open>auto simp: min_def Suc_le_eq\<close>)
  then show ?thesis by (auto simp: reads_pipe_def chunk_os_def)
qed

theorem sentinel_thread_verdict_witness:
  "\<exists>t. sentinel_thread chunk_os 7 0 (init_sys helper_message) = Some ((), t) \<and>
     oneshot_done True (sentinels t 0)"
  using sentinel_thread_verdict [OF chunk_os_reads_pipe, of "init_sys helper_message" 0 7]
    has_sentinel_helper_message [of "[]"]
  by (auto simp: init_sys_def sync_channel_def oneshot_open_def)

text \<open>Protocol: a child that writes whole frames and then the message of
  \<open>helper_sentinel\<close> is reported as having sent its sentinel; a child that is stopped
  before a frame is complete is not.\<close>

theorem helper_message_recognised:
  assumes "reads_pipe os h pending" "oneshot_open (sentinels s tx)" "ch_receiver (sentinels s tx)"
    and "pending (world s) = frames @ take n helper_message"
    and "length frames = SENTINEL_MSG_LEN * k" "\<not> has_sentinel frames"
  shows "\<exists>t. sentinel_thread os h tx s = Some ((), t) \<and>
     oneshot_done (SENTINEL_MSG_LEN \<le> n) (sentinels t tx)"
proof -
  have "has_sentinel (pending (world s)) \<longleftrightarrow> SENTINEL_MSG_LEN \<le> n"
    using has_sentinel_append [OF assms(5)] has_sentinel_helper_message [of "[]"] assms(4,6)
      has_sentinel_short [of "take n helper_message"] length_helper_message
    by (cases "SENTINEL_MSG_LEN \<le> n") auto
  with sentinel_thread_verdict [OF assms(1-3)] show ?thesis by auto
qed

theorem helper_message_recognised_witness:
  "\<exists>t. sentinel_thread chunk_os 7 0 (init_sys (replicate 8 1 @ take 5 helper_message)) = Some ((), t) \<and>
     oneshot_done False (sentinels t 0)"
proof -
  have "\<not> has_sentinel (replicate 8 1)" by code_simp
  then show ?thesis
    using helper_message_recognised [OF chunk_os_reads_pipe,
        of "init_sys (replicate 8 1 @ take 5 helper_message)" 0 "replicate 8 1" 5 1 7]
    by (auto simp: init_sys_def sync_channel_def oneshot_open_def SENTINEL_MSG_LEN_def)
qed

lemma create_effect:
  assumes "run_state (create os) s = (r, t)"
  shows "case r of
     Inl e \<Rightarrow> (\<forall>h. held t h = held s h) \<and> listeners t = listeners s
   | Inr p \<Rightarrow> \<exists>rd. listeners t = listeners s @ [(rd, sp_sentinel_rx p)] \<and>
       (\<forall>h. held t h = held s h + owned [rd, sp_write_handle p] h) \<and>
       oneshot_open (sentinels t (sp_sentinel_rx p)) \<and> ch_receiver (sentinels t (sp_sentinel_rx p))"
  using assms
  by (auto simp: create_def run_api last_os_error_def close_handle_def new_sentinel_def
      start_listener_def sync_channel_def oneshot_open_def drop_sentinel_sender_def drop_sentinel_receiver_def
      split: option.splits prod.splits if_splits)

lemma create_calls:
  assumes "run_state (create os) s = (Inr p, t)"
  shows "\<exists>rd. listeners t = listeners s @ [(rd, sp_sentinel_rx p)] \<and>
    calls t = calls s @ [CreatePipe True (Some (rd, sp_write_handle p)), SetHandleInformation rd HANDLE_FLAG_INHERIT 0 True,
      SpawnThread ''worrywart-sentinel'' None]"
  using assms
  by (auto simp: create_def run_api last_os_error_def close_handle_def new_sentinel_def
      start_listener_def drop_sentinel_sender_def drop_sentinel_receiver_def
      split: option.splits prod.splits if_splits)

text \<open>C22 (handles): when \<open>create\<close> fails, at whichever call, it has closed every handle
  it was given and started no thread. When it succeeds, the caller holds the write end of the
  inheritable pipe \<open>CreatePipe\<close> made, and the one thread started holds its read end, which
  children no longer inherit, and the sender of the new channel.\<close>

theorem create_ledger:
  assumes "run_state (create os) s = (r, t)"
  shows "case r of
     Inl e \<Rightarrow> (\<forall>h. held t h = held s h) \<and> listeners t = listeners s
   | Inr p \<Rightarrow> \<exists>rd. calls t = calls s @ [CreatePipe True (Some (rd, sp_write_handle p)),
         SetHandleInformation rd HANDLE_FLAG_INHERIT 0 True, SpawnThread ''worrywart-sentinel'' None] \<and>
       listeners t = listeners s @ [(rd, sp_sentinel_rx p)] \<and>
       (\<forall>h. held t h = held s h + owned [rd, sp_write_handle p] h) \<and>
       oneshot_open (sentinels t (sp_sentinel_rx p)) \<and> ch_receiver (sentinels t (sp_sentinel_rx p))"
proof (cases r)
  case (Inl e)
  then show ?thesis using create_effect [OF assms] by simp
next
  case (Inr p)
  then show ?thesis using create_effect [OF assms] create_calls [OF assms [unfolded Inr]] by auto
qed

definition pipe_os :: "nat win32" where
  "pipe_os = failing_os\<lparr>w_CreatePipe := (\<lambda>b w. (Some (of_nat w, of_nat w + 1), w + 2)),
     w_SetHandleInformation := (\<lambda>h m f w. (True, w)), w_CloseHandle := (\<lambda>h w. (True, w))\<rparr>"

definition thread_pipe_os :: "nat win32" where
  "thread_pipe_os = pipe_os\<lparr>w_spawn_thread := (\<lambda>n w. (None, w))\<rparr>"

text \<open>Without a thread nothing stays; with one the two ends 4 and 5 are held.\<close>

theorem create_ledger_witness:
  "(\<forall>h. held (snd (run_state (create pipe_os) (init_sys 4))) h = 0) \<and>
   listeners (snd (run_state (create thread_pipe_os) (init_sys 4))) = [(4, 0)] \<and>
   held (snd (run_state (create thread_pipe_os) (init_sys 4))) 5 = 1"
proof (intro conjI)
  show "\<forall>h. held (snd (run_state (create pipe_os) (init_sys 4))) h = 0"
    using create_ledger [of pipe_os "init_sys 4" "fst (run_state (create pipe_os) (init_sys 4))"]
    by (simp add: create_def pipe_os_def failing_os_def run_api init_sys_def close_handle_def
        new_sentinel_def drop_sentinel_sender_def drop_sentinel_receiver_def split: prod.splits)
  have "fst (run_state (create thread_pipe_os) (init_sys 4)) = Inr \<lparr>sp_write_handle = 5, sp_sentinel_rx = 0\<rparr>"
    by (simp add: create_def thread_pipe_os_def pipe_os_def failing_os_def run_api init_sys_def
        new_sentinel_def start_listener_def)
  then obtain t where t: "run_state (create thread_pipe_os) (init_sys 4) = (Inr \<lparr>sp_write_handle = 5, sp_sentinel_rx = 0\<rparr>, t)"
    by (metis prod.collapse)
  have "hd (calls t) = CreatePipe True (Some (4, 5))"
    using arg_cong [OF t, of "\<lambda>x. hd (calls (snd x))"]
    by (simp add: create_def thread_pipe_os_def pipe_os_def failing_os_def run_api init_sys_def
        new_sentinel_def start_listener_def)
  then show "listeners (snd (run_state (create thread_pipe_os) (init_sys 4))) = [(4, 0)]"
    "held (snd (run_state (create thread_pipe_os) (init_sys 4))) 5 = 1"
    using create_ledger [OF t] t
    by (auto simp: init_sys_def valid_handle_def INVALID_HANDLE_VALUE_def)
qed

text \<open>The documented behaviour of \<open>WriteFile\<close> on the write end of the pipe: what it reports as
  written is appended to the stream, and a failed call appends nothing.\<close>

definition writes_pipe :: "'w win32 \<Rightarrow> handle \<Rightarrow> ('w \<Rightarrow> u8 list) \<Rightarrow> bool" where
  "writes_pipe os h pending \<longleftrightarrow>
     (\<forall>w bs. case w_WriteFile os h bs w of ((success, n), w') \<Rightarrow>
        unat n \<le> length bs \<and> pending w' = pending w @ (if success then take (unat n) bs else []))"

text \<open>C32 (helper): what \<open>helper_sentinel\<close> says of itself is what the listener says of it: on a fresh
  pipe it exits with 0 exactly when its message is reported as the sentinel, and with 2 when the
  write failed or was short, which the listener reports as no sentinel.\<close>

theorem helper_exit_matches_verdict:
  assumes "reads_pipe os rd pending" "writes_pipe os h pending"
    and "helper_handle env_var = Some h" "pending (world s) = []"
    and "oneshot_open (sentinels s tx)" "ch_receiver (sentinels s tx)"
    and "run_state (helper_main os env_var) s = (code, s1)"
  shows "code \<in> {0, 2} \<and> (\<exists>t. sentinel_thread os rd tx s1 = Some ((), t) \<and> oneshot_done (code = 0) (sentinels t tx))"
proof -
  obtain success n w where w: "w_WriteFile os h helper_message (world s) = ((success, n), w)" by (metis surj_pair)
  have p: "unat n \<le> SENTINEL_MSG_LEN" "pending w = take (if success then unat n else 0) helper_message"
    using assms(2) w assms(4) length_helper_message
    by (auto simp: writes_pipe_def dest!: spec [of _ "world s"] spec [of _ helper_message])
  have c: "code = (if \<not> success \<or> n \<noteq> 8 then 2 else 0)" and
    s1: "s1 = s\<lparr>world := w, calls := calls s @ [WriteFile h helper_message (success, n)]\<rparr>"
    using assms(3,7) w length_helper_message by (auto simp: helper_main_def run_api SENTINEL_MSG_LEN_def)
  have n: "SENTINEL_MSG_LEN \<le> (if success then unat n else 0) \<longleftrightarrow> code = 0"
  proof -
    have "unat n = 8 \<longleftrightarrow> n = 8" by (simp add: word_unat_eq_iff)
    then show ?thesis using p(1) c by (auto simp: SENTINEL_MSG_LEN_def)
  qed
  have "\<exists>t. sentinel_thread os rd tx s1 = Some ((), t) \<and>
      oneshot_done (SENTINEL_MSG_LEN \<le> (if success then unat n else 0)) (sentinels t tx)"
    by (rule helper_message_recognised [where frames = "[]" and k = 0, OF assms(1)])
      (use assms(5,6) p(2) in \<open>simp_all add: s1 has_sentinel_short SENTINEL_MSG_LEN_def\<close>)
  then show ?thesis using n c by auto
qed

definition pipe_file_os :: "u8 list win32" where
  "pipe_file_os = chunk_os\<lparr>w_WriteFile := (\<lambda>h bs w. ((True, of_nat (min 8 (length bs))), w @ take 8 bs))\<rparr>"

theorem helper_exit_matches_verdict_witness:
  "\<exists>t. sentinel_thread pipe_file_os 7 0
      (snd (run_state (helper_main pipe_file_os (\<lambda>_. Some (usize_to_string 12))) (init_sys []))) = Some ((), t) \<and>
    oneshot_done True (sentinels t 0)"
proof -
  have e: "w_ReadFile pipe_file_os = w_ReadFile chunk_os" by (simp add: pipe_file_os_def)
  have r: "reads_pipe pipe_file_os 7 (\<lambda>w. w)"
    using chunk_os_reads_pipe [of 7] by (simp only: reads_pipe_def e)
  have u: "m \<le> 8 \<Longrightarrow> unat (of_nat m :: u32) = m" for m :: nat
    by (simp add: unat_of_nat)
  have w: "writes_pipe pipe_file_os 12 (\<lambda>w. w)"
    by (simp add: writes_pipe_def pipe_file_os_def u min_def)
  obtain code s1 where m: "run_state (helper_main pipe_file_os (\<lambda>_. Some (usize_to_string 12))) (init_sys []) = (code, s1)"
    by (metis surj_pair)
  have h: "helper_handle (\<lambda>_. Some (usize_to_string 12)) = Some 12"
    by (simp add: helper_handle_def parse_usize_to_string)
  have "code = 0" using m h
    by (auto simp: helper_main_def run_api pipe_file_os_def length_helper_message SENTINEL_MSG_LEN_def)
  then show ?thesis
    using helper_exit_matches_verdict [OF r w h _ _ _ m] m
    by (auto simp: init_sys_def sync_channel_def oneshot_open_def)
qed

end
