(* ===== verification/Spawn.thy ===== *)
theory Spawn
  imports Builder Child Iocp Sentinel
begin

text \<open>
  \<open>Worrywart\<close> and \<open>WorrywartCommand::spawn\<close> of \<open>src/crates/worrywart/src/core.rs\<close>:
  the job object, the choice of the spawn path by the monitors, the three paths, and the
  sentinel pipe around them. The lazily started pump and listener (\<open>Arc<Mutex<Option<_>>>\<close>)
  are two fields of the state; a mutex is held for the whole of each use, so that the uses
  are atomic here, and poisoning is not modelled.
\<close>

section \<open>State\<close>

record 'w ww_sys = "'w worry_sys" +
  ww_pump :: "pump_object option"
  ww_iocp :: "iocp_object option"

type_synonym ('w, 'z, 'a) ww_io = "(('w, 'z) ww_sys_scheme, 'a) state"
type_synonym ('w, 'z, 'a) ww_fallible = "(('w, 'z) ww_sys_scheme, io_error + 'a) state"

definition JOB_OBJECT_LIMIT_KILL_ON_JOB_CLOSE :: u32 where
  "JOB_OBJECT_LIMIT_KILL_ON_JOB_CLOSE = 0x2000"

section \<open>\<open>Worrywart\<close>\<close>

record worrywart = wj_job :: handle

definition job_drop :: "'w win32 \<Rightarrow> handle \<Rightarrow> ('w, 'z, unit) io" where
  "job_drop os job =
     (if job \<noteq> null_handle then do { close_handle os job; State_Monad.return () }
      else State_Monad.return ())"

definition worrywart_new :: "'w win32 \<Rightarrow> ('w, 'z, worrywart) ww_fallible" where
  "worrywart_new os = do {
     job \<leftarrow> api (w_CreateJobObject os) CreateJobObject;
     if job = null_handle then last_os_error os
     else do {
       success \<leftarrow> api (w_SetJobLimitFlags os job JOB_OBJECT_LIMIT_KILL_ON_JOB_CLOSE)
         (SetJobLimitFlags job JOB_OBJECT_LIMIT_KILL_ON_JOB_CLOSE);
       if \<not> success then do {
         close_handle os job;
         last_os_error os
       }
       else do {
         State (\<lambda>s. ((), s\<lparr>ww_pump := None, ww_iocp := None\<rparr>));
         ok \<lparr>wj_job = job\<rparr>
       }
     }
   }"

definition command :: "worrywart \<Rightarrow> os_string \<Rightarrow> worrywart_command" where
  "command ww program = new_with_state program (wj_job ww)"

section \<open>The three paths\<close>

text \<open>\<open>build_env_block\<close> reads the parent's environment only when it merges into it.\<close>

definition environment_block :: "'w win32 \<Rightarrow> worrywart_command \<Rightarrow> ('w, 'z, u16 list option) io" where
  "environment_block os c = do {
     vars \<leftarrow> (if wc_env_clear c \<or> wc_envs c = [] then State_Monad.return []
       else api (w_vars_os os) VarsOs);
     State_Monad.return (build_env_block vars (wc_env_clear c) (wc_envs c))
   }"

definition ensure_pump :: "'w win32 \<Rightarrow> ('w, 'z, unit) ww_fallible" where
  "ensure_pump os = do {
     s \<leftarrow> State_Monad.get;
     (case ww_pump s of
        Some p \<Rightarrow> ok ()
      | None \<Rightarrow> try_bind (pump_start os) (\<lambda>p. do {
          State (\<lambda>s. ((), s\<lparr>ww_pump := Some p\<rparr>));
          ok ()
        }))
   }"

text \<open>\<open>None\<close> while the pump has not answered.\<close>

definition spawn_debug ::
  "'w win32 \<Rightarrow> ('w, 'z ww_sys_ext, unit) iocp_io \<Rightarrow> worrywart_command \<Rightarrow>
   ('w, 'z, (io_error + worrywart_child) option) ww_io" where
  "spawn_debug os others c = do {
     p \<leftarrow> ensure_pump os;
     case p of
       Inl e \<Rightarrow> State_Monad.return (Some (Inl e))
     | Inr _ \<Rightarrow> do {
         environment \<leftarrow> environment_block os c;
         exit_rx \<leftarrow> new_exit;
         r \<leftarrow> spawn_child others \<lparr>
           rq_application_name = None,
           rq_command_line = build_command_line (wc_program c) (wc_args c),
           rq_environment = environment,
           rq_current_directory = map_option to_wide_null (wc_current_dir c),
           rq_affinity_mask = wc_affinity_mask c,
           rq_exit_tx = exit_rx,
           rq_stdin_handle = INVALID_HANDLE_VALUE,
           rq_stdout_handle = INVALID_HANDLE_VALUE,
           rq_stderr_handle = INVALID_HANDLE_VALUE,
           rq_use_stdio_handles = False,
           rq_inherit_handles = monitor.Sentinel \<in> set (wc_monitors c),
           rq_job_handle = wc_job c\<rparr>;
         case r of
           None \<Rightarrow> State_Monad.return None
         | Some (Inl e) \<Rightarrow> do {
             drop_exit_receiver exit_rx;
             State_Monad.return (Some (Inl e))
           }
         | Some (Inr resp) \<Rightarrow> State_Monad.return (Some (Inr \<lparr>
             wk_pid = sr_pid resp,
             wk_process_handle = sr_process_handle resp,
             wk_thread_handle = sr_thread_handle resp,
             wk_exit_rx = Some exit_rx,
             wk_cached_reason = None,
             wk_sentinel_rx = None\<rparr>))
       }
   }"

definition ensure_iocp :: "'w win32 \<Rightarrow> handle \<Rightarrow> ('w, 'z, unit) ww_fallible" where
  "ensure_iocp os job = do {
     s \<leftarrow> State_Monad.get;
     (case ww_iocp s of
        Some p \<Rightarrow> ok ()
      | None \<Rightarrow> try_bind (iocp_start os job) (\<lambda>p. do {
          State (\<lambda>s. ((), s\<lparr>ww_iocp := Some p\<rparr>));
          ok ()
        }))
   }"

definition spawn_job_monitored ::
  "'w win32 \<Rightarrow> worrywart_command \<Rightarrow> ('w, 'z, worrywart_child) ww_fallible" where
  "spawn_job_monitored os c = do {
     environment \<leftarrow> environment_block os c;
     try_bind (create_process_for_job os \<lparr>
         jp_application_name = None,
         jp_command_line = build_command_line (wc_program c) (wc_args c),
         jp_environment = environment,
         jp_current_directory = map_option to_wide_null (wc_current_dir c),
         jp_job_handle = wc_job c,
         jp_inherit_handles = monitor.Sentinel \<in> set (wc_monitors c)\<rparr>)
       (\<lambda>pi. try_bind (ensure_iocp os (wc_job c)) (\<lambda>_. do {
         exit_rx \<leftarrow> new_exit;
         iocp_register (dwProcessId pi) exit_rx;
         (if hThread pi \<noteq> null_handle \<and> hThread pi \<noteq> INVALID_HANDLE_VALUE
          then do { close_handle os (hThread pi); State_Monad.return () }
          else State_Monad.return ());
         ok \<lparr>wk_pid = dwProcessId pi, wk_process_handle = hProcess pi,
           wk_thread_handle = INVALID_HANDLE_VALUE, wk_exit_rx = Some exit_rx,
           wk_cached_reason = None, wk_sentinel_rx = None\<rparr>
       }))
   }"

definition std_command_of :: "worrywart_command \<Rightarrow> std_command" where
  "std_command_of c = \<lparr>sc_program = wc_program c, sc_args = wc_args c, sc_env_clear = wc_env_clear c,
     sc_envs = wc_envs c, sc_current_dir = wc_current_dir c\<rparr>"

definition spawn_plain :: "'w win32 \<Rightarrow> worrywart_command \<Rightarrow> ('w, 'z, worrywart_child) ww_fallible" where
  "spawn_plain os c =
     try_bind (api (w_command_spawn os (std_command_of c)) (CommandSpawn (std_command_of c)))
       (\<lambda>child. ok (from_std child))"

section \<open>\<open>spawn\<close>\<close>

text \<open>After the path is taken: the parent's write end is closed; when that fails the child and the
  pipe go out of scope, after the error was read.\<close>

definition finish_sentinel ::
  "'w win32 \<Rightarrow> sentinel_pipe \<Rightarrow> worrywart_child \<Rightarrow> ('w, 'z, worrywart_child) ww_fallible" where
  "finish_sentinel os pipe child = do {
     success \<leftarrow> close_handle os (sp_write_handle pipe);
     if \<not> success then do {
       e \<leftarrow> last_os_error os;
       child_drop os child;
       (case wk_exit_rx child of Some i \<Rightarrow> drop_exit_receiver i | None \<Rightarrow> State_Monad.return ());
       drop_sentinel_receiver (sp_sentinel_rx pipe);
       State_Monad.return e
     }
     else ok (child\<lparr>wk_sentinel_rx := Some (sp_sentinel_rx pipe)\<rparr>)
   }"

definition spawn_path ::
  "'w win32 \<Rightarrow> ('w, 'z ww_sys_ext, unit) iocp_io \<Rightarrow> worrywart_command \<Rightarrow>
   ('w, 'z, (io_error + worrywart_child) option) ww_io" where
  "spawn_path os others c =
     (let use_debug_api = DebugApi \<in> set (wc_monitors c);
          use_job_object = JobObject \<in> set (wc_monitors c);
          use_sentinel = monitor.Sentinel \<in> set (wc_monitors c)
      in if use_debug_api then spawn_debug os others c
         else if use_job_object \<or> use_sentinel
         then do { r \<leftarrow> spawn_job_monitored os c; State_Monad.return (Some r) }
         else do { r \<leftarrow> spawn_plain os c; State_Monad.return (Some r) })"

definition with_sentinel_env :: "sentinel_pipe \<Rightarrow> worrywart_command \<Rightarrow> worrywart_command" where
  "with_sentinel_env pipe c =
     c\<lparr>wc_envs := wc_envs c @ [(ENV_VAR, usize_to_string (sp_write_handle pipe))]\<rparr>"

definition spawn ::
  "'w win32 \<Rightarrow> ('w, 'z ww_sys_ext, unit) iocp_io \<Rightarrow> worrywart_command \<Rightarrow>
   ('w, 'z, (io_error + worrywart_child) option) ww_io" where
  "spawn os others c =
     (if monitor.Sentinel \<in> set (wc_monitors c) then do {
        p \<leftarrow> create os;
        case p of
          Inl e \<Rightarrow> State_Monad.return (Some (Inl e))
        | Inr pipe \<Rightarrow> do {
            r \<leftarrow> spawn_path os others (with_sentinel_env pipe c);
            case r of
              None \<Rightarrow> State_Monad.return None
            | Some (Inl e) \<Rightarrow> do {
                drop_sentinel_receiver (sp_sentinel_rx pipe);
                State_Monad.return (Some (Inl e))
              }
            | Some (Inr child) \<Rightarrow> do {
                child' \<leftarrow> finish_sentinel os pipe child;
                State_Monad.return (Some child')
              }
          }
      }
      else spawn_path os others c)"

section \<open>Effects of the parts\<close>

definition parent_env :: "'w win32 \<Rightarrow> ('w, 'z) sys_scheme \<Rightarrow> env_pairs" where
  "parent_env os s = fst (w_vars_os os (world s))"

lemma build_env_block_unread:
  "c \<or> envs = [] \<Longrightarrow> build_env_block vars c envs = build_env_block vars' c envs"
  by (auto simp: build_env_block_def sorted_pairs_def merged_pairs_def)

lemma environment_block_run:
  "\<exists>w cs. run_state (environment_block os c) s =
     (build_env_block (parent_env os s) (wc_env_clear c) (wc_envs c), s\<lparr>world := w, calls := calls s @ cs\<rparr>) \<and>
     (\<forall>x\<in>set cs. quiet x)"
proof (cases "wc_env_clear c \<or> wc_envs c = []")
  case True
  then show ?thesis
    using build_env_block_unread [OF True, of "[]" "parent_env os s"]
    by (intro exI [of _ "world s"] exI [of _ "[]"]) (simp add: environment_block_def)
next
  case False
  obtain v w where v: "w_vars_os os (world s) = (v, w)" by (cases "w_vars_os os (world s)")
  then show ?thesis using False
    by (intro exI [of _ w] exI [of _ "[VarsOs v]"])
      (simp add: environment_block_def run_api parent_env_def quiet_def neutral_def)
qed

lemma made_processes_simps [simp]:
  "made_processes [] = []" "made_processes (cs @ ds) = made_processes cs @ made_processes ds"
  "made_processes (c # cs) =
     concat (map (\<lambda>(a, made, pi). if made then [(a, pi)] else []) (creation c)) @ made_processes cs"
  by (simp_all add: made_processes_def)

lemma made_quiet: "\<forall>c\<in>set cs. quiet c \<Longrightarrow> made_processes cs = []"
  by (simp add: made_processes_def creations_quiet)

lemma spawned_made: "spawned_handles cs = concat (map (\<lambda>(a, pi). [hProcess pi, hThread pi]) (made_processes cs))"
proof (induction cs)
  case (Cons a cs)
  then show ?case by (cases a) auto
qed simp

text \<open>The new port, if the listener was started in between.\<close>

definition new_port :: "('w, 'z) ww_sys_scheme \<Rightarrow> ('w, 'z) ww_sys_scheme \<Rightarrow> handle list" where
  "new_port s t = (case (ww_iocp s, ww_iocp t) of (None, Some p) \<Rightarrow> [io_iocp_handle p] | _ \<Rightarrow> [])"

lemma iocp_start_made:
  assumes "run_state (iocp_start os job) s = (r, t)"
  shows "made_processes (calls t) = made_processes (calls s)"
proof -
  obtain p w1 where 1: "w_CreateIoCompletionPort os (world s) = (p, w1)" by (metis surj_pair)
  obtain b w2 where 2: "w_SetJobCompletionPort os job JOB_KEY p w1 = (b, w2)" by (metis surj_pair)
  obtain e w3 where 3: "w_spawn_thread os ''worrywart-iocp'' w2 = (e, w3)" by (metis surj_pair)
  show ?thesis using assms 1 2 3
    by (cases e)
      (auto simp: iocp_start_def run_api last_os_error_def close_handle_def split: if_splits prod.splits)
qed

lemma iocp_start_cells:
  fixes s :: "('w, 'z) ww_sys_scheme"
  assumes "run_state (iocp_start os job) s = (r, t)"
  shows "ww_iocp t = ww_iocp s \<and> ww_pump t = ww_pump s"
proof -
  obtain p w1 where 1: "w_CreateIoCompletionPort os (world s) = (p, w1)" by (metis surj_pair)
  obtain b w2 where 2: "w_SetJobCompletionPort os job JOB_KEY p w1 = (b, w2)" by (metis surj_pair)
  obtain e w3 where 3: "w_spawn_thread os ''worrywart-iocp'' w2 = (e, w3)" by (metis surj_pair)
  show ?thesis using assms 1 2 3
    by (cases e)
      (auto simp: iocp_start_def run_api last_os_error_def close_handle_def split: if_splits prod.splits)
qed

lemma ensure_iocp_effect:
  assumes "run_state (ensure_iocp os job) s = (r, t)"
  shows "made_processes (calls t) = made_processes (calls s)"
    and "held t h = held s h + owned (new_port s t) h"
    and "(\<exists>e. r = Inl e) \<longrightarrow> ww_iocp s = None \<and> ww_iocp t = None"
proof -
  have "made_processes (calls t) = made_processes (calls s) \<and> held t h = held s h + owned (new_port s t) h \<and>
    ((\<exists>e. r = Inl e) \<longrightarrow> ww_iocp s = None \<and> ww_iocp t = None)"
  proof (cases "ww_iocp s")
    case None
    obtain x u where x: "run_state (iocp_start os job) s = (x, u)" by (cases "run_state (iocp_start os job) s")
    note eff = iocp_start_effect [OF x] and made = iocp_start_made [OF x] and cells = iocp_start_cells [OF x]
    show ?thesis using assms None x eff made cells
      by (cases x) (auto simp: ensure_iocp_def new_port_def State_Monad.get_def)
  next
    case (Some p)
    then show ?thesis using assms by (auto simp: ensure_iocp_def new_port_def State_Monad.get_def)
  qed
  then show "made_processes (calls t) = made_processes (calls s)" "held t h = held s h + owned (new_port s t) h"
    "(\<exists>e. r = Inl e) \<longrightarrow> ww_iocp s = None \<and> ww_iocp t = None" by blast+
qed

lemma new_exit_frame:
  fixes s :: "('w, 'z) ww_sys_scheme"
  shows "\<exists>s'. run_state new_exit s = (next_exit s, s') \<and> calls s' = calls s \<and> ww_iocp s' = ww_iocp s \<and> world s' = world s"
  by (simp add: new_exit_def)

lemma iocp_register_frame:
  fixes s :: "('w, 'z) ww_sys_scheme"
  shows "\<exists>s'. run_state (iocp_register p c) s = ((), s') \<and> calls s' = calls s \<and> ww_iocp s' = ww_iocp s \<and> world s' = world s"
  by (auto simp: iocp_register_def drop_exit_sender_def split: send_outcome.splits)

section \<open>The job path\<close>

text \<open>What the job path asks \<open>CreateProcessW\<close> for.\<close>

definition job_path_args :: "'w win32 \<Rightarrow> ('w, 'z) sys_scheme \<Rightarrow> worrywart_command \<Rightarrow> create_args" where
  "job_path_args os s c = process_args None (build_command_line (wc_program c) (wc_args c))
     (build_env_block (parent_env os s) (wc_env_clear c) (wc_envs c))
     (map_option to_wide_null (wc_current_dir c)) (wc_job c) None
     (monitor.Sentinel \<in> set (wc_monitors c)) False"

lemma create_process_for_job_failed:
  assumes "run_state (create_process_for_job os params) s = (Inl e, t)"
  shows "made_processes (calls t) = made_processes (calls s)"
  using assms [unfolded create_process_for_job_def]
  by (cases rule: create_process_impl_cases) (auto simp: made_quiet)

lemma spawn_job_run:
  assumes "run_state (spawn_job_monitored os c) s = (r, t)"
  obtains (none) e where "r = Inl e" "made_processes (calls t) = made_processes (calls s)" "\<forall>h. held t h = held s h"
    | (leak) e pi where "r = Inl e" "ww_iocp s = None" "ww_iocp t = None"
        "made_processes (calls t) = made_processes (calls s) @ [(job_path_args os s c, pi)]"
        "\<forall>h. held t h = held s h + owned [hProcess pi, hThread pi] h"
    | (child) pi i where "r = Inr \<lparr>wk_pid = dwProcessId pi, wk_process_handle = hProcess pi,
           wk_thread_handle = INVALID_HANDLE_VALUE, wk_exit_rx = Some i,
           wk_cached_reason = None, wk_sentinel_rx = None\<rparr>"
        "made_processes (calls t) = made_processes (calls s) @ [(job_path_args os s c, pi)]"
        "\<forall>h. held t h = held s h + owned [hProcess pi] h + owned (new_port s t) h"
proof -
  let ?env = "build_env_block (parent_env os s) (wc_env_clear c) (wc_envs c)"
  let ?params = "\<lparr>jp_application_name = None,
         jp_command_line = build_command_line (wc_program c) (wc_args c),
         jp_environment = ?env,
         jp_current_directory = map_option to_wide_null (wc_current_dir c),
         jp_job_handle = wc_job c,
         jp_inherit_handles = monitor.Sentinel \<in> set (wc_monitors c)\<rparr>"
  obtain w cs where 1: "run_state (environment_block os c) s = (?env, s\<lparr>world := w, calls := calls s @ cs\<rparr>)"
    "\<forall>x\<in>set cs. quiet x" using environment_block_run [of os c s] by blast
  let ?s1 = "s\<lparr>world := w, calls := calls s @ cs\<rparr>"
  have q: "made_processes (calls ?s1) = made_processes (calls s)" "\<forall>h. held ?s1 h = held s h"
    using 1(2) by (simp_all add: made_quiet ledger_quiet)
  obtain x s2 where 2: "run_state (create_process_for_job os ?params) ?s1 = (x, s2)"
    by (metis surj_pair)
  have i2: "ww_iocp s2 = ww_iocp s" using create_process_for_job_effect(1) [OF 2] by auto
  have h2: "\<forall>h. held s2 h = held s h + owned (process_handles x) h"
    using create_process_for_job_effect(2) [OF 2] q(2) by simp
  show thesis
  proof (cases x)
    case (Inl e)
    have "r = Inl e" "t = s2" using assms 1 2 Inl by (auto simp: spawn_job_monitored_def)
    then show thesis using none [of e] create_process_for_job_failed [OF 2 [unfolded Inl]] q h2 Inl by simp
  next
    case (Inr pi)
    have made: "made_processes (calls s2) = made_processes (calls s) @ [(job_path_args os s c, pi)]"
      using create_process_for_job_made [OF 2 [unfolded Inr]] q(1)
      by (simp add: made_processes_def job_child_args_def job_path_args_def)
    obtain y s3 where 3: "run_state (ensure_iocp os (wc_job c)) s2 = (y, s3)"
      by (cases "run_state (ensure_iocp os (wc_job c)) s2")
    note m3 = ensure_iocp_effect(1) [OF 3] and h3 = ensure_iocp_effect(2) [OF 3] and e3 = ensure_iocp_effect(3) [OF 3]
    have p3: "new_port s2 s3 = new_port s s3" by (simp add: new_port_def i2)
    show thesis
    proof (cases y)
      case (Inl e)
      have "r = Inl e" "t = s3" using assms 1 2 Inr 3 Inl by (auto simp: spawn_job_monitored_def)
      then show thesis using leak [of e pi] made m3 h2 h3 e3 i2 Inl Inr by (simp add: new_port_def)
    next
      case (Inr u)
      obtain s4 where 4: "run_state new_exit s3 = (next_exit s3, s4)" "calls s4 = calls s3" "ww_iocp s4 = ww_iocp s3"
        using new_exit_frame [of s3] by blast
      obtain s5 where 5: "run_state (iocp_register (dwProcessId pi) (next_exit s3)) s4 = ((), s5)"
        "calls s5 = calls s4" "ww_iocp s5 = ww_iocp s4" using iocp_register_frame [of "dwProcessId pi" "next_exit s3" s4] by blast
      obtain b w6 where 6: "w_CloseHandle os (hThread pi) (world s5) = (b, w6)" by (metis surj_pair)
      let ?s6 = "if valid_handle (hThread pi) then s5\<lparr>world := w6, calls := calls s5 @ [CloseHandle (hThread pi) b]\<rparr> else s5"
      have cl: "run_state (if hThread pi \<noteq> null_handle \<and> hThread pi \<noteq> INVALID_HANDLE_VALUE
          then do { close_handle os (hThread pi); State_Monad.return () }
          else State_Monad.return ()) s5 = ((), ?s6)"
        using 6 by (auto simp: close_handle_def run_api valid_handle_def)
      have res: "r = Inr \<lparr>wk_pid = dwProcessId pi, wk_process_handle = hProcess pi,
           wk_thread_handle = INVALID_HANDLE_VALUE, wk_exit_rx = Some (next_exit s3),
           wk_cached_reason = None, wk_sentinel_rx = None\<rparr>" "t = ?s6"
        using assms 1 2 \<open>x = Inr pi\<close> 3 Inr 4(1) 5(1) cl
        by (auto simp: spawn_job_monitored_def)
      have n: "new_port s t = new_port s s3" using res(2) 4(3) 5(3) by (auto simp: new_port_def split: option.splits)
      have hh: "\<forall>h. held t h = held s h + owned [hProcess pi] h + owned (new_port s t) h"
        unfolding n using res(2) 4(2) 5(2) h2 h3 p3 \<open>x = Inr pi\<close> by auto
      have "made_processes (calls t) = made_processes (calls s) @ [(job_path_args os s c, pi)]"
        using res(2) 4(2) 5(2) m3 made by auto
      then show thesis using child [OF res(1)] hh by blast
    qed
  qed
qed

section \<open>Frames\<close>

text \<open>Nothing below starts a sentinel listener.\<close>

lemma ensure_iocp_listeners:
  assumes "run_state (ensure_iocp os job) s = (r, t)"
  shows "listeners t = listeners s"
proof (cases "ww_iocp s")
  case None
  obtain p w1 where 1: "w_CreateIoCompletionPort os (world s) = (p, w1)" by (metis surj_pair)
  obtain b w2 where 2: "w_SetJobCompletionPort os job JOB_KEY p w1 = (b, w2)" by (metis surj_pair)
  obtain e w3 where 3: "w_spawn_thread os ''worrywart-iocp'' w2 = (e, w3)" by (metis surj_pair)
  show ?thesis using assms None 1 2 3
    by (cases e)
      (auto simp: ensure_iocp_def State_Monad.get_def iocp_start_def run_api last_os_error_def close_handle_def
        split: if_splits prod.splits)
next
  case (Some p)
  then show ?thesis using assms by (simp add: ensure_iocp_def State_Monad.get_def)
qed

lemma register_listeners: "listeners (snd (run_state (iocp_register p i) v)) = listeners v"
  by (auto simp: iocp_register_def drop_exit_sender_def split: send_outcome.splits)

lemma spawn_job_listeners:
  fixes s :: "('w, 'z) ww_sys_scheme"
  assumes "run_state (spawn_job_monitored os c) s = (r, t)"
  shows "listeners t = listeners s"
proof -
  obtain env s1 where 1: "run_state (environment_block os c) s = (env, s1)" by (metis surj_pair)
  have l1: "listeners s1 = listeners s" using environment_block_run [of os c s] 1 by auto
  let ?params = "\<lparr>jp_application_name = None,
         jp_command_line = build_command_line (wc_program c) (wc_args c),
         jp_environment = env,
         jp_current_directory = map_option to_wide_null (wc_current_dir c),
         jp_job_handle = wc_job c,
         jp_inherit_handles = monitor.Sentinel \<in> set (wc_monitors c)\<rparr>"
  obtain x s2 where 2: "run_state (create_process_for_job os ?params) s1 = (x, s2)" by (metis surj_pair)
  have l2: "listeners s2 = listeners s1" using create_process_for_job_effect(1) [OF 2] by auto
  show ?thesis
  proof (cases x)
    case (Inl e)
    then have "t = s2" using assms 1 2 by (simp add: spawn_job_monitored_def)
    then show ?thesis using l1 l2 by simp
  next
    case (Inr pi)
    obtain y s3 where 3: "run_state (ensure_iocp os (wc_job c)) s2 = (y, s3)" by (metis surj_pair)
    note l3 = ensure_iocp_listeners [OF 3]
    show ?thesis
    proof (cases y)
      case (Inl e)
      then have "t = s3" using assms 1 2 Inr 3 by (simp add: spawn_job_monitored_def)
      then show ?thesis using l1 l2 l3 by simp
    next
      case (Inr u)
      obtain i s4 where 4: "run_state new_exit s3 = (i, s4)" by (metis surj_pair)
      have l4: "listeners s4 = listeners s3" using 4 by (auto simp: new_exit_def)
      obtain v s5 where 5: "run_state (iocp_register (dwProcessId pi) i) s4 = (v, s5)" by (metis surj_pair)
      have l5: "listeners s5 = listeners s4" using register_listeners [of "dwProcessId pi" i s4] 5 by simp
      obtain b w where b: "w_CloseHandle os (hThread pi) (world s5) = (b, w)" by (metis surj_pair)
      have "listeners t = listeners s5"
        using assms 1 2 \<open>x = Inr pi\<close> 3 Inr 4 5 b
        by (auto simp: spawn_job_monitored_def close_handle_def run_api split: if_splits)
      then show ?thesis using l1 l2 l3 l4 l5 by simp
    qed
  qed
qed

lemma spawn_plain_run:
  assumes "run_state (spawn_plain os c) s = (r, t)"
  obtains (failed) e where "r = Inl e" "calls t = calls s @ [CommandSpawn (std_command_of c) (Inl e)]"
      "listeners t = listeners s" "ww_iocp t = ww_iocp s"
    | (child) h p where "r = Inr (from_std (h, p))" "calls t = calls s @ [CommandSpawn (std_command_of c) (Inr (h, p))]"
      "listeners t = listeners s" "ww_iocp t = ww_iocp s"
proof -
  obtain x w where x: "w_command_spawn os (std_command_of c) (world s) = (x, w)" by (metis surj_pair)
  show thesis
  proof (cases x)
    case (Inl e)
    then show thesis using assms x failed [of e] by (auto simp: spawn_plain_def run_api)
  next
    case (Inr a)
    obtain h p where "a = (h, p)" by (cases a)
    then show thesis using assms x Inr child [of h p] by (auto simp: spawn_plain_def run_api)
  qed
qed

lemma finish_sentinel_run:
  assumes "run_state (finish_sentinel os pipe ch) s = (r, t)"
  obtains (closed_write) "r = Inr (ch\<lparr>wk_sentinel_rx := Some (sp_sentinel_rx pipe)\<rparr>)"
      "\<forall>h. held t h = held s h - owned [sp_write_handle pipe] h" "made_processes (calls t) = made_processes (calls s)"
      "listeners t = listeners s" "ww_iocp t = ww_iocp s"
    | (stuck_write) e where "r = Inl e"
      "\<forall>h. held t h = held s h - owned [sp_write_handle pipe, wk_process_handle ch, wk_thread_handle ch] h"
      "made_processes (calls t) = made_processes (calls s)" "listeners t = listeners s" "ww_iocp t = ww_iocp s"
proof -
  obtain b w where b: "w_CloseHandle os (sp_write_handle pipe) (world s) = (b, w)" by (metis surj_pair)
  let ?s = "s\<lparr>world := w, calls := calls s @ [CloseHandle (sp_write_handle pipe) b]\<rparr>"
  show thesis
  proof (cases b)
    case True
    then show thesis using assms b closed_write by (auto simp: finish_sentinel_def close_handle_def run_api)
  next
    case False
    obtain e w2 where e: "w_GetLastError os w = (e, w2)" by (metis surj_pair)
    let ?s2 = "s\<lparr>world := w2, calls := calls s @ [CloseHandle (sp_write_handle pipe) b, GetLastError e]\<rparr>"
    obtain ch' u where d: "run_state (child_drop os ch) ?s2 = (ch', u)" by (metis surj_pair)
    obtain w3 cs where u: "u = ?s2\<lparr>world := w3, calls := calls ?s2 @ cs\<rparr>" "\<forall>x\<in>set cs. opened x = []"
      and cl: "map closed cs = map (\<lambda>h. [h]) (filter valid_handle [wk_process_handle ch, wk_thread_handle ch])"
      using child_drop_run [of os ch ?s2] d by auto
    have hu: "\<forall>h. held u h = held ?s2 h - owned [wk_process_handle ch, wk_thread_handle ch] h"
      using child_drop_held [OF d] by blast
    have cr: "\<forall>x\<in>set cs. creation x = []"
    proof
      fix x assume "x \<in> set cs"
      then have "closed x \<in> set (map closed cs)" by simp
      then have "closed x \<noteq> []" unfolding cl by auto
      then show "creation x = []" by (cases x) auto
    qed
    then have mu: "made_processes cs = []" by (simp add: made_processes_def creations_def)
    have t: "r = Inl (Os_Error e)" "calls t = calls u" "listeners t = listeners u" "ww_iocp t = ww_iocp u"
      using assms b False e d
      by (auto simp: finish_sentinel_def close_handle_def run_api last_os_error_def drop_exit_receiver_def
          drop_sentinel_receiver_def split: option.splits)
    show thesis
      by (rule stuck_write [OF t(1)]) (use t(2-) hu u mu in \<open>simp_all\<close>)
  qed
qed

end
