(* ===== verification/Spawned.thy ===== *)
theory Spawned
  imports Spawn
begin

text \<open>
  What a spawn leaves behind, for \<open>src/crates/worrywart/src/core.rs\<close>: the handles the
  process holds afterwards on every path, errors included, the processes that were made, the fields of the
  child, and the variable that carries the sentinel handle. The definitions are those of
  \<open>Spawn\<close>; the first section gives the outcomes of a spawn without the debugger, the second those of the
  debug path with an idle pump, and the third puts the sentinel around either path.
\<close>

section \<open>The ledger of a spawn\<close>

lemma create_cells:
  fixes s :: "('w, 'z) ww_sys_scheme"
  assumes "run_state (create os) s = (r, t)"
  shows "ww_iocp t = ww_iocp s" and "made_processes (calls t) = made_processes (calls s)"
proof -
  have "ww_iocp t = ww_iocp s \<and> made_processes (calls t) = made_processes (calls s)"
    using assms
    by (auto simp: create_def run_api last_os_error_def close_handle_def new_sentinel_def start_listener_def
      drop_sentinel_sender_def drop_sentinel_receiver_def
        split: option.splits prod.splits if_splits)
  then show "ww_iocp t = ww_iocp s" "made_processes (calls t) = made_processes (calls s)" by blast+
qed

text \<open>A path without the debugger.\<close>

lemma spawn_path_run:
  assumes "run_state (spawn_path os others c) s = (r, t)" and nd: "DebugApi \<notin> set (wc_monitors c)"
  obtains (none) e where "r = Some (Inl e)" "made_processes (calls t) = made_processes (calls s)"
      "\<forall>h. held t h = held s h" "listeners t = listeners s"
    | (leak) e pi where "r = Some (Inl e)" "wc_monitors c \<noteq> []" "ww_iocp s = None" "ww_iocp t = None"
      "made_processes (calls t) = made_processes (calls s) @ [(job_path_args os s c, pi)]"
      "\<forall>h. held t h = held s h + owned [hProcess pi, hThread pi] h" "listeners t = listeners s"
    | (job) child pi where "r = Some (Inr child)" "wc_monitors c \<noteq> []"
      "made_processes (calls t) = made_processes (calls s) @ [(job_path_args os s c, pi)]"
      "wk_pid child = dwProcessId pi" "wk_process_handle child = hProcess pi"
      "wk_thread_handle child = INVALID_HANDLE_VALUE" "listeners t = listeners s"
      "\<forall>h. held t h = held s h + owned [wk_process_handle child] h + owned (new_port s t) h"
    | (plain) child where "r = Some (Inr child)" "wc_monitors c = []"
      "made_processes (calls t) = made_processes (calls s)"
      "wk_thread_handle child = INVALID_HANDLE_VALUE" "listeners t = listeners s"
      "\<forall>h. held t h = held s h + owned [wk_process_handle child] h + owned (new_port s t) h"
proof (cases "wc_monitors c = []")
  case True
  then obtain x where p: "run_state (spawn_plain os c) s = (x, t)" "r = Some x"
    using assms(1) by (auto simp: spawn_path_def split: prod.splits)
  from p(1) show thesis
  proof (cases rule: spawn_plain_run)
    case (failed e)
    then show thesis using none [of e] p(2) by simp
  next
    case (child h q)
    then show thesis using plain [of "from_std (h, q)"] p(2) True
      by (auto simp: from_std_def new_port_def split: option.splits)
  qed
next
  case False
  obtain m where m0: "m \<in> set (wc_monitors c)" using False by (cases "wc_monitors c") auto
  have m: "JobObject \<in> set (wc_monitors c) \<or> monitor.Sentinel \<in> set (wc_monitors c)"
    by (rule monitor.exhaust [of m]) (use nd m0 in auto)
  then obtain x where p: "run_state (spawn_job_monitored os c) s = (x, t)" "r = Some x"
    using assms(1) nd by (auto simp: spawn_path_def split: prod.splits)
  note ls = spawn_job_listeners [OF p(1)]
  from p(1) show thesis
  proof (cases rule: spawn_job_run)
    case (none e)
    then show thesis using that(1) [of e] p(2) ls by simp
  next
    case (leak e pi)
    then show thesis using that(2) [of e pi] p(2) ls False by simp
  next
    case (child pi i)
    then show thesis using that(3) p(2) ls False by simp
  qed
qed

lemma with_sentinel_env_simps [simp]:
  "wc_monitors (with_sentinel_env pipe c) = wc_monitors c" "wc_env_clear (with_sentinel_env pipe c) = wc_env_clear c"
  "wc_envs (with_sentinel_env pipe c) = wc_envs c @ [(ENV_VAR, usize_to_string (sp_write_handle pipe))]"
  "wc_program (with_sentinel_env pipe c) = wc_program c" "wc_args (with_sentinel_env pipe c) = wc_args c"
  "wc_job (with_sentinel_env pipe c) = wc_job c"
  by (simp_all add: with_sentinel_env_def)

text \<open>The parts of a spawn with the sentinel that was given its pipe and its child.\<close>

lemma spawn_sentinel_run:
  assumes "run_state (spawn os others c) s = (Some (Inr child), t)" "monitor.Sentinel \<in> set (wc_monitors c)"
  obtains pipe s1 ch s2 where "run_state (create os) s = (Inr pipe, s1)"
    "run_state (spawn_path os others (with_sentinel_env pipe c)) s1 = (Some (Inr ch), s2)"
    "run_state (finish_sentinel os pipe ch) s2 = (Inr child, t)"
  using assms by (auto simp: spawn_def split: prod.splits sum.splits option.splits)


text \<open>C12 (ownership after spawn): a spawn without the debugger that succeeds leaves its caller
  exactly the process handle of the child; beside it the process holds the port of a listener
  started on the way and, with the sentinel, the read end its thread owns. Dropping the child gives
  its handle back, so that spawn and drop together leak nothing.\<close>

theorem spawn_then_drop_leaks_nothing:
  assumes "run_state (spawn os others c) s = (Some (Inr child), t)"
    and "DebugApi \<notin> set (wc_monitors c)"
    and "run_state (child_drop os child) t = (d, u)"
  shows "\<exists>reads. map fst (listeners t) = map fst (listeners s) @ reads \<and>
    length reads = (if monitor.Sentinel \<in> set (wc_monitors c) then 1 else 0) \<and>
    (\<forall>h. held t h = held s h + owned [wk_process_handle child] h + owned (new_port s t @ reads) h) \<and>
    (\<forall>h. held u h = held s h + owned (new_port s t @ reads) h)"
proof -
  have dr: "\<forall>h. held u h = held t h - owned [wk_process_handle child, wk_thread_handle child] h"
    using child_drop_held [OF assms(3)] by blast
  have path: "wk_thread_handle ch = INVALID_HANDLE_VALUE \<and> listeners t' = listeners s' \<and>
      (\<forall>h. held t' h = held s' h + owned [wk_process_handle ch] h + owned (new_port s' t') h)"
    if p: "run_state (spawn_path os others c') s' = (Some (Inr ch), t')" and "DebugApi \<notin> set (wc_monitors c')"
    for c' s' ch t'
    using p that(2) by (cases rule: spawn_path_run) auto
  show ?thesis
  proof (cases "monitor.Sentinel \<in> set (wc_monitors c)")
    case True
    obtain pipe s1 ch s2 where 1: "run_state (create os) s = (Inr pipe, s1)"
      and 2: "run_state (spawn_path os others (with_sentinel_env pipe c)) s1 = (Some (Inr ch), s2)"
      and 3: "run_state (finish_sentinel os pipe ch) s2 = (Inr child, t)"
      using spawn_sentinel_run [OF assms(1) True] by blast
    obtain rd where c1: "listeners s1 = listeners s @ [(rd, sp_sentinel_rx pipe)]"
      "\<forall>h. held s1 h = held s h + owned [rd, sp_write_handle pipe] h"
      using create_effect [OF 1] by auto
    note i1 = create_cells(1) [OF 1]
    note c2 = path [OF 2, simplified, OF assms(2)]
    have c3: "child = ch\<lparr>wk_sentinel_rx := Some (sp_sentinel_rx pipe)\<rparr>" "listeners t = listeners s2"
      "\<forall>h. held t h = held s2 h - owned [sp_write_handle pipe] h" "ww_iocp t = ww_iocp s2"
      using 3 by (cases rule: finish_sentinel_run; simp)+
    have n: "new_port s1 s2 = new_port s t" using i1 c3(4) by (simp add: new_port_def)
    have th: "\<forall>h. held t h = held s h + owned [wk_process_handle child] h + owned (new_port s t @ [rd]) h"
      using c1(2) c2 c3 n by auto
    have "wk_thread_handle child = INVALID_HANDLE_VALUE" using c2 c3(1) by simp
    then have "\<forall>h. held u h = held s h + owned (new_port s t @ [rd]) h" using dr th by auto
    then show ?thesis using th True c1(1) c2 c3(2) by (intro exI [of _ "[rd]"]) auto
  next
    case False
    then have "run_state (spawn_path os others c) s = (Some (Inr child), t)" using assms(1) by (simp add: spawn_def)
    from path [OF this assms(2)] show ?thesis using dr False by (intro exI [of _ "[]"]) auto
  qed
qed


text \<open>The parts of a failed spawn with the sentinel.\<close>

text \<open>C24 (the sentinel pipe of a failed spawn): in a spawn with the sentinel and without the debugger,
  when the pipe was made and the path then failed, the \<open>?\<close> after the path returns without closing the write end: the process keeps it, and its
  listener thread waits for a pipe that does not end. If the path failed after the process was
  made, that process stays too, with both its handles.\<close>

theorem spawn_error_leaks_write_end:
  assumes "monitor.Sentinel \<in> set (wc_monitors c)" "DebugApi \<notin> set (wc_monitors c)"
    and "run_state (create os) s = (Inr pipe, s1)"
    and "run_state (spawn_path os others (with_sentinel_env pipe c)) s1 = (Some (Inl e), s2)"
    and "run_state (spawn os others c) s = (r, t)"
  shows "r = Some (Inl e) \<and> (\<exists>rd leaked. listeners t = listeners s @ [(rd, sp_sentinel_rx pipe)] \<and>
    (\<forall>h. held t h = held s h + owned ([rd, sp_write_handle pipe] @ leaked) h) \<and>
    (if made_processes (calls t) = made_processes (calls s) then leaked = []
     else ww_iocp s = None \<and> (\<exists>pi. leaked = [hProcess pi, hThread pi] \<and>
       made_processes (calls t) = made_processes (calls s) @ [(job_path_args os s1 (with_sentinel_env pipe c), pi)])))"
proof -
  obtain rd where c1: "listeners s1 = listeners s @ [(rd, sp_sentinel_rx pipe)]"
    "\<forall>h. held s1 h = held s h + owned [rd, sp_write_handle pipe] h"
    using create_effect [OF assms(3)] by auto
  note cells = create_cells [OF assms(3)]
  have t: "r = Some (Inl e)" "calls t = calls s2" "listeners t = listeners s2"
    using assms by (auto simp: spawn_def drop_sentinel_receiver_def)
  have nd: "DebugApi \<notin> set (wc_monitors (with_sentinel_env pipe c))" using assms(2) by simp
  from assms(4) nd show ?thesis
  proof (cases rule: spawn_path_run)
    case none
    then show ?thesis using t c1 cells by (intro conjI exI [of _ rd] exI [of _ "[]"]) auto
  next
    case (leak e' pi)
    then show ?thesis using t c1 cells
      by (intro conjI exI [of _ rd] exI [of _ "[hProcess pi, hThread pi]"]) auto
  qed simp_all
qed

text \<open>C23 (failure after the process was made): a path of \<open>spawn\<close> without the debugger, with or
  without the sentinel, that fails changes nothing but for one case: the process was made, then the
  listener could not be started; the two handles of the running process are leaked, and nobody
  waits for it. (The pipe that \<open>spawn\<close> puts around the path is the subject of the next property.)\<close>

theorem spawn_job_error_leaks:
  assumes "DebugApi \<notin> set (wc_monitors c)" "run_state (spawn_path os others c) s = (Some (Inl e), t)"
  shows "listeners t = listeners s \<and>
    (if made_processes (calls t) = made_processes (calls s) then \<forall>h. held t h = held s h
     else wc_monitors c \<noteq> [] \<and> ww_iocp s = None \<and> ww_iocp t = None \<and>
       (\<exists>pi. made_processes (calls t) = made_processes (calls s) @ [(job_path_args os s c, pi)] \<and>
         (\<forall>h. held t h = held s h + owned [hProcess pi, hThread pi] h)))"
  using assms(2,1)
proof (cases rule: spawn_path_run)
  case (leak e' pi)
  then show ?thesis by auto
qed simp_all

lemma sentinel_pair_ok: "env_pair_ok (ENV_VAR, usize_to_string n)"
  using usize_to_string_env [of n] by (simp add: env_pair_ok_def ENV_VAR_def wide_def)

text \<open>C33 (the job object): every error path of \<open>Worrywart::new\<close> closes the job it made; on
  success the caller holds the one job, whose limit is kill-on-close, no thread has been started, and the drop
  of the handle gives it back.\<close>

theorem worrywart_new_ledger:
  assumes "run_state (worrywart_new os) s = (r, t)"
  shows "case r of
      Inl e \<Rightarrow> \<forall>h. held t h = held s h
    | Inr ww \<Rightarrow> (\<forall>h. held t h = held s h + owned [wj_job ww] h) \<and> wj_job ww \<noteq> null_handle \<and>
        calls t = calls s @ [CreateJobObject (wj_job ww), SetJobLimitFlags (wj_job ww) 0x2000 True] \<and>
        ww_pump t = None \<and> ww_iocp t = None \<and>
        (\<forall>u. run_state (job_drop os (wj_job ww)) t = ((), u) \<longrightarrow> (\<forall>h. held u h = held s h))"
  using assms
  by (auto simp: worrywart_new_def run_api last_os_error_def close_handle_def job_drop_def
      JOB_OBJECT_LIMIT_KILL_ON_JOB_CLOSE_def split: prod.splits if_splits)

text \<open>C40 (a child without monitors): \<open>spawn_plain\<close> is one call of the standard library, which
  knows no job: nothing is created in the job of the \<open>Worrywart\<close>, and the child has no channel.\<close>

theorem plain_child_outside_job:
  assumes "wc_monitors c = []" "run_state (spawn os others c) s = (r, t)"
  shows "\<exists>x. calls t = calls s @ [CommandSpawn (std_command_of c) x] \<and>
    r = Some (map_sum id from_std x) \<and>
    made_processes (calls t) = made_processes (calls s) \<and>
    (\<forall>h p. x = Inr (h, p) \<longrightarrow> (\<forall>g. held t g = held s g + owned [h] g))"
proof -
  obtain y where y: "run_state (spawn_plain os c) s = (y, t)" "r = Some y"
    using assms by (auto simp: spawn_def spawn_path_def split: prod.splits)
  from y(1) show ?thesis
  proof (cases rule: spawn_plain_run)
    case (failed e)
    then show ?thesis using y(2) by (intro exI [of _ "Inl e"]) simp
  next
    case (child h p)
    then show ?thesis using y(2) by (intro exI [of _ "Inr (h, p)"]) auto
  qed
qed


section \<open>The debug path\<close>

text \<open>The request the debug path sends to the pump, and what it makes of the answer.\<close>

definition debug_request :: "'w win32 \<Rightarrow> ('w, 'z) sys_scheme \<Rightarrow> worrywart_command \<Rightarrow> nat \<Rightarrow> spawn_request" where
  "debug_request os s c exit_tx = \<lparr>
     rq_application_name = None,
     rq_command_line = build_command_line (wc_program c) (wc_args c),
     rq_environment = build_env_block (parent_env os s) (wc_env_clear c) (wc_envs c),
     rq_current_directory = map_option to_wide_null (wc_current_dir c),
     rq_affinity_mask = wc_affinity_mask c,
     rq_exit_tx = exit_tx,
     rq_stdin_handle = INVALID_HANDLE_VALUE,
     rq_stdout_handle = INVALID_HANDLE_VALUE,
     rq_stderr_handle = INVALID_HANDLE_VALUE,
     rq_use_stdio_handles = False,
     rq_inherit_handles = monitor.Sentinel \<in> set (wc_monitors c),
     rq_job_handle = wc_job c\<rparr>"

definition debug_child :: "nat \<Rightarrow> spawn_response \<Rightarrow> worrywart_child" where
  "debug_child exit_rx resp = \<lparr>wk_pid = sr_pid resp, wk_process_handle = sr_process_handle resp,
     wk_thread_handle = sr_thread_handle resp, wk_exit_rx = Some exit_rx, wk_cached_reason = None,
     wk_sentinel_rx = None\<rparr>"

definition debug_answer ::
  "nat \<Rightarrow> (io_error + spawn_response) option \<Rightarrow> ('w, 'z, (io_error + worrywart_child) option) ww_io" where
  "debug_answer exit_rx r =
     (case r of
        None \<Rightarrow> State_Monad.return None
      | Some (Inl e) \<Rightarrow> do {
          drop_exit_receiver exit_rx;
          State_Monad.return (Some (Inl e))
        }
      | Some (Inr resp) \<Rightarrow> State_Monad.return (Some (Inr (debug_child exit_rx resp))))"

lemma spawn_debug_running:
  assumes "ww_pump s = Some p"
  shows "\<exists>w cs. (\<forall>x\<in>set cs. quiet x) \<and>
    run_state (spawn_debug os others c) s =
      run_state (do {
        exit_rx \<leftarrow> new_exit;
        r \<leftarrow> spawn_child others (debug_request os s c exit_rx);
        debug_answer exit_rx r
      }) (s\<lparr>world := w, calls := calls s @ cs\<rparr>)"
proof -
  obtain w cs where e: "run_state (environment_block os c) s =
     (build_env_block (parent_env os s) (wc_env_clear c) (wc_envs c), s\<lparr>world := w, calls := calls s @ cs\<rparr>)"
     "\<forall>x\<in>set cs. quiet x"
    using environment_block_run [of os c s] by blast
  then show ?thesis using assms
    by (intro exI [of _ w] exI [of _ cs])
      (simp add: spawn_debug_def ensure_pump_def State_Monad.get_def debug_request_def debug_answer_def debug_child_def new_exit_def
        split: prod.split option.split sum.split)
qed


lemma pump_inv_new_exit:
  fixes s :: "('w, 'z) ww_sys_scheme"
  assumes "pump_inv ch s" "ch_buf (inbox s) = []" "next_exit s \<notin># tracked_txs ch"
    and "run_state new_exit (s\<lparr>world := w, calls := cs\<rparr>) = (i, s')"
  shows "i = next_exit s \<and> pump_inv ch s' \<and> inbox s' = inbox s \<and> calls s' = cs \<and> exits s' i = sync_channel 1"
  using assms by (auto simp: new_exit_def pump_inv_def channels_ok_def)

text \<open>The pump is there and idle, and one turn of it runs while the spawn waits for its answer.\<close>

definition pump_idle :: "'w win32 \<Rightarrow> children \<Rightarrow> ('w, 'z) ww_sys_scheme \<Rightarrow> bool" where
  "pump_idle os ch s \<longleftrightarrow> ww_pump s \<noteq> None \<and> pump_inv ch s \<and> ch_buf (inbox s) = [] \<and> ch_receiver (inbox s) \<and>
     ch_cap (inbox s) = None \<and> next_exit s \<notin># tracked_txs ch"

definition one_turn :: "'w win32 \<Rightarrow> children \<Rightarrow> ('w, 'z, unit) iocp_io" where
  "one_turn os ch = do { pump_iteration os ch; State_Monad.return () }"

text \<open>What the debug path asks \<open>CreateProcessW\<close> for.\<close>

definition debug_path_args :: "'w win32 \<Rightarrow> ('w, 'z) sys_scheme \<Rightarrow> worrywart_command \<Rightarrow> create_args" where
  "debug_path_args os s c = debug_child_args (debug_request os s c 0)"

lemma debug_path_args_exit: "debug_child_args (debug_request os s c i) = debug_path_args os s c"
  by (simp add: debug_path_args_def debug_child_args_def debug_request_def)

lemma debug_path_fields:
  "ca_flags (debug_path_args os s c) = EXTENDED_STARTUPINFO_PRESENT + CREATE_UNICODE_ENVIRONMENT + DEBUG_PROCESS \<and>
   ca_command_line (debug_path_args os s c) = build_command_line (wc_program c) (wc_args c) \<and>
   ca_environment (debug_path_args os s c) = build_env_block (parent_env os s) (wc_env_clear c) (wc_envs c) \<and>
   ca_job_list (debug_path_args os s c) = (if valid_handle (wc_job c) then Some (wc_job c) else None) \<and>
   (ca_inherit_handles (debug_path_args os s c) \<longleftrightarrow> monitor.Sentinel \<in> set (wc_monitors c))"
  by (simp add: debug_path_args_def debug_child_args_def debug_request_def process_args_def
      EXTENDED_STARTUPINFO_PRESENT_def CREATE_UNICODE_ENVIRONMENT_def DEBUG_PROCESS_def)

lemma spawn_debug_run:
  fixes s :: "('w, 'z) ww_sys_scheme"
  assumes "pump_idle os ch s" "run_state (spawn_debug os (one_turn os ch) c) s = (r, t)"
  obtains (failed) e where "r = Some (Inl e)" "made_processes (calls t) = made_processes (calls s)" "\<forall>h. held t h = held s h"
    | (child) pi where "r = Some (Inr \<lparr>wk_pid = dwProcessId pi, wk_process_handle = hProcess pi, wk_thread_handle = hThread pi,
           wk_exit_rx = Some (next_exit s), wk_cached_reason = None, wk_sentinel_rx = None\<rparr>)"
        "made_processes (calls t) = made_processes (calls s) @ [(debug_path_args os s c, pi)]"
        "\<forall>h. held t h = held s h + owned [hProcess pi, hThread pi] h"
proof -
  let ?o = "one_turn os ch :: ('w, 'z ww_sys_ext, unit) iocp_io"
  obtain p where p: "ww_pump s = Some p" and idle: "pump_inv ch s" "ch_buf (inbox s) = []" "ch_receiver (inbox s)"
    "ch_cap (inbox s) = None" "next_exit s \<notin># tracked_txs ch"
    using assms(1) by (auto simp: pump_idle_def)
  obtain w cs where q: "\<forall>x\<in>set cs. quiet x" and
    m: "run_state (do {
        exit_rx \<leftarrow> new_exit;
        r \<leftarrow> spawn_child ?o (debug_request os s c exit_rx);
        debug_answer exit_rx r
      }) (s\<lparr>world := w, calls := calls s @ cs\<rparr>) = (r, t)"
    using spawn_debug_running [OF p, of os ?o c] assms(2) by auto
  obtain i s1 where 1: "run_state new_exit (s\<lparr>world := w, calls := calls s @ cs\<rparr>) = (i, s1)" by (metis surj_pair)
  have n: "i = next_exit s" "pump_inv ch s1" "inbox s1 = inbox s" "calls s1 = calls s @ cs" "exits s1 i = sync_channel 1"
    using pump_inv_new_exit [OF idle(1,2,5) 1] by blast+
  obtain a u where 2: "run_state (spawn_child ?o (debug_request os s c i)) s1 = (a, u)" by (metis surj_pair)
  have tx: "rq_exit_tx (debug_request os s c i) = i" by (simp add: debug_request_def)
  note turn = spawn_child_turn [OF n(2) _ _ _ _ _ 2 [unfolded one_turn_def], unfolded tx n(3), OF idle(2-4)]
  have tr: "i \<notin># tracked_txs ch" "oneshot_open (exits s1 i)" using idle(5) n(1,5) by simp_all
  note ans = turn(1) [OF tr, unfolded debug_path_args_exit] and ord = turn(2) [OF tr]
  have t: "run_state (debug_answer i a) u = (r, t)" using m 1 2 by simp
  obtain ds where ds: "calls u = calls s1 @ ds" "orderly ds" using ord by blast
  have cu: "calls t = calls u"
    using t by (auto simp: debug_answer_def drop_exit_receiver_def split: option.splits sum.splits)
  have made: "made_processes (calls t) = made_processes (calls s) @ made_processes ds"
    using cu ds(1) n(4) q by (simp add: made_quiet)
  have led: "\<forall>h. held t h = held s h + owned (concat (map (\<lambda>(a, pi). [hProcess pi, hThread pi]) (made_processes ds))) h"
    using cu ds n(4) q by (simp add: ledger_quiet orderly_def spawned_made)
  show thesis
  proof (cases a)
    case None
    then show thesis using ans by simp
  next
    case (Some x)
    show thesis
    proof (cases x)
      case (Inl e)
      then have "made_processes ds = []" using ans Some ds(1) by simp
      then show thesis using failed [of e] t Some Inl made led by (auto simp: debug_answer_def drop_exit_receiver_def)
    next
      case (Inr resp)
      then obtain pi where pi: "resp = response_of pi" "made_processes ds = [(debug_path_args os s c, pi)]"
        using ans Some ds(1) by auto
      then show thesis using child [of pi] t Some Inr n(1) made led
        by (auto simp: debug_answer_def debug_child_def response_of_def)
    qed
  qed
qed

text \<open>C16 (the debug path): with the pump idle, one turn of it answers the debug path of a spawn,
  whatever other monitors are asked for. On success the one process made is under the debugger and
  in the job, inherits handles exactly when the sentinel is asked for, and the child's fields and
  its channel are those of that process; on an error no process was made. No other handle stays.
  (The sentinel's pipe that \<open>spawn\<close> puts around the path is the subject of C17.)\<close>

theorem spawn_debug_child:
  assumes "pump_idle os ch s" "DebugApi \<in> set (wc_monitors c)"
    and "run_state (spawn_path os (one_turn os ch) c) s = (r, t)"
  shows "\<exists>made. made_processes (calls t) = made_processes (calls s) @ made \<and>
    (\<forall>h. held t h = held s h + owned (concat (map (\<lambda>(a, pi). [hProcess pi, hThread pi]) made)) h) \<and>
    (case r of
       None \<Rightarrow> False
     | Some (Inl e) \<Rightarrow> made = []
     | Some (Inr child) \<Rightarrow> \<exists>args pi. made = [(args, pi)] \<and>
         child = \<lparr>wk_pid = dwProcessId pi, wk_process_handle = hProcess pi, wk_thread_handle = hThread pi,
           wk_exit_rx = Some (next_exit s), wk_cached_reason = None, wk_sentinel_rx = None\<rparr> \<and>
         ca_flags args = EXTENDED_STARTUPINFO_PRESENT + CREATE_UNICODE_ENVIRONMENT + DEBUG_PROCESS \<and>
         ca_command_line args = build_command_line (wc_program c) (wc_args c) \<and>
         ca_environment args = build_env_block (parent_env os s) (wc_env_clear c) (wc_envs c) \<and>
         ca_job_list args = (if valid_handle (wc_job c) then Some (wc_job c) else None) \<and>
         (ca_inherit_handles args \<longleftrightarrow> monitor.Sentinel \<in> set (wc_monitors c)))"
proof -
  have "run_state (spawn_debug os (one_turn os ch) c) s = (r, t)"
    using assms(2,3) by (simp add: spawn_path_def)
  with assms(1) show ?thesis
  proof (cases rule: spawn_debug_run)
    case (failed e)
    then show ?thesis by (intro exI [of _ "[]"]) simp
  next
    case (child pi)
    then show ?thesis using debug_path_fields [of os s c]
      by (intro exI [of _ "[(debug_path_args os s c, pi)]"]) simp
  qed
qed

section \<open>The sentinel around a path\<close>

lemma create_frame:
  fixes s :: "('w, 'z) ww_sys_scheme"
  assumes "run_state (create os) s = (r, t)"
  shows "ww_pump t = ww_pump s \<and> inbox t = inbox s \<and> exits t = exits s \<and> next_exit t = next_exit s \<and>
    responses t = responses s \<and> stuck t = stuck s"
  using assms
  by (auto simp: create_def run_api last_os_error_def close_handle_def new_sentinel_def start_listener_def
    drop_sentinel_sender_def drop_sentinel_receiver_def split: option.splits prod.splits if_splits)

lemma create_pump_idle:
  assumes "run_state (create os) s = (r, t)" "pump_idle os ch s"
  shows "pump_idle os ch t"
  using assms(2) create_frame [OF assms(1)] unfolding pump_idle_def pump_inv_def channels_ok_def by auto

text \<open>What a spawn with monitors asks \<open>CreateProcessW\<close> for, on either path.\<close>

definition spawn_args :: "'w win32 \<Rightarrow> ('w, 'z) sys_scheme \<Rightarrow> worrywart_command \<Rightarrow> create_args" where
  "spawn_args os s c = (if DebugApi \<in> set (wc_monitors c) then debug_path_args os s c else job_path_args os s c)"

lemma spawn_args_fields:
  "ca_environment (spawn_args os s c) = build_env_block (parent_env os s) (wc_env_clear c) (wc_envs c) \<and>
   (ca_inherit_handles (spawn_args os s c) \<longleftrightarrow> monitor.Sentinel \<in> set (wc_monitors c)) \<and>
   ca_job_list (spawn_args os s c) = (if valid_handle (wc_job c) then Some (wc_job c) else None)"
  using debug_path_fields [of os s c] by (simp add: spawn_args_def job_path_args_def process_args_def)

lemma spawn_path_child:
  assumes "run_state (spawn_path os others c) s = (Some (Inr child), t)" "wc_monitors c \<noteq> []"
    and "DebugApi \<in> set (wc_monitors c) \<longrightarrow> (\<exists>ch. pump_idle os ch s \<and> others = one_turn os ch)"
  shows "\<exists>pi. made_processes (calls t) = made_processes (calls s) @ [(spawn_args os s c, pi)] \<and>
    wk_pid child = dwProcessId pi"
proof (cases "DebugApi \<in> set (wc_monitors c)")
  case True
  then obtain ch where ch: "pump_idle os ch s" "others = one_turn os ch" using assms(3) by blast
  have "run_state (spawn_debug os (one_turn os ch) c) s = (Some (Inr child), t)"
    using assms(1) True ch(2) by (simp add: spawn_path_def)
  from ch(1) this show ?thesis
    by (cases rule: spawn_debug_run) (use True in \<open>auto simp: spawn_args_def\<close>)
next
  case False
  from assms(1) False show ?thesis
    by (cases rule: spawn_path_run) (use False assms(2) in \<open>auto simp: spawn_args_def\<close>)
qed

text \<open>C17 (the sentinel handle reaches the child): a spawn with the sentinel that succeeds, on the job
  path or, with an idle pump, on the debug path, made one process, which inherits handles, is put
  into the job, and whose environment gives, read as \<open>helper_sentinel.rs\<close> reads it, the write end of
  this spawn's pipe; every other variable is the one asked for.\<close>

theorem spawn_sentinel_handle_reaches_child:
  assumes "monitor.Sentinel \<in> set (wc_monitors c)"
    and "DebugApi \<in> set (wc_monitors c) \<longrightarrow> (\<exists>ch. pump_idle os ch s \<and> others = one_turn os ch)"
    and "run_state (spawn os others c) s = (Some (Inr child), t)"
    and "run_state (create os) s = (Inr pipe, s1)" "sp_write_handle pipe \<noteq> 0"
    and "list_all env_pair_ok (parent_env os s1)" "list_all env_pair_ok (wc_envs c)"
  shows "\<exists>args pi env. made_processes (calls t) = made_processes (calls s) @ [(args, pi)] \<and>
    wk_pid child = dwProcessId pi \<and> ca_inherit_handles args \<and>
    ca_job_list args = (if valid_handle (wc_job c) then Some (wc_job c) else None) \<and>
    child_env (parent_env os s1) (ca_environment args) = Some env \<and>
    helper_handle (map_of env) = Some (sp_write_handle pipe) \<and>
    (\<forall>x. x \<noteq> ENV_VAR \<longrightarrow> map_of env x =
      ((if wc_env_clear c then Map.empty else map_of (parent_env os s1)) ++ map_of (rev (wc_envs c))) x) \<and>
    wk_sentinel_rx child = Some (sp_sentinel_rx pipe)"
proof -
  let ?c = "with_sentinel_env pipe c"
  obtain ch s2 where 2: "run_state (spawn_path os others ?c) s1 = (Some (Inr ch), s2)"
    and 3: "run_state (finish_sentinel os pipe ch) s2 = (Inr child, t)"
    using spawn_sentinel_run [OF assms(3,1)] assms(4) by (metis Pair_inject sum.inject(2))
  have "wc_monitors ?c \<noteq> []" using assms(1) by auto
  then obtain pi where p: "made_processes (calls s2) = made_processes (calls s1) @ [(spawn_args os s1 ?c, pi)]"
    "wk_pid ch = dwProcessId pi"
    using spawn_path_child [OF 2] assms(2) create_pump_idle [OF assms(4)] by auto
  have f: "child = ch\<lparr>wk_sentinel_rx := Some (sp_sentinel_rx pipe)\<rparr>"
    "made_processes (calls t) = made_processes (calls s2)"
    using 3 by (cases rule: finish_sentinel_run; simp)+
  have ok: "list_all env_pair_ok (wc_envs ?c)" using assms(7) sentinel_pair_ok by simp
  let ?m = "(if wc_env_clear c then Map.empty else map_of (parent_env os s1)) ++ map_of (rev (wc_envs c))"
  note fields = spawn_args_fields [of os s1 ?c, simplified]
  obtain env where env: "child_env (parent_env os s1) (ca_environment (spawn_args os s1 ?c)) = Some env"
    "map_of env = ?m(ENV_VAR \<mapsto> usize_to_string (sp_write_handle pipe))"
    using child_env_of_block [OF assms(6) ok, of "wc_env_clear c"] fields by auto
  have h: "helper_handle (map_of env) = Some (sp_write_handle pipe)"
    using assms(5) by (simp add: helper_handle_def env(2) parse_usize_to_string)
  show ?thesis
    by (intro exI [of _ "spawn_args os s1 ?c"] exI [of _ pi] exI [of _ env])
      (use p f env h create_cells(2) [OF assms(4)] assms(1) fields in simp)
qed

section \<open>Witnesses\<close>

text \<open>An API on which every call succeeds; \<open>no_port_os\<close> cannot make a completion port.\<close>

definition spawn_os :: "nat win32" where
  "spawn_os = job_os\<lparr>
     w_CreatePipe := (\<lambda>b w. (Some (of_nat (4 * w + 4), of_nat (4 * w + 8)), w + 2)),
     w_SetHandleInformation := (\<lambda>h m f w. (True, w)),
     w_CloseHandle := (\<lambda>h w. (True, w)),
     w_CreateJobObject := (\<lambda>w. (of_nat (4 * w + 4), w + 1)),
     w_SetJobLimitFlags := (\<lambda>h f w. (True, w)),
     w_CreateIoCompletionPort := (\<lambda>w. (of_nat (4 * w + 4), w + 1)),
     w_SetJobCompletionPort := (\<lambda>h k p w. (True, w)),
     w_spawn_thread := (\<lambda>n w. (None, w)),
     w_command_spawn := (\<lambda>c w. (Inr (of_nat (4 * w + 4), of_nat (w + 100)), w + 1))\<rparr>"

definition no_port_os :: "nat win32" where
  "no_port_os = spawn_os\<lparr>w_CreateIoCompletionPort := (\<lambda>w. (0, w))\<rparr>"

definition init_ww :: "'w \<Rightarrow> pump_object option \<Rightarrow> 'w ww_sys" where
  "init_ww w p = worry_sys.extend (init_worry w) \<lparr>ww_pump = p, ww_iocp = None\<rparr>"

lemma init_ww_simps [simp]:
  "world (init_ww w p) = w" "calls (init_ww w p) = []" "listeners (init_ww w p) = []" "ww_pump (init_ww w p) = p"
  "ww_iocp (init_ww w p) = None" "inbox (init_ww w p) = channel\<lparr>ch_buf := []\<rparr>" "regs (init_ww w p) = channel"
  "next_exit (init_ww w p) = 0" "exits (init_ww w p) = (\<lambda>_. sync_channel 1)" "stuck (init_ww w p) = False"
  "responses (init_ww w p) = (\<lambda>_. sync_channel 1)"
  by (simp_all add: init_ww_def init_worry_def init_pump_def init_sys_def sys.defs pump_sys.defs worry_sys.defs)

definition example_command :: "monitor list \<Rightarrow> worrywart_command" where
  "example_command ms = foldl (\<lambda>c m. add_monitor m c) (command \<lparr>wj_job = 0x50\<rparr> [0x78]) ms"

section \<open>Runs for the witnesses\<close>

lemma example_command_fields [simp]:
  "wc_monitors (example_command []) = []"
  "wc_monitors (example_command [JobObject]) = [JobObject]"
  "wc_monitors (example_command [DebugApi]) = [DebugApi]"
  "wc_monitors (example_command [monitor.Sentinel]) = [monitor.Sentinel]"
  "wc_monitors (example_command [DebugApi, monitor.Sentinel]) = [DebugApi, monitor.Sentinel]"
  "wc_envs (example_command [DebugApi, monitor.Sentinel]) = []"
  "wc_envs (example_command []) = []" "wc_envs (example_command [JobObject]) = []" "wc_envs (example_command [DebugApi]) = []" "wc_envs (example_command [monitor.Sentinel]) = []"
  by (simp_all add: example_command_def command_def new_with_state_def add_monitor_def)

lemma example_command_job [simp]: "wc_job (example_command ms) = 0x50"
proof -
  have "wc_job (foldl (\<lambda>c m. add_monitor m c) c ms) = wc_job c" for c
    by (induction ms arbitrary: c) (simp_all add: add_monitor_def)
  then show ?thesis by (simp add: example_command_def command_def new_with_state_def)
qed

lemmas spawn_eval = spawn_def spawn_path_def create_def spawn_os_def no_port_os_def job_os_def failing_os_def
  run_api close_handle_def new_sentinel_def start_listener_def drop_sentinel_sender_def spawn_job_monitored_def environment_block_def
  create_process_for_job_def create_process_impl_def ensure_iocp_def State_Monad.get_def iocp_start_def new_exit_def
  iocp_register_def ch_send_def finish_sentinel_def last_os_error_def drop_sentinel_receiver_def
  ch_full_def channel_def Let_def INVALID_HANDLE_VALUE_def

abbreviation spawn_example :: "nat win32 \<Rightarrow> monitor list \<Rightarrow> (io_error + worrywart_child) option \<times> nat ww_sys" where
  "spawn_example os ms \<equiv> run_state (spawn os (State_Monad.return ()) (example_command ms)) (init_ww 1 None)"

lemma sentinel_spawn: "\<exists>ch. fst (spawn_example spawn_os [monitor.Sentinel]) = Some (Inr ch) \<and> wk_process_handle ch = 16"
  by (simp add: spawn_eval)

lemma job_spawn_no_port: "fst (spawn_example no_port_os [JobObject]) = Some (Inl (Os_Error 6))"
  by (simp add: spawn_eval)

lemma sentinel_pipe_made: "fst (run_state (create os) (init_ww 1 None)) = Inr \<lparr>sp_write_handle = 12, sp_sentinel_rx = 0\<rparr>"
  if "os = spawn_os \<or> os = no_port_os"
  using that by (auto simp: spawn_eval init_ww_def init_worry_def init_pump_def init_sys_def sys.defs pump_sys.defs worry_sys.defs)

lemma plain_debug_spawns: "wc_monitors (example_command []) = []" "DebugApi \<in> set (wc_monitors (example_command [DebugApi]))"
  by simp_all

lemma job_spawn_no_port_made:
  "length (made_processes (calls (snd (spawn_example no_port_os [JobObject])))) = 1"
  by (simp add: spawn_eval)

lemma sentinel_spawn_no_port:
  "fst (run_state (spawn_path no_port_os (State_Monad.return ()) (with_sentinel_env p (example_command [monitor.Sentinel])))
     (snd (run_state (create no_port_os) (init_ww 1 None)))) = Some (Inl (Os_Error 6))"
  by (simp add: spawn_eval)

theorem spawn_then_drop_leaks_nothing_witness:
  "\<exists>ch t d u. spawn_example spawn_os [monitor.Sentinel] = (Some (Inr ch), t) \<and>
     run_state (child_drop spawn_os ch) t = (d, u) \<and> length (listeners t) = 1 \<and>
     (\<forall>h. held u h = owned (new_port (init_ww (1::nat) None) t @ map fst (listeners t)) h)"
proof -
  obtain ch t where r: "spawn_example spawn_os [monitor.Sentinel] = (Some (Inr ch), t)"
    using sentinel_spawn by (metis prod.collapse)
  obtain d u where d: "run_state (child_drop spawn_os ch) t = (d, u)" by (metis surj_pair)
  have "length (listeners t) = 1 \<and>
    (\<forall>h. held u h = owned (new_port (init_ww (1::nat) None) t @ map fst (listeners t)) h)"
    using spawn_then_drop_leaks_nothing [OF r _ d] by auto
  then show ?thesis using r d by blast
qed

theorem spawn_error_leaks_write_end_witness:
  "held (snd (spawn_example no_port_os [monitor.Sentinel])) 12 \<ge> 1"
proof -
  let ?c = "example_command [monitor.Sentinel]"
  obtain s1 where 1: "run_state (create no_port_os) (init_ww 1 None) = (Inr \<lparr>sp_write_handle = 12, sp_sentinel_rx = 0\<rparr>, s1)"
    using sentinel_pipe_made [of no_port_os] by (metis prod.collapse)
  obtain s2 where 2: "run_state (spawn_path no_port_os (State_Monad.return ())
      (with_sentinel_env \<lparr>sp_write_handle = 12, sp_sentinel_rx = 0\<rparr> ?c)) s1 = (Some (Inl (Os_Error 6)), s2)"
    using sentinel_spawn_no_port 1 by (metis prod.collapse snd_conv)
  obtain r t where 3: "spawn_example no_port_os [monitor.Sentinel] = (r, t)" by (metis surj_pair)
  have v: "valid_handle 12" by (simp add: valid_handle_def INVALID_HANDLE_VALUE_def)
  have nn: "0 \<le> owned hs h" for hs h by (simp add: owned_def)
  obtain rd leaked where "held t 12 = owned ([rd, 12] @ leaked) 12"
    using spawn_error_leaks_write_end [OF _ _ 1 2 3] by auto
  then show ?thesis using 3 v nn [of leaked 12] by simp
qed

theorem spawn_job_error_leaks_witness:
  "\<exists>pi t. made_processes (calls t) = [(job_path_args no_port_os (init_ww 1 None) (example_command [JobObject]), pi)] \<and>
     run_state (spawn_path no_port_os (State_Monad.return ()) (example_command [JobObject])) (init_ww 1 None) =
       (Some (Inl (Os_Error 6)), t) \<and>
     (\<forall>h. held t h = owned [hProcess pi, hThread pi] h)"
proof -
  obtain t where "spawn_example no_port_os [JobObject] = (Some (Inl (Os_Error 6)), t)"
    using job_spawn_no_port by (metis prod.collapse)
  then have r: "run_state (spawn_path no_port_os (State_Monad.return ()) (example_command [JobObject])) (init_ww 1 None) =
      (Some (Inl (Os_Error 6)), t)" by (simp add: spawn_def)
  have "length (made_processes (calls t)) = 1" using job_spawn_no_port_made r by (simp add: spawn_def)
  then have "made_processes (calls t) \<noteq> made_processes (calls (init_ww 1 None :: nat ww_sys))" by auto
  then show ?thesis using spawn_job_error_leaks [OF _ r] r by auto
qed

text \<open>Spawns to an idle pump on which every call succeeds.\<close>

lemma idle_init: "pump_idle os [] (init_ww 1 (Some \<lparr>po_thread = True\<rparr>) :: nat ww_sys)"
  by (simp add: pump_idle_def pump_inv_def channels_ok_def channel_def)

lemmas debug_spawn_eval = spawn_path_def spawn_debug_def ensure_pump_def State_Monad.get_def environment_block_def
  new_exit_def spawn_child_def spawn_child_request_def new_response_def inbox_send_def ch_send_def ch_full_def one_turn_def
  pump_iteration_unfold handle_message_def handle_spawn_def create_debugged_child_def create_process_impl_def run_api Let_def
  spawn_os_def job_os_def failing_os_def channel_def send_response_def sync_channel_def recv_response_def ch_recv_def
  drop_sender_def debug_step_def new_child_entry_def INVALID_HANDLE_VALUE_def

lemma debug_spawn_runs:
  "\<exists>child t. run_state (spawn_path spawn_os (one_turn spawn_os []) (example_command [DebugApi]))
     (init_ww 1 (Some \<lparr>po_thread = True\<rparr>)) = (Some (Inr child), t)"
  by (simp add: debug_spawn_eval)

lemma debug_sentinel_spawn_runs:
  "\<exists>child t. run_state (spawn spawn_os (one_turn spawn_os []) (example_command [DebugApi, monitor.Sentinel]))
     (init_ww 1 (Some \<lparr>po_thread = True\<rparr>)) = (Some (Inr child), t)"
  by (simp add: spawn_def debug_spawn_eval create_def new_sentinel_def start_listener_def finish_sentinel_def close_handle_def)

theorem spawn_debug_child_witness:
  "\<exists>child t args pi. run_state (spawn_path spawn_os (one_turn spawn_os []) (example_command [DebugApi]))
       (init_ww 1 (Some \<lparr>po_thread = True\<rparr>)) = (Some (Inr child), t) \<and>
     made_processes (calls t) = [(args, pi)] \<and> wk_pid child = dwProcessId pi \<and> wk_process_handle child = hProcess pi \<and>
     ca_job_list args = Some 0x50 \<and> \<not> ca_inherit_handles args"
proof -
  obtain child t where r: "run_state (spawn_path spawn_os (one_turn spawn_os []) (example_command [DebugApi]))
     (init_ww 1 (Some \<lparr>po_thread = True\<rparr>)) = (Some (Inr child), t)" using debug_spawn_runs by blast
  show ?thesis using spawn_debug_child [OF idle_init _ r] r
    by (auto simp: valid_handle_def INVALID_HANDLE_VALUE_def)
qed

text \<open>On the job path and on the debug path.\<close>

theorem spawn_sentinel_handle_reaches_child_witness:
  "(\<exists>child t args pi env. spawn_example spawn_os [monitor.Sentinel] = (Some (Inr child), t) \<and>
     made_processes (calls t) = [(args, pi)] \<and> child_env [] (ca_environment args) = Some env \<and>
     helper_handle (map_of env) = Some 12) \<and>
   (\<exists>child t args pi env. run_state (spawn spawn_os (one_turn spawn_os []) (example_command [DebugApi, monitor.Sentinel]))
       (init_ww 1 (Some \<lparr>po_thread = True\<rparr>)) = (Some (Inr child), t) \<and>
     made_processes (calls t) = [(args, pi)] \<and> ca_inherit_handles args \<and>
     child_env [] (ca_environment args) = Some env \<and> helper_handle (map_of env) = Some 12)"
proof
  obtain ch t where r: "spawn_example spawn_os [monitor.Sentinel] = (Some (Inr ch), t)"
    using sentinel_spawn by (metis prod.collapse)
  obtain s1 where 1: "run_state (create spawn_os) (init_ww 1 None) = (Inr \<lparr>sp_write_handle = 12, sp_sentinel_rx = 0\<rparr>, s1)"
    using sentinel_pipe_made [of spawn_os] by (metis prod.collapse)
  have p: "parent_env spawn_os s1 = []" by (simp add: parent_env_def spawn_eval)
  show "\<exists>child t args pi env. spawn_example spawn_os [monitor.Sentinel] = (Some (Inr child), t) \<and>
     made_processes (calls t) = [(args, pi)] \<and> child_env [] (ca_environment args) = Some env \<and>
     helper_handle (map_of env) = Some 12"
    using spawn_sentinel_handle_reaches_child [OF _ _ r 1] r p by auto
next
  let ?s = "init_ww 1 (Some \<lparr>po_thread = True\<rparr>) :: nat ww_sys"
  obtain ch t where r: "run_state (spawn spawn_os (one_turn spawn_os []) (example_command [DebugApi, monitor.Sentinel])) ?s =
      (Some (Inr ch), t)" using debug_sentinel_spawn_runs by blast
  have "fst (run_state (create spawn_os) ?s) = Inr \<lparr>sp_write_handle = 12, sp_sentinel_rx = 0\<rparr>"
    by (simp add: spawn_eval init_ww_def init_worry_def init_pump_def init_sys_def sys.defs pump_sys.defs worry_sys.defs)
  then obtain s1 where 1: "run_state (create spawn_os) ?s = (Inr \<lparr>sp_write_handle = 12, sp_sentinel_rx = 0\<rparr>, s1)"
    by (metis prod.collapse)
  have p: "parent_env spawn_os s1 = []" by (simp add: parent_env_def spawn_eval)
  have i: "\<exists>ch. pump_idle spawn_os ch ?s \<and> one_turn spawn_os [] = one_turn spawn_os ch" using idle_init by blast
  show "\<exists>child t args pi env. run_state (spawn spawn_os (one_turn spawn_os []) (example_command [DebugApi, monitor.Sentinel])) ?s =
       (Some (Inr child), t) \<and>
     made_processes (calls t) = [(args, pi)] \<and> ca_inherit_handles args \<and>
     child_env [] (ca_environment args) = Some env \<and> helper_handle (map_of env) = Some 12"
    using spawn_sentinel_handle_reaches_child [OF _ _ r 1] i r p by auto
qed

theorem worrywart_new_ledger_witness:
  "\<exists>ww t. run_state (worrywart_new spawn_os) (init_ww 1 None) = (Inr ww, t) \<and> held t (wj_job ww) = 1"
proof -
  have "fst (run_state (worrywart_new spawn_os) (init_ww 1 None)) = Inr \<lparr>wj_job = 8\<rparr>"
    by (simp add: worrywart_new_def spawn_eval)
  then obtain t where r: "run_state (worrywart_new spawn_os) (init_ww 1 None) = (Inr \<lparr>wj_job = 8\<rparr>, t)"
    by (metis prod.collapse)
  show ?thesis using worrywart_new_ledger [OF r] r
    by (simp add: valid_handle_def INVALID_HANDLE_VALUE_def)
qed

theorem plain_child_outside_job_witness:
  "\<exists>x. calls (snd (spawn_example spawn_os [])) = [CommandSpawn (std_command_of (example_command [])) x]"
proof -
  obtain r t where r: "spawn_example spawn_os [] = (r, t)" by (metis surj_pair)
  show ?thesis using plain_child_outside_job [OF _ r] r by auto
qed

end
