(* ===== verification/Diagnosis.thy ===== *)
theory Diagnosis
  imports Spawned
begin

text \<open>
  From an exit to the diagnosis: the threads of \<open>pump.rs\<close>, \<open>iocp.rs\<close> and
  \<open>sentinel.rs\<close> together with \<open>WorrywartChild::wait_diagnosed\<close> of \<open>core.rs\<close>. The properties
  state, for each way a child is monitored, what the caller of \<open>wait_diagnosed\<close> is told.
\<close>

section \<open>The sentinel channels during the listener's work\<close>

lemma deliver_list_sentinels: "sentinels (snd (run_state (deliver_list ds) s)) = sentinels s"
proof (induction ds arbitrary: s)
  case (Cons d ds)
  obtain c r where d: "d = (c, r)" by (cases d)
  obtain u s' where s': "run_state (deliver c r) s = (u, s')" by (cases "run_state (deliver c r) s")
  then have "sentinels s' = sentinels s"
    by (auto simp: deliver_def send_exit_def drop_exit_sender_def split: send_outcome.splits)
  then show ?case using Cons [of s'] s' by (simp add: d)
qed simp

lemma listener_step_sentinels:
  assumes "run_state (listener_step os e ws pd) s = (r, t)"
  shows "sentinels t = sentinels s"
proof (cases e)
  case (Registration p c)
  then show ?thesis using assms deliver_list_sentinels [of "[(c, the (map_of pd p))]" s]
    by (auto simp: listener_step_def register_waiter_def drop_exit_sender_def split: option.splits prod.splits)
next
  case (Packet m ov)
  show ?thesis
  proof (cases "exit_message m")
    case True
    obtain w cs code where q: "run_state (dispatch_notification os m ov ws pd) s =
       (case pure_notify (ucast ov, Inr (iocp_reason m code)) (ws, pd) of
          (st, ds) \<Rightarrow> (st, snd (run_state (deliver_list ds) (s\<lparr>world := w, calls := calls s @ cs\<rparr>))))"
      using dispatch_notification_refines [OF True, of ov os ws pd s] by blast
    obtain st ds where "pure_notify (ucast ov, Inr (iocp_reason m code)) (ws, pd) = (st, ds)" by (metis surj_pair)
    then have "t = snd (run_state (deliver_list ds) (s\<lparr>world := w, calls := calls s @ cs\<rparr>))"
      using assms Packet q by (simp add: listener_step_def)
    then show ?thesis by (simp add: deliver_list_sentinels)
  next
    case False
    then show ?thesis using assms Packet by (simp add: listener_step_def dispatch_notification_ignored)
  qed
qed

lemma listener_run_sentinels:
  assumes "run_state (listener_run os es ws pd) s = (r, t)"
  shows "sentinels t = sentinels s"
  using assms
proof (induction es arbitrary: ws pd s)
  case (Cons e es)
  obtain ws1 pd1 s1 where 1: "run_state (listener_step os e ws pd) s = ((ws1, pd1), s1)"
    by (metis surj_pair)
  have "run_state (listener_run os es ws1 pd1) s1 = (r, t)" using Cons.prems 1 by simp
  from Cons.IH [OF this] listener_step_sentinels [OF 1] show ?case by simp
qed simp

section \<open>What the caller is told\<close>

text \<open>C1 (job object and sentinel): a child that was registered and has exited, in either order and among
  any events of other children, and whose pipe has ended: \<open>wait_diagnosed\<close> answers \<open>Crash\<close> with the exit code
  read by its identifier when the message was the abnormal one, else \<open>CleanExit\<close> when the stream of
  the pipe holds a sentinel message at a frame boundary, else \<open>ExternalKill\<close>.\<close>

theorem job_child_diagnosed:
  assumes "filter (concerns p) es \<in> {[Registration p c, Packet m ov], [Packet m ov, Registration p c]}"
    and "\<forall>e\<in>set es. registers c e \<longrightarrow> concerns p e"
    and "oneshot_open (exits s c)" "ch_receiver (exits s c)"
    and "oneshot_open (sentinels s tx)" "ch_receiver (sentinels s tx)"
    and "reads_pipe os h pending"
    and "wk_exit_rx ch = Some c" "wk_sentinel_rx ch = Some tx" "wk_cached_reason ch = None"
    and "run_state (listener_run os es [] []) s = ((ws, pd), t)"
  shows "\<exists>u code us cs vs ch' v.
    sentinel_thread os h tx t = Some ((), u) \<and>
    calls t = us @ cs @ vs \<and> exit_query p code cs \<and>
    run_state (wait_diagnosed os ch) u = (Some (Inr
      (if m = 8 then Crash code 0
       else if has_sentinel (pending (world t)) then CleanExit (make_exit_status code)
       else ExternalKill (make_exit_status code)), ch'), v)"
proof -
  obtain code us cs vs where d: "oneshot_done (Inr (iocp_reason m code)) (exits t c)"
    "calls t = us @ cs @ vs" "exit_query p code cs"
    using listener_delivers [OF assms(1-4,11)] by blast
  have sn: "sentinels t = sentinels s" by (rule listener_run_sentinels [OF assms(11)])
  obtain u where u: "sentinel_thread os h tx t = Some ((), u)"
    "oneshot_done (has_sentinel (pending (world t))) (sentinels u tx)"
    "u = t\<lparr>world := world u, calls := calls u, sentinels := (sentinels t)(tx := sentinels u tx)\<rparr>"
    using sentinel_thread_ends [OF assms(7), of t tx] assms(5,6) sn by auto
  have "exits u = exits t" by (subst u(3)) simp
  then have x: "oneshot_done (Inr (iocp_reason m code)) (exits u c)" using d(1) by simp
  have a: "sentinel_answer u ch (Some (has_sentinel (pending (world t))))"
    using u(2) assms(9) by (simp add: sentinel_answer_def)
  have e: "refined (iocp_reason m code) (Some (has_sentinel (pending (world t)))) =
      (if m = 8 then Crash code 0
       else if has_sentinel (pending (world t)) then CleanExit (make_exit_status code)
       else ExternalKill (make_exit_status code))"
    by (cases "has_sentinel (pending (world t))") (simp_all add: iocp_reason_def)
  obtain ch' v where "run_state (wait_diagnosed os ch) u =
      (Some (Inr (refined (iocp_reason m code) (Some (has_sentinel (pending (world t))))), ch'), v)"
    using wait_diagnosed_exit_run [OF assms(10,8) x a, of os] by blast
  then show ?thesis unfolding e using u(1) d(2,3) by blast
qed

lemma dispatch_event_sentinels: "sentinels (snd (run_state (dispatch_event os ch e) s)) = sentinels s"
proof -
  obtain u where "os_steps (event_call e) s u"
    "snd (run_state (dispatch_event os ch e) s) = snd (run_state (deliver_list (snd (dispatch_children ch e))) u)"
    using dispatch_event_refines [of e s os ch] by auto
  then show ?thesis by (auto simp: deliver_list_sentinels os_steps_def)
qed

lemma dispatch_all_sentinels: "sentinels (snd (run_state (dispatch_all os ch es) s)) = sentinels s"
proof (induction es arbitrary: ch s)
  case (Cons e es)
  then show ?case by (simp only: run_dispatch_all_Cons dispatch_event_sentinels)
qed simp

text \<open>What the caller is told of a classification when the sentinel was asked for or not: only an
  unclassified exit is refined.\<close>

lemma refined_cases:
  "refined r b = (case r of Unknown st \<Rightarrow> unclassified b st | _ \<Rightarrow> r)"
  by (cases r) (simp_all add: refined_unclassified)

text \<open>C2 (debugger): a child of the pump whose debug events were handled up to its exit, among any
  events of other processes, and, when the sentinel was asked for too, whose pipe has ended:
  \<open>wait_diagnosed\<close> answers the verdict of the whole history (the last exception no handler took makes
  it a fast fail or a crash). Only a history without such an exception, whose verdict is
  \<open>Unknown\<close>, is refined by the sentinel: to \<open>CleanExit\<close> when the stream of the pipe holds its message at a
  frame boundary and to \<open>ExternalKill\<close> when not. Asking again gives the same answer without any API call.\<close>

theorem debug_child_diagnosed:
  assumes "map_of tab p = Some ce" "ce_pending ce = None" "\<not> ce_past_loader_bp ce"
    and "one_route (pump_routes tab)"
    and "oneshot_open (exits s (ce_exit_tx ce))" "ch_receiver (exits s (ce_exit_tx ce))"
    and "\<forall>e\<in>set (events_of p es). \<not> terminal e"
    and "de_pid e = p" "terminal (de_payload e)"
    and "run_state (dispatch_all os tab (es @ e # rest)) s = (tab', t)"
    and "wk_exit_rx ch = Some (ce_exit_tx ce)" "wk_cached_reason ch = None"
    and "\<forall>i. wk_sentinel_rx ch = Some i \<longrightarrow>
       reads_pipe os h pending \<and> oneshot_open (sentinels s i) \<and> ch_receiver (sentinels s i)"
    and "reason = (case verdict (events_of p es) (de_payload e) of
           Unknown st \<Rightarrow> (if wk_sentinel_rx ch = None then Unknown st
             else if has_sentinel (pending (world t)) then CleanExit st
             else ExternalKill st)
         | verd \<Rightarrow> verd)"
  shows "\<exists>u ch' v. (case wk_sentinel_rx ch of None \<Rightarrow> u = t | Some i \<Rightarrow> sentinel_thread os h i t = Some ((), u)) \<and>
    run_state (wait_diagnosed os ch) u = (Some (Inr reason, ch'), v) \<and>
    run_state (wait_diagnosed os ch') v = (Some (Inr reason, ch'), v)"
proof -
  let ?v = "verdict (events_of p es) (de_payload e)"
  define b where "b = (if wk_sentinel_rx ch = None then None else Some (has_sentinel (pending (world t))))"
  have reason: "reason = refined ?v b"
    unfolding assms(14) refined_cases b_def by (auto split: termination_reason.split)
  have d: "oneshot_done (Inr ?v) (exits t (ce_exit_tx ce))"
    using pump_classifies [OF assms(1-10)] by blast
  have sn: "sentinels t = sentinels s"
    using dispatch_all_sentinels [of os tab "es @ e # rest" s] assms(10) by simp
  obtain u where u: "case wk_sentinel_rx ch of None \<Rightarrow> u = t | Some i \<Rightarrow> sentinel_thread os h i t = Some ((), u)"
    "exits u = exits t" "sentinel_answer u ch b"
  proof (cases "wk_sentinel_rx ch")
    case None
    then show thesis using that [of t] by (simp add: sentinel_answer_def b_def)
  next
    case (Some i)
    then have r: "reads_pipe os h pending" and o: "oneshot_open (sentinels t i)" "ch_receiver (sentinels t i)"
      using assms(13) sn by simp_all
    obtain u where u: "sentinel_thread os h i t = Some ((), u)"
      "oneshot_done (has_sentinel (pending (world t))) (sentinels u i)"
      "u = t\<lparr>world := world u, calls := calls u, sentinels := (sentinels t)(i := sentinels u i)\<rparr>"
      using sentinel_thread_ends [OF r o] by auto
    have "exits u = exits t" by (subst u(3)) simp
    then show thesis using that [of u] u(1,2) Some by (simp add: sentinel_answer_def b_def)
  qed
  obtain ex se where w: "run_state (wait_diagnosed os ch) u =
     (Some (Inr reason, ch\<lparr>wk_sentinel_rx := None, wk_cached_reason := Some (from_reason reason)\<rparr>),
      u\<lparr>exits := ex, sentinels := se\<rparr>)"
    using wait_diagnosed_exit_run [OF assms(12,11) d [folded u(2)] u(3), of os] reason by auto
  show ?thesis
    by (intro exI [of _ u] exI conjI) (rule u(1), rule w, simp add: wait_diagnosed_def Let_def)
qed


section \<open>Witnesses\<close>

definition job_child :: worrywart_child where
  "job_child = \<lparr>wk_pid = 100, wk_process_handle = 0x10, wk_thread_handle = INVALID_HANDLE_VALUE,
     wk_exit_rx = Some 0, wk_cached_reason = None, wk_sentinel_rx = Some 0\<rparr>"

lemma failing_lookups:
  "run_state (dispatch_notification chunk_os m ov ws pd) s =
     (let (st, ds) = pure_notify (ucast ov, Inr (iocp_reason m 0)) (ws, pd)
      in (st, snd (run_state (deliver_list ds) (s\<lparr>calls := calls s @ [OpenProcess 0x1000 (ucast ov) 0]\<rparr>))))"
  if "exit_message m"
proof -
  show ?thesis
    using that
    by (cases "map_of ws (ucast ov)"; cases "m = 8")
     (auto simp: dispatch_notification_def classify_iocp_exit_def get_exit_code_def run_api chunk_os_def failing_os_def
      exit_message_def Let_def pure_notify_def iocp_reason_def PROCESS_QUERY_LIMITED_INFORMATION_def
      JOB_OBJECT_MSG_EXIT_PROCESS_def JOB_OBJECT_MSG_ABNORMAL_EXIT_PROCESS_def split: prod.splits)
qed

theorem job_child_diagnosed_witness:
  "\<exists>t u code ch' v.
    run_state (listener_run chunk_os [Packet 7 100, Packet 6 100, Registration 100 0] [] []) (init_sys helper_message) = (([], []), t) \<and>
    sentinel_thread chunk_os 7 0 t = Some ((), u) \<and>
    run_state (wait_diagnosed chunk_os job_child) u = (Some (Inr (CleanExit (make_exit_status code)), ch'), v)"
proof -
  let ?es = "[Packet 7 100, Packet 6 100, Registration 100 0]"
  let ?s = "init_sys helper_message"
  have "fst (run_state (listener_run chunk_os ?es [] []) ?s) = ([], []) \<and>
      world (snd (run_state (listener_run chunk_os ?es [] []) ?s)) = helper_message"
    by (simp add: listener_step_def failing_lookups exit_message_def dispatch_notification_ignored pure_notify_def Let_def
        register_waiter_def deliver_def send_exit_def drop_exit_sender_def init_sys_def ch_send_def sync_channel_def ch_full_def)
  then obtain t where r: "run_state (listener_run chunk_os ?es [] []) ?s = (([], []), t)" and w: "world t = helper_message"
    by (metis prod.collapse)
  have h: "has_sentinel helper_message" using has_sentinel_helper_message [of "[]"] by simp
  have "filter (concerns 100) ?es \<in> {[Registration 100 0, Packet 7 100], [Packet 7 100, Registration 100 0]}"
    by (simp add: exit_message_def)
  from job_child_diagnosed [OF this _ _ _ _ _ chunk_os_reads_pipe [of 7] _ _ _ r, of 0 job_child] r w h show ?thesis
    by (fastforce simp: job_child_def init_sys_def sync_channel_def oneshot_open_def exit_message_def simp del: listener_run.simps)
qed


text \<open>A fast fail without the sentinel, and with it a child that was killed without a word.\<close>

theorem debug_child_diagnosed_witness:
  "(let tab = [(1, new_child_entry 0x10 False 0 0), (2, new_child_entry 0x20 False 0 1)];
        ev = (\<lambda>p pl. \<lparr>de_pid = p, de_tid = 1, de_payload = pl\<rparr>);
        es = [ev 1 (ExceptionEvent BREAKPOINT 0x1000 1), ev 2 (ExitProcessEvent 0),
              ev 1 (ExceptionEvent (u32_as_i32 0xC0000409) 0x401000 0)];
        t = snd (run_state (dispatch_all chunk_os tab (es @ ev 1 (ExitProcessEvent 0xC0000409) # [])) (init_sys []))
    in \<exists>ch' u. run_state (wait_diagnosed chunk_os (job_child\<lparr>wk_sentinel_rx := None\<rparr>)) t =
         (Some (Inr (FastFail 0xC0000409), ch'), u)) \<and>
   (\<exists>t u ch' v. run_state (dispatch_all chunk_os [(1, new_child_entry 0x10 False 0 0)]
         [\<lparr>de_pid = 1, de_tid = 1, de_payload = ExitProcessEvent 1\<rparr>]) (init_sys []) = ([], t) \<and>
       sentinel_thread chunk_os 7 0 t = Some ((), u) \<and>
       run_state (wait_diagnosed chunk_os job_child) u = (Some (Inr (ExternalKill (make_exit_status 1)), ch'), v))"
proof
  let ?tab = "[(1, new_child_entry 0x10 False 0 0), (2, new_child_entry 0x20 False 0 1)]"
  let ?ev = "\<lambda>p pl. \<lparr>de_pid = p, de_tid = 1, de_payload = pl\<rparr>"
  let ?es = "[?ev 1 (ExceptionEvent BREAKPOINT 0x1000 1), ?ev 2 (ExitProcessEvent 0),
    ?ev 1 (ExceptionEvent (u32_as_i32 0xC0000409) 0x401000 0)]"
  let ?e = "?ev 1 (ExitProcessEvent 0xC0000409)"
  obtain tab' t where r: "run_state (dispatch_all chunk_os ?tab (?es @ ?e # [])) (init_sys []) = (tab', t)"
    by (metis surj_pair)
  have v: "verdict (events_of 1 ?es) (de_payload ?e) = FastFail 0xC0000409"
    by (simp add: verdict_def unhandled_def map_filter_Cons List.map_filter_simps BREAKPOINT_def)
  have "\<exists>u ch' v. (case wk_sentinel_rx (job_child\<lparr>wk_sentinel_rx := None\<rparr>) of None \<Rightarrow> u = t
        | Some i \<Rightarrow> sentinel_thread chunk_os 7 i t = Some ((), u)) \<and>
    run_state (wait_diagnosed chunk_os (job_child\<lparr>wk_sentinel_rx := None\<rparr>)) u = (Some (Inr (FastFail 0xC0000409), ch'), v) \<and>
    run_state (wait_diagnosed chunk_os ch') v = (Some (Inr (FastFail 0xC0000409), ch'), v)"
  proof (rule debug_child_diagnosed [where ce = "new_child_entry 0x10 False 0 0" and pending = "\<lambda>w. w", OF _ _ _ _ _ _ _ _ _ r])
    show "one_route (pump_routes ?tab)"
      by (auto simp: one_route_def pump_routes_def new_child_entry_def split: if_splits)
    show "FastFail 0xC0000409 = (case verdict (events_of 1 ?es) (de_payload ?e) of
           Unknown st \<Rightarrow> (if wk_sentinel_rx (job_child\<lparr>wk_sentinel_rx := None\<rparr>) = None then Unknown st
             else if has_sentinel (world t) then CleanExit st
             else ExternalKill st)
         | verd \<Rightarrow> verd)" unfolding v by simp
  qed (simp_all add: new_child_entry_def init_sys_def sync_channel_def oneshot_open_def job_child_def)
  then show "let tab = ?tab; ev = ?ev; es = [ev 1 (ExceptionEvent BREAKPOINT 0x1000 1), ev 2 (ExitProcessEvent 0),
              ev 1 (ExceptionEvent (u32_as_i32 0xC0000409) 0x401000 0)];
        t = snd (run_state (dispatch_all chunk_os tab (es @ ev 1 (ExitProcessEvent 0xC0000409) # [])) (init_sys []))
    in \<exists>ch' u. run_state (wait_diagnosed chunk_os (job_child\<lparr>wk_sentinel_rx := None\<rparr>)) t =
         (Some (Inr (FastFail 0xC0000409), ch'), u)"
    using r unfolding Let_def by (auto simp: job_child_def)
next
  let ?tab = "[(1, new_child_entry 0x10 False 0 0)]" and ?e = "\<lparr>de_pid = 1, de_tid = 1, de_payload = ExitProcessEvent 1\<rparr>"
  have "fst (run_state (dispatch_all chunk_os ?tab [?e]) (init_sys [])) = [] \<and>
      world (snd (run_state (dispatch_all chunk_os ?tab [?e]) (init_sys []))) = []"
    by (simp add: dispatch_all.simps dispatch_event_def Let_def deliver_def send_exit_def drop_exit_sender_def init_sys_def ch_send_def
        sync_channel_def ch_full_def new_child_entry_def classify_exit_def)
  then obtain t where t: "run_state (dispatch_all chunk_os ?tab [?e]) (init_sys []) = ([], t)" and w: "world t = []"
    by (metis prod.collapse)
  have n: "\<not> has_sentinel []" by code_simp
  have "\<exists>u ch' v. (case wk_sentinel_rx job_child of None \<Rightarrow> u = t | Some i \<Rightarrow> sentinel_thread chunk_os 7 i t = Some ((), u)) \<and>
    run_state (wait_diagnosed chunk_os job_child) u = (Some (Inr (ExternalKill (make_exit_status 1)), ch'), v) \<and>
    run_state (wait_diagnosed chunk_os ch') v = (Some (Inr (ExternalKill (make_exit_status 1)), ch'), v)"
  proof (rule debug_child_diagnosed [where ce = "new_child_entry 0x10 False 0 0" and pending = "\<lambda>w. w" and s = "init_sys []"
        and tab = ?tab and tab' = "[]" and p = 1 and es = "[]" and e = ?e and rest = "[]"])
    show "run_state (dispatch_all chunk_os ?tab ([] @ [?e])) (init_sys []) = ([], t)" using t by simp
    show "one_route (pump_routes ?tab)" by (auto simp: one_route_def pump_routes_def split: if_splits)
    show "ExternalKill (make_exit_status 1) = (case verdict (events_of 1 []) (de_payload ?e) of
           Unknown st \<Rightarrow> (if wk_sentinel_rx job_child = None then Unknown st
             else if has_sentinel (world t) then CleanExit st
             else ExternalKill st)
         | verd \<Rightarrow> verd)"
      using n w by (simp add: verdict_def unhandled_def job_child_def)
  qed (simp_all add: new_child_entry_def init_sys_def sync_channel_def oneshot_open_def job_child_def chunk_os_reads_pipe)
  then show "\<exists>t u ch' v. run_state (dispatch_all chunk_os ?tab [?e]) (init_sys []) = ([], t) \<and>
       sentinel_thread chunk_os 7 0 t = Some ((), u) \<and>
       run_state (wait_diagnosed chunk_os job_child) u = (Some (Inr (ExternalKill (make_exit_status 1)), ch'), v)"
    using t by (auto simp: job_child_def)
qed


end
