(* ===== verification/Compat.thy ===== *)
theory Compat
  imports Termination
begin

text \<open>
  \<open>Command\<close> and \<open>Child\<close> of \<open>src/crates/worrywart/src/compat.rs\<close>, the drop-in
  for \<open>tokio::process\<close>. Tokio is not under \<open>src/\<close>: its commands \<open>'c\<close>, children
  \<open>'h\<close>, pipes \<open>'p\<close>, \<open>Stdio\<close> values \<open>'io\<close> and the world \<open>'w\<close> they act on are
  type variables, and its methods are the fields of the record \<open>tokio\<close>. Nothing is assumed of them
  in the model; what tokio documents of \<open>wait\<close> and the three pipes is the definition
  \<open>documented_pipes\<close>, a hypothesis of the property that compares the two layers. A polled future
  that is not ready gives \<open>None\<close>.
\<close>

section \<open>Tokio\<close>

record ('c, 'h, 'p, 'io, 'w) tokio =
  t_new :: "os_string \<Rightarrow> 'c"
  t_arg :: "os_string \<Rightarrow> 'c \<Rightarrow> 'c"
  t_args :: "os_string list \<Rightarrow> 'c \<Rightarrow> 'c"
  t_env :: "os_string \<Rightarrow> os_string \<Rightarrow> 'c \<Rightarrow> 'c"
  t_envs :: "(os_string \<times> os_string) list \<Rightarrow> 'c \<Rightarrow> 'c"
  t_env_remove :: "os_string \<Rightarrow> 'c \<Rightarrow> 'c"
  t_env_clear :: "'c \<Rightarrow> 'c"
  t_current_dir :: "os_string \<Rightarrow> 'c \<Rightarrow> 'c"
  t_stdin :: "'io \<Rightarrow> 'c \<Rightarrow> 'c"
  t_stdout :: "'io \<Rightarrow> 'c \<Rightarrow> 'c"
  t_stderr :: "'io \<Rightarrow> 'c \<Rightarrow> 'c"
  t_kill_on_drop :: "bool \<Rightarrow> 'c \<Rightarrow> 'c"
  t_spawn :: "'c \<Rightarrow> 'w \<Rightarrow> (io_error + 'h) \<times> 'c \<times> 'w"
  t_take_stdin :: "'h \<Rightarrow> 'p option \<times> 'h"
  t_take_stdout :: "'h \<Rightarrow> 'p option \<times> 'h"
  t_take_stderr :: "'h \<Rightarrow> 'p option \<times> 'h"
  t_wait :: "'h \<Rightarrow> 'w \<Rightarrow> (io_error + exit_status) option \<times> 'h \<times> 'w"
  t_id :: "'h \<Rightarrow> pid option"
  t_kill :: "'h \<Rightarrow> 'w \<Rightarrow> (io_error + unit) option \<times> 'h \<times> 'w"
  t_try_wait :: "'h \<Rightarrow> 'w \<Rightarrow> (io_error + exit_status option) \<times> 'h \<times> 'w"
  t_drop_pipe :: "'p \<Rightarrow> 'w \<Rightarrow> 'w"

text \<open>
  What tokio documents: \<open>wait\<close> first closes the child's standard input, if the child still has
  it, so that a child that reads it to its end does end; and it makes no use of the output pipes.
\<close>

definition same_wait :: "('c, 'h, 'p, 'io, 'w) tokio \<Rightarrow> 'h \<Rightarrow> 'w \<Rightarrow> 'h \<Rightarrow> 'w \<Rightarrow> bool" where
  "same_wait tk h w h' w' \<longleftrightarrow>
     fst (t_wait tk h w) = fst (t_wait tk h' w') \<and> snd (snd (t_wait tk h w)) = snd (snd (t_wait tk h' w'))"

definition documented_pipes :: "('c, 'h, 'p, 'io, 'w) tokio \<Rightarrow> bool" where
  "documented_pipes tk \<longleftrightarrow>
     (\<forall>h w. (case t_take_stdin tk h of
         (None, h') \<Rightarrow> same_wait tk h w h' w
       | (Some p, h') \<Rightarrow> same_wait tk h w h' (t_drop_pipe tk p w))) \<and>
     (\<forall>h w. same_wait tk (snd (t_take_stdout tk h)) w h w) \<and>
     (\<forall>h w. same_wait tk (snd (t_take_stderr tk h)) w h w)"

section \<open>\<open>Command\<close>\<close>

record 'c compat_command =
  cc_inner :: 'c
  cc_monitors :: "monitor list"

definition compat_new :: "('c, 'h, 'p, 'io, 'w) tokio \<Rightarrow> os_string \<Rightarrow> 'c compat_command" where
  "compat_new tk program = \<lparr>cc_inner = t_new tk program, cc_monitors = []\<rparr>"

definition compat_arg :: "('c, 'h, 'p, 'io, 'w) tokio \<Rightarrow> os_string \<Rightarrow> 'c compat_command \<Rightarrow> 'c compat_command" where
  "compat_arg tk arg c = c\<lparr>cc_inner := t_arg tk arg (cc_inner c)\<rparr>"

definition compat_args :: "('c, 'h, 'p, 'io, 'w) tokio \<Rightarrow> os_string list \<Rightarrow> 'c compat_command \<Rightarrow> 'c compat_command" where
  "compat_args tk args c = c\<lparr>cc_inner := t_args tk args (cc_inner c)\<rparr>"

definition compat_env ::
  "('c, 'h, 'p, 'io, 'w) tokio \<Rightarrow> os_string \<Rightarrow> os_string \<Rightarrow> 'c compat_command \<Rightarrow> 'c compat_command" where
  "compat_env tk key val c = c\<lparr>cc_inner := t_env tk key val (cc_inner c)\<rparr>"

definition compat_envs ::
  "('c, 'h, 'p, 'io, 'w) tokio \<Rightarrow> (os_string \<times> os_string) list \<Rightarrow> 'c compat_command \<Rightarrow> 'c compat_command" where
  "compat_envs tk vars c = c\<lparr>cc_inner := t_envs tk vars (cc_inner c)\<rparr>"

definition compat_env_remove :: "('c, 'h, 'p, 'io, 'w) tokio \<Rightarrow> os_string \<Rightarrow> 'c compat_command \<Rightarrow> 'c compat_command" where
  "compat_env_remove tk key c = c\<lparr>cc_inner := t_env_remove tk key (cc_inner c)\<rparr>"

definition compat_env_clear :: "('c, 'h, 'p, 'io, 'w) tokio \<Rightarrow> 'c compat_command \<Rightarrow> 'c compat_command" where
  "compat_env_clear tk c = c\<lparr>cc_inner := t_env_clear tk (cc_inner c)\<rparr>"

definition compat_current_dir :: "('c, 'h, 'p, 'io, 'w) tokio \<Rightarrow> os_string \<Rightarrow> 'c compat_command \<Rightarrow> 'c compat_command" where
  "compat_current_dir tk dir c = c\<lparr>cc_inner := t_current_dir tk dir (cc_inner c)\<rparr>"

definition compat_stdin :: "('c, 'h, 'p, 'io, 'w) tokio \<Rightarrow> 'io \<Rightarrow> 'c compat_command \<Rightarrow> 'c compat_command" where
  "compat_stdin tk cfg c = c\<lparr>cc_inner := t_stdin tk cfg (cc_inner c)\<rparr>"

definition compat_stdout :: "('c, 'h, 'p, 'io, 'w) tokio \<Rightarrow> 'io \<Rightarrow> 'c compat_command \<Rightarrow> 'c compat_command" where
  "compat_stdout tk cfg c = c\<lparr>cc_inner := t_stdout tk cfg (cc_inner c)\<rparr>"

definition compat_stderr :: "('c, 'h, 'p, 'io, 'w) tokio \<Rightarrow> 'io \<Rightarrow> 'c compat_command \<Rightarrow> 'c compat_command" where
  "compat_stderr tk cfg c = c\<lparr>cc_inner := t_stderr tk cfg (cc_inner c)\<rparr>"

definition compat_kill_on_drop :: "('c, 'h, 'p, 'io, 'w) tokio \<Rightarrow> bool \<Rightarrow> 'c compat_command \<Rightarrow> 'c compat_command" where
  "compat_kill_on_drop tk kill c = c\<lparr>cc_inner := t_kill_on_drop tk kill (cc_inner c)\<rparr>"

definition compat_monitor :: "monitor \<Rightarrow> 'c compat_command \<Rightarrow> 'c compat_command" where
  "compat_monitor technique c = c\<lparr>cc_monitors := cc_monitors c @ [technique]\<rparr>"

section \<open>\<open>Child\<close>\<close>

record ('h, 'p) compat_child =
  ck_stdin :: "'p option"
  ck_stdout :: "'p option"
  ck_stderr :: "'p option"
  ck_inner :: 'h

definition from_tokio :: "('c, 'h, 'p, 'io, 'w) tokio \<Rightarrow> 'h \<Rightarrow> ('h, 'p) compat_child" where
  "from_tokio tk h0 =
     (let (i, h1) = t_take_stdin tk h0;
          (out, h2) = t_take_stdout tk h1;
          (e, h3) = t_take_stderr tk h2
      in \<lparr>ck_stdin = i, ck_stdout = out, ck_stderr = e, ck_inner = h3\<rparr>)"

definition compat_spawn ::
  "('c, 'h, 'p, 'io, 'w) tokio \<Rightarrow> 'c compat_command \<Rightarrow> 'w \<Rightarrow>
   (io_error + ('h, 'p) compat_child) \<times> 'c compat_command \<times> 'w" where
  "compat_spawn tk c w =
     (case t_spawn tk (cc_inner c) w of
        (Inl e, inner, w') \<Rightarrow> (Inl e, c\<lparr>cc_inner := inner\<rparr>, w')
      | (Inr h, inner, w') \<Rightarrow> (Inr (from_tokio tk h), c\<lparr>cc_inner := inner\<rparr>, w'))"

definition compat_wait ::
  "('c, 'h, 'p, 'io, 'w) tokio \<Rightarrow> ('h, 'p) compat_child \<Rightarrow> 'w \<Rightarrow>
   (io_error + exit_status) option \<times> ('h, 'p) compat_child \<times> 'w" where
  "compat_wait tk c w = (case t_wait tk (ck_inner c) w of (r, h, w') \<Rightarrow> (r, c\<lparr>ck_inner := h\<rparr>, w'))"

definition compat_wait_diagnosed ::
  "('c, 'h, 'p, 'io, 'w) tokio \<Rightarrow> ('h, 'p) compat_child \<Rightarrow> 'w \<Rightarrow>
   (io_error + termination_reason) option \<times> ('h, 'p) compat_child \<times> 'w" where
  "compat_wait_diagnosed tk c w =
     (case t_wait tk (ck_inner c) w of
        (None, h, w') \<Rightarrow> (None, c\<lparr>ck_inner := h\<rparr>, w')
      | (Some (Inl e), h, w') \<Rightarrow> (Some (Inl e), c\<lparr>ck_inner := h\<rparr>, w')
      | (Some (Inr status), h, w') \<Rightarrow> (Some (Inr (Unknown status)), c\<lparr>ck_inner := h\<rparr>, w'))"

definition compat_id :: "('c, 'h, 'p, 'io, 'w) tokio \<Rightarrow> ('h, 'p) compat_child \<Rightarrow> pid option" where
  "compat_id tk c = t_id tk (ck_inner c)"

definition compat_kill ::
  "('c, 'h, 'p, 'io, 'w) tokio \<Rightarrow> ('h, 'p) compat_child \<Rightarrow> 'w \<Rightarrow>
   (io_error + unit) option \<times> ('h, 'p) compat_child \<times> 'w" where
  "compat_kill tk c w = (case t_kill tk (ck_inner c) w of (r, h, w') \<Rightarrow> (r, c\<lparr>ck_inner := h\<rparr>, w'))"

definition compat_try_wait ::
  "('c, 'h, 'p, 'io, 'w) tokio \<Rightarrow> ('h, 'p) compat_child \<Rightarrow> 'w \<Rightarrow>
   (io_error + exit_status option) \<times> ('h, 'p) compat_child \<times> 'w" where
  "compat_try_wait tk c w = (case t_try_wait tk (ck_inner c) w of (r, h, w') \<Rightarrow> (r, c\<lparr>ck_inner := h\<rparr>, w'))"

section \<open>Programs over both interfaces\<close>

text \<open>
  A caller's program: builder calls, then a spawn, then calls on the child. The same program runs
  over tokio (without its calls of \<open>monitor\<close>) and over the compat layer.
\<close>

datatype 'io command_call =
    Arg os_string
  | Args "os_string list"
  | Env os_string os_string
  | Envs "(os_string \<times> os_string) list"
  | Env_Remove os_string
  | Env_Clear
  | Current_Dir os_string
  | Stdin 'io
  | Stdout 'io
  | Stderr 'io
  | Kill_On_Drop bool
  | Monitor_With monitor

datatype child_call = Wait | Id | Kill | Try_Wait

datatype child_answer =
    Waited "(io_error + exit_status) option"
  | Has_Id "pid option"
  | Killed "(io_error + unit) option"
  | Tried "io_error + exit_status option"

fun tokio_build :: "('c, 'h, 'p, 'io, 'w) tokio \<Rightarrow> 'c \<Rightarrow> 'io command_call \<Rightarrow> 'c" where
  "tokio_build tk c (Arg a) = t_arg tk a c"
| "tokio_build tk c (Args as) = t_args tk as c"
| "tokio_build tk c (Env k v) = t_env tk k v c"
| "tokio_build tk c (Envs vs) = t_envs tk vs c"
| "tokio_build tk c (Env_Remove k) = t_env_remove tk k c"
| "tokio_build tk c Env_Clear = t_env_clear tk c"
| "tokio_build tk c (Current_Dir d) = t_current_dir tk d c"
| "tokio_build tk c (Stdin io) = t_stdin tk io c"
| "tokio_build tk c (Stdout io) = t_stdout tk io c"
| "tokio_build tk c (Stderr io) = t_stderr tk io c"
| "tokio_build tk c (Kill_On_Drop b) = t_kill_on_drop tk b c"
| "tokio_build tk c (Monitor_With m) = c"

fun compat_build :: "('c, 'h, 'p, 'io, 'w) tokio \<Rightarrow> 'c compat_command \<Rightarrow> 'io command_call \<Rightarrow> 'c compat_command" where
  "compat_build tk c (Arg a) = compat_arg tk a c"
| "compat_build tk c (Args as) = compat_args tk as c"
| "compat_build tk c (Env k v) = compat_env tk k v c"
| "compat_build tk c (Envs vs) = compat_envs tk vs c"
| "compat_build tk c (Env_Remove k) = compat_env_remove tk k c"
| "compat_build tk c Env_Clear = compat_env_clear tk c"
| "compat_build tk c (Current_Dir d) = compat_current_dir tk d c"
| "compat_build tk c (Stdin io) = compat_stdin tk io c"
| "compat_build tk c (Stdout io) = compat_stdout tk io c"
| "compat_build tk c (Stderr io) = compat_stderr tk io c"
| "compat_build tk c (Kill_On_Drop b) = compat_kill_on_drop tk b c"
| "compat_build tk c (Monitor_With m) = compat_monitor m c"

fun tokio_calls :: "('c, 'h, 'p, 'io, 'w) tokio \<Rightarrow> child_call list \<Rightarrow> 'h \<Rightarrow> 'w \<Rightarrow> child_answer list \<times> 'h \<times> 'w" where
  "tokio_calls tk [] h w = ([], h, w)"
| "tokio_calls tk (q # qs) h w =
     (let (a, h', w') = (case q of
          Wait \<Rightarrow> (case t_wait tk h w of (r, h', w') \<Rightarrow> (Waited r, h', w'))
        | Id \<Rightarrow> (Has_Id (t_id tk h), h, w)
        | Kill \<Rightarrow> (case t_kill tk h w of (r, h', w') \<Rightarrow> (Killed r, h', w'))
        | Try_Wait \<Rightarrow> (case t_try_wait tk h w of (r, h', w') \<Rightarrow> (Tried r, h', w')));
          (as, h'', w'') = tokio_calls tk qs h' w'
      in (a # as, h'', w''))"

fun compat_calls ::
  "('c, 'h, 'p, 'io, 'w) tokio \<Rightarrow> child_call list \<Rightarrow> ('h, 'p) compat_child \<Rightarrow> 'w \<Rightarrow>
   child_answer list \<times> ('h, 'p) compat_child \<times> 'w" where
  "compat_calls tk [] c w = ([], c, w)"
| "compat_calls tk (q # qs) c w =
     (let (a, c', w') = (case q of
          Wait \<Rightarrow> (case compat_wait tk c w of (r, c', w') \<Rightarrow> (Waited r, c', w'))
        | Id \<Rightarrow> (Has_Id (compat_id tk c), c, w)
        | Kill \<Rightarrow> (case compat_kill tk c w of (r, c', w') \<Rightarrow> (Killed r, c', w'))
        | Try_Wait \<Rightarrow> (case compat_try_wait tk c w of (r, c', w') \<Rightarrow> (Tried r, c', w')));
          (as, c'', w'') = compat_calls tk qs c' w'
      in (a # as, c'', w''))"

section \<open>The drop-in\<close>

lemmas compat_builder_defs = compat_arg_def compat_args_def compat_env_def compat_envs_def compat_env_remove_def
  compat_env_clear_def compat_current_dir_def compat_stdin_def compat_stdout_def compat_stderr_def
  compat_kill_on_drop_def compat_monitor_def

lemma compat_build_inner: "cc_inner (compat_build tk c q) = tokio_build tk (cc_inner c) q"
  by (cases q) (simp_all add: compat_builder_defs)

lemma compat_builds_inner: "cc_inner (foldl (compat_build tk) c qs) = foldl (tokio_build tk) (cc_inner c) qs"
  by (induction qs arbitrary: c) (simp_all add: compat_build_inner)

lemma compat_calls_inner:
  "compat_calls tk qs c w =
     (case tokio_calls tk qs (ck_inner c) w of (as, h, w') \<Rightarrow> (as, c\<lparr>ck_inner := h\<rparr>, w'))"
proof (induction qs arbitrary: c w)
  case (Cons q qs)
  then show ?case
    by (cases q) (auto simp: compat_wait_def compat_id_def compat_kill_def compat_try_wait_def split: prod.splits)
qed simp

lemma compat_spawn_inner:
  "compat_spawn tk c w =
     (case t_spawn tk (cc_inner c) w of (r, inner, w') \<Rightarrow>
        (map_sum id (from_tokio tk) r, c\<lparr>cc_inner := inner\<rparr>, w'))"
  by (auto simp: compat_spawn_def split: prod.splits sum.splits)

lemma compat_calls_tokio:
  "fst (compat_calls tk calls (from_tokio tk h) w) = fst (tokio_calls tk calls (ck_inner (from_tokio tk h)) w) \<and>
   snd (snd (compat_calls tk calls (from_tokio tk h) w)) = snd (snd (tokio_calls tk calls (ck_inner (from_tokio tk h)) w))"
  by (simp add: compat_calls_inner split: prod.splits)

text \<open>What taking the pipes out of the child does to a wait.\<close>

lemma from_tokio_wait:
  assumes "documented_pipes tk"
  shows "same_wait tk (ck_inner (from_tokio tk h)) w (snd (t_take_stdin tk h)) w"
proof -
  let ?h1 = "snd (t_take_stdin tk h)"
  let ?h2 = "snd (t_take_stdout tk ?h1)"
  have "same_wait tk ?h2 w ?h1 w" "same_wait tk (snd (t_take_stderr tk ?h2)) w ?h2 w"
    using assms unfolding documented_pipes_def by blast+
  moreover have "ck_inner (from_tokio tk h) = snd (t_take_stderr tk ?h2)"
    by (simp add: from_tokio_def split: prod.splits)
  ultimately show ?thesis by (simp add: same_wait_def)
qed

definition drop_stdin :: "('c, 'h, 'p, 'io, 'w) tokio \<Rightarrow> ('h, 'p) compat_child \<Rightarrow> 'w \<Rightarrow> 'w" where
  "drop_stdin tk c w = (case ck_stdin c of None \<Rightarrow> w | Some p \<Rightarrow> t_drop_pipe tk p w)"

text \<open>C35 (drop-in): a program over the compat layer spawns exactly as the same program over tokio with
  its \<open>monitor\<close> calls left out, on the same world and with the same error. A wait on the child
  \<open>h\<close> it spawned is tokio's wait on \<open>h\<close> (same answer, same world) once the caller has dropped
  \<open>child.stdin\<close>; without that it is tokio's wait on a child whose standard input was taken out
  and is held open, and it leaves the pipe open, while the documentation of the layer says that nothing changes.\<close>

theorem compat_is_tokio:
  assumes "documented_pipes tk"
  shows "compat_spawn tk (foldl (compat_build tk) (compat_new tk program) qs) w =
     (case t_spawn tk (foldl (tokio_build tk) (t_new tk program) qs) w of (r, inner, w') \<Rightarrow>
        (map_sum id (from_tokio tk) r, (foldl (compat_build tk) (compat_new tk program) qs)\<lparr>cc_inner := inner\<rparr>, w')) \<and>
   (\<forall>h w r c' w'. compat_wait tk (from_tokio tk h) (drop_stdin tk (from_tokio tk h) w) = (r, c', w') \<longrightarrow>
     (\<exists>h'. t_wait tk h w = (r, h', w'))) \<and>
   (\<forall>h w r c' w'. compat_wait tk (from_tokio tk h) w = (r, c', w') \<longrightarrow>
     (\<exists>h'. t_wait tk (snd (t_take_stdin tk h)) w = (r, h', w')) \<and> ck_stdin c' = fst (t_take_stdin tk h))"
proof (intro conjI allI impI)
  show "compat_spawn tk (foldl (compat_build tk) (compat_new tk program) qs) w =
     (case t_spawn tk (foldl (tokio_build tk) (t_new tk program) qs) w of (r, inner, w') \<Rightarrow>
        (map_sum id (from_tokio tk) r, (foldl (compat_build tk) (compat_new tk program) qs)\<lparr>cc_inner := inner\<rparr>, w'))"
    by (simp add: compat_spawn_inner compat_builds_inner compat_new_def split: prod.splits)
next
  fix h w r c' w'
  let ?c = "from_tokio tk h" and ?h = "snd (t_take_stdin tk h)"
  have i: "ck_stdin ?c = fst (t_take_stdin tk h)" by (simp add: from_tokio_def split: prod.splits)
  have m: "fst (t_wait tk (ck_inner ?c) v) = fst (t_wait tk ?h v)"
    "snd (snd (t_wait tk (ck_inner ?c) v)) = snd (snd (t_wait tk ?h v))" for v
    using from_tokio_wait [OF assms, of h v] by (simp_all add: same_wait_def)
  have cw: "fst (compat_wait tk ?c v) = fst (t_wait tk ?h v)"
    "snd (snd (compat_wait tk ?c v)) = snd (snd (t_wait tk ?h v))"
    "ck_stdin (fst (snd (compat_wait tk ?c v))) = ck_stdin ?c" for v
    using m [of v] by (simp_all add: compat_wait_def case_prod_unfold)
  show "\<exists>h'. t_wait tk h w = (r, h', w')" if "compat_wait tk ?c (drop_stdin tk ?c w) = (r, c', w')"
  proof -
    have "same_wait tk h w ?h (drop_stdin tk ?c w)"
    proof (cases "t_take_stdin tk h")
      case (Pair x h')
      have "case t_take_stdin tk h of (None, h') \<Rightarrow> same_wait tk h w h' w
        | (Some p, h') \<Rightarrow> same_wait tk h w h' (t_drop_pipe tk p w)"
        by (rule conjunct1 [OF assms [unfolded documented_pipes_def], THEN spec, THEN spec])
      then show ?thesis using Pair i by (cases x) (simp_all add: drop_stdin_def)
    qed
    then show ?thesis using cw [of "drop_stdin tk ?c w"] that
      by (intro exI [of _ "fst (snd (t_wait tk h w))"]) (simp add: same_wait_def prod_eq_iff)
  qed
  assume "compat_wait tk ?c w = (r, c', w')"
  then show "\<exists>h'. t_wait tk ?h w = (r, h', w')" "ck_stdin c' = fst (t_take_stdin tk h)"
    using cw [of w] i by (auto simp: prod_eq_iff intro!: exI [of _ "fst (snd (t_wait tk ?h w))"])
qed

text \<open>A tokio whose only child reads its standard input to the end: the world is whether the pipe is
  open. The program that spawns and waits returns over tokio and hangs over the compat layer, where
  it returns once \<open>child.stdin\<close> is dropped.\<close>

definition reader_tokio :: "(unit, unit option, unit, unit, bool) tokio" where
  "reader_tokio = \<lparr>t_new = (\<lambda>_. ()), t_arg = (\<lambda>_ c. c), t_args = (\<lambda>_ c. c), t_env = (\<lambda>_ _ c. c), t_envs = (\<lambda>_ c. c),
     t_env_remove = (\<lambda>_ c. c), t_env_clear = (\<lambda>c. c), t_current_dir = (\<lambda>_ c. c), t_stdin = (\<lambda>_ c. c), t_stdout = (\<lambda>_ c. c),
     t_stderr = (\<lambda>_ c. c), t_kill_on_drop = (\<lambda>_ c. c), t_spawn = (\<lambda>c w. (Inr (Some ()), c, True)),
     t_take_stdin = (\<lambda>h. (h, None)), t_take_stdout = (\<lambda>h. (None, h)), t_take_stderr = (\<lambda>h. (None, h)),
     t_wait = (\<lambda>h w. if h = None \<and> w then (None, h, w) else (Some (Inr (make_exit_status 0)), None, False)),
     t_id = (\<lambda>_. None), t_kill = (\<lambda>h w. (Some (Inr ()), h, w)), t_try_wait = (\<lambda>h w. (Inr None, h, w)),
     t_drop_pipe = (\<lambda>_ _. False)\<rparr>"

lemma reader_tokio_documented: "documented_pipes reader_tokio"
  by (auto simp: documented_pipes_def same_wait_def reader_tokio_def split: option.split)

theorem compat_is_tokio_witness:
  "\<exists>h w c w'. t_spawn reader_tokio (t_new reader_tokio [0x78]) False = (Inr h, (), w) \<and>
     fst (compat_spawn reader_tokio (compat_new reader_tokio [0x78]) False) = Inr (from_tokio reader_tokio h) \<and>
     fst (t_wait reader_tokio h w) = Some (Inr (make_exit_status 0)) \<and>
     compat_wait reader_tokio (from_tokio reader_tokio h) w = (None, c, w') \<and> ck_stdin c = Some () \<and>
     fst (compat_wait reader_tokio (from_tokio reader_tokio h) (drop_stdin reader_tokio (from_tokio reader_tokio h) w)) =
       Some (Inr (make_exit_status 0))"
proof -
  let ?tk = reader_tokio and ?h = "Some ()"
  have s: "t_spawn ?tk (t_new ?tk [0x78]) False = (Inr ?h, (), True)"
    "fst (t_wait ?tk ?h True) = Some (Inr (make_exit_status 0))" by (simp_all add: reader_tokio_def)
  obtain r c w' where 1: "compat_wait ?tk (from_tokio ?tk ?h) True = (r, c, w')" by (metis surj_pair)
  obtain r2 c2 w2 where 2: "compat_wait ?tk (from_tokio ?tk ?h) (drop_stdin ?tk (from_tokio ?tk ?h) True) = (r2, c2, w2)"
    by (metis surj_pair)
  note eq = compat_is_tokio [OF reader_tokio_documented]
  have "fst (compat_spawn ?tk (compat_new ?tk [0x78]) False) = Inr (from_tokio ?tk ?h)"
    using eq [of "[0x78]" "[]" False] s(1) by simp
  moreover have "r = None" "ck_stdin c = Some ()"
    using eq [of "[]" "[]" True] 1 by (force simp: reader_tokio_def)+
  moreover have "r2 = Some (Inr (make_exit_status 0))"
    using eq [of "[]" "[]" True] 2 s(2) by fastforce
  ultimately show ?thesis using s 1 2 by (intro exI [of _ ?h] exI [of _ True] exI [of _ c] exI [of _ w']) simp
qed

text \<open>No diagnosis: whatever monitors were asked for and however the child ended, \<open>wait_diagnosed\<close>
  of the compat layer answers \<open>Unknown\<close> with the status \<open>wait\<close> gives, and leaves child and world as
  \<open>wait\<close> does.\<close>

theorem compat_never_diagnoses:
  "compat_wait_diagnosed tk c w =
     (case compat_wait tk c w of (r, c', w') \<Rightarrow> (map_option (map_sum id Unknown) r, c', w')) \<and>
   map_option (map_sum id reason_to_exit_status) (fst (compat_wait_diagnosed tk c w)) = fst (compat_wait tk c w)"
  by (auto simp: compat_wait_diagnosed_def compat_wait_def split: prod.splits option.splits sum.splits)

end
