(* ===== verification/Frames.thy ===== *)
theory Frames
  imports Iocp
begin

text \<open>
  What a turn of each thread leaves alone, and where the senders it holds go: \<open>keeps\<close> and its
  variants are relations between the states before and after, lifted to programs by \<open>along\<close>; \<open>owns\<close>
  says that the exit channels of a multiset are held once each and still open. The lemmas cover
  \<open>pump_iteration\<close> of \<open>pump.rs\<close> and \<open>iocp_turn\<close> of \<open>iocp.rs\<close>; they are what
  the composition of the threads in \<open>System\<close> rests on.
\<close>

section \<open>Programs along a relation\<close>

text \<open>\<open>along R m\<close>: whatever the state, running \<open>m\<close> moves it along \<open>R\<close>.\<close>

definition along :: "('s \<Rightarrow> 's \<Rightarrow> bool) \<Rightarrow> ('s, 'a) state \<Rightarrow> bool" where
  "along R m \<longleftrightarrow> (\<forall>s. R s (snd (run_state m s)))"

named_theorems along_intros

locale frame_relation =
  fixes R :: "'s \<Rightarrow> 's \<Rightarrow> bool"
  assumes stays: "R s s" and goes_on: "R s t \<Longrightarrow> R t u \<Longrightarrow> R s u"
begin

lemma along_return: "along R (State_Monad.return x)"
  by (simp add: along_def stays)

lemma along_get: "along R State_Monad.get"
  by (simp add: along_def State_Monad.get_def stays)

lemma along_bind:
  assumes "along R m" "\<And>x. along R (f x)"
  shows "along R (do { x \<leftarrow> m; f x })"
proof -
  have "R s (snd (run_state (do { x \<leftarrow> m; f x }) s))" for s
  proof -
    obtain x t where x: "run_state m s = (x, t)" by (cases "run_state m s")
    then show ?thesis using assms goes_on [of s t] by (auto simp: along_def dest: spec [of _ s])
  qed
  then show ?thesis by (simp add: along_def)
qed

lemma along_try_bind:
  assumes "along R m" "\<And>x. along R (f x)"
  shows "along R (try_bind m f)"
  unfolding try_bind_def by (rule along_bind [OF assms(1)]) (auto split: sum.split simp: along_return assms(2))

end

lemma along_if [along_intros]: "(b \<Longrightarrow> along R m) \<Longrightarrow> (\<not> b \<Longrightarrow> along R n) \<Longrightarrow> along R (if b then m else n)"
  by simp

lemma along_run: "along R m \<Longrightarrow> run_state m s = (r, t) \<Longrightarrow> R s t"
  by (metis along_def snd_conv)

lemma alongI: "(\<And>s r t. run_state m s = (r, t) \<Longrightarrow> R s t) \<Longrightarrow> along R m"
  by (auto simp: along_def) (metis surj_pair snd_conv)

section \<open>What the threads leave alone\<close>

definition keeps :: "('w, 'z) sys_scheme \<Rightarrow> ('w, 'z) sys_scheme \<Rightarrow> bool" where
  "keeps s t \<longleftrightarrow> next_exit t = next_exit s \<and> sentinels t = sentinels s \<and> next_sentinel t = next_sentinel s \<and>
     listeners t = listeners s \<and> next_response t = next_response s \<and> sys.more t = sys.more s"

interpretation keeps: frame_relation keeps
  by unfold_locales (auto simp: keeps_def)

lemmas [along_intros] = keeps.along_return keeps.along_bind keeps.along_get keeps.along_try_bind

lemma keeps_basic [along_intros]:
  "along keeps (api f g)" "along keeps (close_handle os h)" "along keeps (last_os_error os)"
  "along keeps (deliver i r)" "along keeps (drop_exit_sender i)" "along keeps (send_response i a)"
  "along keeps (drop_response_sender i)"
  by (auto simp: along_def keeps_def run_api close_handle_def last_os_error_def deliver_def send_exit_def
      drop_exit_sender_def send_response_def drop_response_sender_def split: prod.splits send_outcome.splits)

lemma keeps_create_process_impl:
  "along keeps (create_process_impl os app cmd env dir job i u e stdio inherit debug)"
  unfolding create_process_impl_def Let_def by (auto intro!: along_intros split: prod.split)

lemma keeps_handle_spawn: "along keeps (handle_spawn os ch req resp)"
  unfolding handle_spawn_def create_debugged_child_def Let_def
  by (auto intro!: along_intros keeps_create_process_impl split: sum.split prod.split option.split)

lemma keeps_dispatch_event: "along keeps (dispatch_event os ch e)"
  unfolding dispatch_event_def close_event_file_def Let_def
  by (auto intro!: along_intros split: debug_payload.split option.split)

lemma keeps_debug_step: "along keeps (debug_step os ch)"
  unfolding debug_step_def
  by (auto intro!: along_intros keeps_dispatch_event split: option.split prod.split)

lemma keeps_drop_children: "along keeps (drop_children ch)"
  by (induction ch rule: drop_children.induct) (auto intro!: along_intros)

lemma keeps_drop_messages: "along keeps (drop_messages ms)"
  by (induction ms rule: drop_messages.induct) (auto intro!: along_intros)

text \<open>The same for the pump, which also takes messages from its queue.\<close>

definition keeps_pump :: "('w, 'z) pump_sys_scheme \<Rightarrow> ('w, 'z) pump_sys_scheme \<Rightarrow> bool" where
  "keeps_pump s t \<longleftrightarrow> next_exit t = next_exit s \<and> sentinels t = sentinels s \<and> next_sentinel t = next_sentinel s \<and>
     listeners t = listeners s \<and> next_response t = next_response s \<and> pump_sys.more t = pump_sys.more s \<and>
     ch_cap (inbox t) = ch_cap (inbox s) \<and> ch_senders (inbox t) = ch_senders (inbox s)"

interpretation keeps_pump: frame_relation keeps_pump
  by unfold_locales (auto simp: keeps_pump_def)

lemmas [along_intros] = keeps_pump.along_return keeps_pump.along_bind keeps_pump.along_get keeps_pump.along_try_bind

lemma keeps_inbox:
  fixes s t :: "('w, 'z) pump_sys_scheme"
  shows "keeps s t \<Longrightarrow> inbox t = inbox s \<and> pump_sys.more t = pump_sys.more s"
  by (cases s; cases t) (simp add: keeps_def)

lemma keeps_imp_pump: "keeps s t \<Longrightarrow> keeps_pump s t"
  using keeps_inbox [of s t] by (simp add: keeps_pump_def keeps_def)

lemma keeps_lift: "along keeps m \<Longrightarrow> along keeps_pump m"
  by (simp add: along_def keeps_imp_pump)

lemma keeps_pump_inbox [along_intros]:
  "along keeps_pump inbox_recv" "along keeps_pump inbox_try_recv" "along keeps_pump drop_inbox"
proof -
  show "along keeps_pump inbox_recv" "along keeps_pump inbox_try_recv"
    by (auto simp: along_def keeps_pump_def inbox_recv_def inbox_try_recv_def ch_recv_def ch_try_recv_def
        split: recv_outcome.splits option.splits list.splits if_splits)
  have q: "along keeps_pump (State (\<lambda>s. (ch_buf (inbox s), s\<lparr>inbox := drop_receiver (inbox s)\<rparr>)))"
    by (auto simp: along_def keeps_pump_def drop_receiver_def)
  show "along keeps_pump drop_inbox"
    unfolding drop_inbox_def by (rule keeps_pump.along_bind [OF q keeps_lift [OF keeps_drop_messages]])
qed

lemma keeps_pump_iteration: "along keeps_pump (pump_iteration os ch)"
proof -
  have ret: "along keeps_pump (pump_return ch)" for ch
    unfolding pump_return_def by (intro along_intros keeps_lift [OF keeps_drop_children])
  have msg: "along keeps_pump (handle_message os ch m)" for ch m
    unfolding handle_message_def
    by (auto intro!: along_intros ret keeps_lift [OF keeps_debug_step] keeps_lift [OF keeps_handle_spawn]
        split: option.split pump_message.split)
  show ?thesis unfolding pump_iteration_def
    by (auto intro!: along_intros ret msg split: arrival.split)
qed

section \<open>Ownership of exit channels\<close>

text \<open>The channels \<open>T\<close>, held once each, still wait for their result.\<close>

definition owns :: "nat multiset \<Rightarrow> ('w, 'z) sys_scheme \<Rightarrow> bool" where
  "owns T s \<longleftrightarrow> (\<forall>i. count T i \<le> 1) \<and> (\<forall>i\<in>#T. oneshot_open (exits s i) \<and> i < next_exit s)"

lemma owns_accounts:
  assumes "accounts T T' s t" "owns (T + Q) s" "next_exit t = next_exit s"
  shows "owns (T' + Q) t"
proof -
  obtain D where D: "T = D + T'" "\<forall>i. i \<notin># D \<longrightarrow> exits t i = exits s i"
    using assms(1) by (auto simp: accounts_def)
  have c: "count D i + count T' i + count Q i \<le> 1" for i
    using assms(2) D(1) by (auto simp: owns_def)
  have "exits t i = exits s i" if "i \<in># T' + Q" for i
  proof -
    have "0 < count T' i + count Q i" using that by (metis count_greater_zero_iff count_union)
    then have "count D i = 0" using c [of i] by linarith
    then show ?thesis using D(2) by (simp add: not_in_iff)
  qed
  moreover have "count (T' + Q) i \<le> 1" for i using c [of i] by simp
  moreover have "oneshot_open (exits s i) \<and> i < next_exit s" if "i \<in># T' + Q" for i
    using assms(2) that D(1) by (auto simp: owns_def)
  ultimately show ?thesis using assms(3) by (auto simp: owns_def)
qed

lemma owns_lost:
  assumes "accounts T T' s t" "owns (T + Q) s" "i \<in># T" "i \<notin># T'"
  shows "ch_senders (exits t i) = 0"
proof -
  obtain D where D: "T = D + T'" "\<forall>i. ch_senders (exits t i) = ch_senders (exits s i) - count D i"
    using assms(1) by (auto simp: accounts_def)
  have "i \<in># D" using D(1) assms(3,4) by auto
  then have "1 \<le> count D i" by simp
  moreover have "ch_senders (exits s i) = 1" using assms(2,3) by (simp add: owns_def oneshot_open_def)
  ultimately show ?thesis using D(2) by simp
qed

section \<open>The listener\<close>

definition wtx :: "waiters \<Rightarrow> nat multiset" where
  "wtx ws = mset (map snd ws)"

fun registered_tx :: "iocp_message \<Rightarrow> nat" where
  "registered_tx (Register p tx) = tx"

abbreviation qtx :: "iocp_message list \<Rightarrow> nat multiset" where
  "qtx ms \<equiv> mset (map registered_tx ms)"

lemma wtx_simps [simp]: "wtx [] = {#}" "wtx ((p, c) # ws) = add_mset c (wtx ws)"
  by (simp_all add: wtx_def)

lemma wtx_delete: "distinct (map fst ws) \<Longrightarrow> map_of ws p = Some c \<Longrightarrow> wtx ws = add_mset c (wtx (AList.delete p ws))"
  using image_mset_delete [of ws p c snd] by (simp add: wtx_def)

lemma wtx_update: "distinct (map fst ws) \<Longrightarrow> wtx (AList.update p c ws) = add_mset c (wtx (AList.delete p ws))"
  using image_mset_update [of ws snd p c] by (simp add: wtx_def)

lemma deliver_unstuck:
  "oneshot_open (exits s c) \<Longrightarrow> stuck (snd (run_state (deliver c r) s)) = stuck s"
  by (auto simp: deliver_def send_exit_def drop_exit_sender_def oneshot_open_def ch_send_def ch_full_def)

lemma register_waiter_owns:
  assumes "run_state (register_waiter p c ws pd) s = ((ws', pd'), t)" "distinct (map fst ws)"
    and "owns (add_mset c (wtx ws) + Q) s"
  shows "accounts (add_mset c (wtx ws)) (wtx ws') s t \<and> stuck t = stuck s \<and> distinct (map fst ws')"
proof (cases "map_of pd p")
  case (Some r)
  then have t: "t = snd (run_state (deliver c r) s)" "ws' = ws"
    using assms(1) by (auto simp: register_waiter_def split: prod.splits)
  have "oneshot_open (exits s c)" using assms(3) by (auto simp: owns_def)
  then show ?thesis using accounts_deliver [of c "wtx ws" s r] deliver_unstuck assms(2) by (simp add: t)
next
  case None
  then have ws': "ws' = AList.update p c ws" using assms(1) by (auto simp: register_waiter_def split: prod.splits)
  have d: "distinct (map fst ws')" using assms(2) ws' by (simp add: distinct_update)
  show ?thesis
  proof (cases "map_of ws p")
    case None
    then have "t = s" using assms(1) \<open>map_of pd p = None\<close> by (simp add: register_waiter_def)
    then show ?thesis using d None by (simp add: ws' wtx_update [OF assms(2)] delete_absent accounts_refl)
  next
    case (Some old)
    then have t: "t = snd (run_state (drop_exit_sender old) s)"
      using assms(1) \<open>map_of pd p = None\<close> by (auto simp: register_waiter_def split: prod.splits)
    have "accounts (add_mset old (add_mset c (wtx (AList.delete p ws)))) (add_mset c (wtx (AList.delete p ws))) s t"
      unfolding t by (rule accounts_drop_exit)
    then have "accounts (add_mset c (wtx ws)) (wtx ws') s t"
      by (simp add: ws' wtx_update [OF assms(2)] wtx_delete [OF assms(2) Some] add_mset_commute)
    then show ?thesis using d by (simp add: t drop_exit_sender_def)
  qed
qed

lemma dispatch_notification_owns:
  assumes "run_state (dispatch_notification os m ov ws pd) s = ((ws', pd'), t)" "distinct (map fst ws)"
    and "owns (wtx ws + Q) s"
  shows "accounts (wtx ws) (wtx ws') s t \<and> stuck t = stuck s \<and> distinct (map fst ws')"
proof (cases "exit_message m")
  case False
  then show ?thesis using assms by (simp add: dispatch_notification_ignored accounts_refl)
next
  case True
  obtain u code ds where u: "exits u = exits s" "stuck u = stuck s"
      and r: "pure_notify (ucast ov, Inr (iocp_reason m code)) (ws, pd) = ((ws', pd'), ds)"
        "t = snd (run_state (deliver_list ds) u)"
    by (rule exit_packet [OF assms(1) True])
  show ?thesis
  proof (cases "map_of ws (ucast ov)")
    case None
    then have "ws' = ws" "ds = []" using r(1) by (simp_all add: pure_notify_simps)
    then show ?thesis using r(2) u assms(2) by (simp add: accounts_refl)
  next
    case (Some c)
    then have d: "ws' = AList.delete (ucast ov) ws" "t = snd (run_state (deliver c (Inr (iocp_reason m code))) u)"
      using r by (auto simp: pure_notify_simps split: prod.splits)
    have "c \<in># wtx ws" using wtx_delete [OF assms(2) Some] by simp
    then have "oneshot_open (exits u c)" using assms(3) u(1) by (auto simp: owns_def)
    from deliver_unstuck [OF this] have "stuck t = stuck s" using u(2) d(2) by simp
    moreover have "accounts (wtx ws) (wtx ws') s t"
      unfolding wtx_delete [OF assms(2) Some] d(1)
      by (rule accounts_exits [OF accounts_deliver [of c _ u]]) (use u d(2) in simp_all)
    ultimately show ?thesis using assms(2) d(1) by (simp add: distinct_delete)
  qed
qed

lemma keeps_listener:
  "along keeps (register_waiter p c ws pd)" "along keeps (dispatch_notification os m ov ws pd)"
  "along keeps (get_status os port timeout)" "along keeps (drop_waiters ws)"
proof -
  show "along keeps (register_waiter p c ws pd)"
    unfolding register_waiter_def by (auto intro!: along_intros split: option.split)
  show "along keeps (dispatch_notification os m ov ws pd)"
    unfolding dispatch_notification_def classify_iocp_exit_def get_exit_code_def Let_def
    by (auto intro!: along_intros split: option.split prod.split)
  show "along keeps (get_status os port timeout)" unfolding get_status_def by (intro along_intros)
  show "along keeps (drop_waiters ws)" by (induction ws rule: drop_waiters.induct) (auto intro!: along_intros)
qed

definition same_responses :: "('w, 'z) sys_scheme \<Rightarrow> ('w, 'z) sys_scheme \<Rightarrow> bool" where
  "same_responses s t \<longleftrightarrow> responses t = responses s"

interpretation same_responses: frame_relation same_responses
  by unfold_locales (auto simp: same_responses_def)

lemmas [along_intros] = same_responses.along_return same_responses.along_bind same_responses.along_get

lemma same_responses_basic [along_intros]:
  "along same_responses (api f g)" "along same_responses (close_handle os h)"
  "along same_responses (deliver i r)" "along same_responses (drop_exit_sender i)"
  by (auto simp: along_def same_responses_def run_api close_handle_def deliver_def send_exit_def
      drop_exit_sender_def split: prod.splits send_outcome.splits)

lemma same_responses_listener:
  "along same_responses (register_waiter p c ws pd)" "along same_responses (dispatch_notification os m ov ws pd)"
  "along same_responses (get_status os port timeout)" "along same_responses (drop_waiters ws)"
proof -
  show "along same_responses (register_waiter p c ws pd)"
    unfolding register_waiter_def by (auto intro!: along_intros split: option.split)
  show "along same_responses (dispatch_notification os m ov ws pd)"
    unfolding dispatch_notification_def classify_iocp_exit_def get_exit_code_def Let_def
    by (auto intro!: along_intros split: option.split prod.split)
  show "along same_responses (get_status os port timeout)" unfolding get_status_def by (intro along_intros)
  show "along same_responses (drop_waiters ws)" by (induction ws rule: drop_waiters.induct) (auto intro!: along_intros)
qed

text \<open>A part of the listener's turn: where its senders went, and what it leaves alone.\<close>

definition listens :: "nat multiset \<Rightarrow> nat multiset \<Rightarrow> ('w, 'z) sys_scheme \<Rightarrow> ('w, 'z) sys_scheme \<Rightarrow> bool" where
  "listens T T' s t \<longleftrightarrow> accounts T T' s t \<and> stuck t = stuck s \<and> keeps s t \<and> same_responses s t"

lemma listens_refl: "listens T T s s"
  by (simp add: listens_def accounts_refl keeps.stays same_responses.stays)

lemma listens_trans: "listens T T' s t \<Longrightarrow> listens T' T'' t u \<Longrightarrow> listens T T'' s u"
  unfolding listens_def using accounts_trans keeps.goes_on same_responses.goes_on by metis

lemma listens_add: "listens T T' s t \<Longrightarrow> listens (T + Q) (T' + Q) s t"
  by (simp add: listens_def accounts_add)

lemma listens_owns: "listens T T' s t \<Longrightarrow> owns (T + Q) s \<Longrightarrow> owns (T' + Q) t"
  by (auto simp: listens_def keeps_def intro: owns_accounts)

lemma listens_os: "os_steps P s t \<Longrightarrow> listens T T s t"
  by (auto simp: listens_def os_steps_def keeps_def same_responses_def accounts_refl)

lemma register_all_listens:
  assumes "run_state (register_all ms ws pd) s = ((ws', pd'), t)" "distinct (map fst ws)"
    and "owns (qtx ms + wtx ws + Q) s"
  shows "listens (qtx ms + wtx ws) (wtx ws') s t \<and> distinct (map fst ws')"
  using assms
proof (induction ms arbitrary: ws pd s)
  case (Cons m ms)
  obtain p c where m: "m = Register p c" by (cases m)
  obtain ws1 pd1 s1 where 1: "run_state (register_waiter p c ws pd) s = ((ws1, pd1), s1)" by (metis surj_pair)
  have o: "owns (add_mset c (wtx ws) + (qtx ms + Q)) s" using Cons.prems(3) by (simp add: m ac_simps)
  note r = register_waiter_owns [OF 1 Cons.prems(2) o]
  have l: "listens (add_mset c (wtx ws)) (wtx ws1) s s1"
    using r along_run [OF keeps_listener(1) 1] along_run [OF same_responses_listener(1) 1] by (simp add: listens_def)
  have "owns (qtx ms + wtx ws1 + Q) s1" using listens_owns [OF l o] by (simp add: ac_simps)
  then have "listens (qtx ms + wtx ws1) (wtx ws') s1 t \<and> distinct (map fst ws')"
    using Cons.IH [of ws1 pd1 s1] Cons.prems(1) r 1 m by simp
  then show ?case using listens_trans [OF listens_add [OF l, of "qtx ms"], of "wtx ws'" t] by (simp add: m ac_simps)
qed (simp add: listens_refl)

lemma dispatch_listens:
  assumes "run_state (dispatch_notification os m ov ws pd) s = ((ws', pd'), t)" "distinct (map fst ws)"
    and "owns (wtx ws + Q) s"
  shows "listens (wtx ws) (wtx ws') s t \<and> distinct (map fst ws')"
  using dispatch_notification_owns [OF assms] along_run [OF keeps_listener(2) assms(1)]
    along_run [OF same_responses_listener(2) assms(1)] by (simp add: listens_def)

lemma get_status_listens:
  assumes "run_state (get_status os port timeout) s = (r, t)"
  shows "listens T T s t"
  using assms along_run [OF keeps_listener(3) assms] along_run [OF same_responses_listener(3) assms]
  by (auto simp: listens_def get_status_def run_api accounts_refl split: prod.splits)

lemma drain_remaining_listens:
  assumes "drain_remaining os port ws pd s = Some ((ws', pd'), t)" "distinct (map fst ws)" "owns (wtx ws + Q) s"
  shows "listens (wtx ws) (wtx ws') s t \<and> distinct (map fst ws')"
  using assms(2,3)
proof (induction os port ws pd s "((ws', pd'), t)" rule: drain_remaining.raw_induct)
  case (1 drain os port ws pd s)
  obtain ok bytes key ov s1 where g: "run_state (get_status os port 0) s = ((ok, bytes, key, ov), s1)"
    by (metis surj_pair)
  note l1 = get_status_listens [OF g, of "wtx ws"]
  show ?case
  proof (cases "(\<not> ok \<and> ov = 0) \<or> key = SHUTDOWN_KEY")
    case True
    then have "ws' = ws" "t = s1" using 1(2) g by (auto split: if_splits)
    then show ?thesis using l1 1(3) by simp
  next
    case False
    obtain ws2 pd2 s2 where d: "run_state (dispatch_notification os bytes ov ws pd) s1 = ((ws2, pd2), s2)"
      by (metis surj_pair)
    note l2 = dispatch_listens [OF d 1(3) listens_owns [OF l1 1(4)]]
    have "drain os port ws2 pd2 s2 = Some ((ws', pd'), t)" using 1(2) g d False by (auto split: if_splits)
    from 1(1) [OF this] l2 have "listens (wtx ws2) (wtx ws') s2 t \<and> distinct (map fst ws')"
      using listens_owns [OF l1 1(4)] listens_owns by blast
    then show ?thesis using listens_trans [OF listens_trans [OF l1]] l2 by blast
  qed
qed (rule assms(1))

lemma drop_waiters_listens:
  assumes "run_state (drop_waiters ws) s = (u, t)"
  shows "listens (wtx ws + T) T s t"
proof -
  have "accounts (wtx ws + T) T s (snd (run_state (drop_waiters ws) s)) \<and>
      stuck (snd (run_state (drop_waiters ws) s)) = stuck s" for s :: "('a, 'b) sys_scheme"
  proof (induction ws arbitrary: s)
    case (Cons a ws)
    obtain p c where a: "a = (p, c)" by (cases a)
    obtain x s1 where s1: "run_state (drop_exit_sender c) s = (x, s1)" by (cases "run_state (drop_exit_sender c) s")
    have "accounts (add_mset c (wtx ws + T)) (wtx ws + T) s s1" "stuck s1 = stuck s"
      using accounts_drop_exit [of c "wtx ws + T" s] s1 by (auto simp: drop_exit_sender_def)
    then show ?case using Cons.IH [of s1] s1 accounts_trans by (auto simp: a)
  qed (simp add: accounts_refl)
  then show ?thesis
    using assms along_run [OF keeps_listener(4) assms] along_run [OF same_responses_listener(4) assms]
    unfolding listens_def by (metis snd_conv)
qed

text \<open>The whole turn also takes registrations, and ends the thread; the other fields stay.\<close>

definition keeps_iocp :: "('w, 'z) worry_sys_scheme \<Rightarrow> ('w, 'z) worry_sys_scheme \<Rightarrow> bool" where
  "keeps_iocp s t \<longleftrightarrow> next_exit t = next_exit s \<and> sentinels t = sentinels s \<and> next_sentinel t = next_sentinel s \<and>
     listeners t = listeners s \<and> next_response t = next_response s \<and> responses t = responses s \<and>
     inbox t = inbox s \<and> worry_sys.more t = worry_sys.more s \<and>
     ch_cap (regs t) = ch_cap (regs s) \<and> ch_senders (regs t) = ch_senders (regs s)"

lemma keeps_iocp_trans: "keeps_iocp s t \<Longrightarrow> keeps_iocp t u \<Longrightarrow> keeps_iocp s u"
  by (auto simp: keeps_iocp_def)

lemma listens_iocp:
  fixes s t :: "('w, 'z) worry_sys_scheme"
  assumes "listens T T' s t"
  shows "keeps_iocp s t \<and> regs t = regs s"
  using assms by (cases s; cases t) (simp add: listens_def keeps_def same_responses_def keeps_iocp_def)

lemma accounts_exits_eq:
  "accounts T T' s t \<Longrightarrow> exits s' = exits s \<Longrightarrow> stuck s' = stuck s \<Longrightarrow> accounts T T' s' t"
  by (simp add: accounts_def)

lemma iocp_turn_owns:
  fixes s :: "('w, 'z) worry_sys_scheme"
  assumes "iocp_turn os port ws pd s = Some (l, t)" "distinct (map fst ws)"
    and "owns (qtx (ch_buf (regs s)) + wtx ws + Q) s"
  shows "keeps_iocp s t \<and> stuck t = stuck s \<and> ch_buf (regs t) = [] \<and>
    (case l of
       Listening ws' pd' \<Rightarrow> accounts (qtx (ch_buf (regs s)) + wtx ws) (wtx ws') s t \<and> distinct (map fst ws') \<and>
         ch_receiver (regs t) = ch_receiver (regs s)
     | Ended \<Rightarrow> accounts (qtx (ch_buf (regs s)) + wtx ws) {#} s t \<and> \<not> ch_receiver (regs t))"
proof -
  let ?ms = "ch_buf (regs s)" and ?s = "s\<lparr>regs := (regs s)\<lparr>ch_buf := []\<rparr>\<rparr>"
  let ?T = "qtx ?ms + wtx ws"
  obtain ws1 pd1 s1 where 1: "run_state (register_all ?ms ws pd) ?s = ((ws1, pd1), s1)" by (metis surj_pair)
  have o: "owns (?T + Q) ?s" using assms(3) by (simp add: owns_def)
  note l1 = register_all_listens [OF 1 assms(2) o]
  obtain ok bytes key ov s2 where 2: "run_state (get_status os port 10) s1 = ((ok, bytes, key, ov), s2)"
    by (metis surj_pair)
  have l12: "listens ?T (wtx ws1) ?s s2" using l1 listens_trans get_status_listens [OF 2] by blast
  have o2: "owns (wtx ws1 + Q) s2" by (rule listens_owns [OF l12 o])
  have ks: "keeps_iocp s ?s" by (simp add: keeps_iocp_def)
  have turn: "iocp_turn os port ws pd s =
      (if key = SHUTDOWN_KEY then
         (case drain_remaining os port ws1 pd1 s2 of
            None \<Rightarrow> None
          | Some ((ws'', pd''), s'') \<Rightarrow> Some (run_state (end_listener os port ws'') s''))
       else if \<not> ok \<and> ov = 0 then Some (Listening ws1 pd1, s2)
       else case run_state (dispatch_notification os bytes ov ws1 pd1) s2 of
         ((ws'', pd''), s'') \<Rightarrow> Some (Listening ws'' pd'', s''))"
    using 1 2 by (simp add: iocp_turn_def drain_registrations_def)
  have fin: "keeps_iocp s u \<and> stuck u = stuck s \<and> ch_buf (regs u) = [] \<and> accounts ?T (wtx ws') s u \<and>
      ch_receiver (regs u) = ch_receiver (regs s)"
    if "listens ?T (wtx ws') ?s u" for ws' u
    using that listens_iocp [OF that] keeps_iocp_trans [OF ks]
    by (auto simp: listens_def intro: accounts_exits_eq)
  show ?thesis
  proof (cases "key = SHUTDOWN_KEY")
    case True
    then obtain ws3 pd3 s3 where 3: "drain_remaining os port ws1 pd1 s2 = Some ((ws3, pd3), s3)"
      and e: "run_state (end_listener os port ws3) s3 = (l, t)"
      using turn assms(1) by (auto split: option.splits)
    note l3 = drain_remaining_listens [OF 3 _ o2]
    have l13: "listens ?T (wtx ws3) ?s s3" using l12 l3 l1 listens_trans by blast
    obtain b w where b: "w_CloseHandle os port (world s3) = (b, w)" by (metis surj_pair)
    let ?s4 = "s3\<lparr>world := w, calls := calls s3 @ [CloseHandle port b]\<rparr>"
    have l4: "listens (wtx ws3) (wtx ws3) s3 ?s4"
      by (rule listens_os [of "\<lambda>_. True"]) (auto simp: os_steps_def)
    obtain u s5 where 5: "run_state (drop_waiters ws3) ?s4 = (u, s5)" by (metis surj_pair)
    have l5: "listens ?T {#} ?s s5"
      using listens_trans [OF l13 listens_trans [OF l4 drop_waiters_listens [OF 5, of "{#}", simplified]]] .
    have r5: "regs s5 = (regs s)\<lparr>ch_buf := []\<rparr>" using listens_iocp [OF l5] by simp
    have t: "l = Ended" "t = s5\<lparr>regs := drop_receiver ((regs s)\<lparr>ch_buf := []\<rparr>)\<rparr>"
      using e b 5 r5 by (auto simp: end_listener_def close_handle_def run_api)
    note f = fin [of "[]" s5, unfolded wtx_simps(1), OF l5]
    have "keeps_iocp s5 t" by (simp add: t(2) keeps_iocp_def drop_receiver_def r5)
    then have "keeps_iocp s t" using f keeps_iocp_trans by blast
    moreover have "accounts ?T {#} s t" using f by (auto simp: t(2) intro: accounts_exits)
    ultimately show ?thesis using f by (simp add: t drop_receiver_def)
  next
    case nk: False
    show ?thesis
    proof (cases "\<not> ok \<and> ov = 0")
      case True
      then have "l = Listening ws1 pd1" "t = s2" using turn assms(1) nk by auto
      then show ?thesis using fin [OF l12] l1 by simp
    next
      case False
      obtain ws3 pd3 s3 where 3: "run_state (dispatch_notification os bytes ov ws1 pd1) s2 = ((ws3, pd3), s3)"
        by (metis surj_pair)
      note l3 = dispatch_listens [OF 3 _ o2]
      have "l = Listening ws3 pd3" "t = s3" using turn assms(1) nk False 3 by auto
      moreover have "listens ?T (wtx ws3) ?s s3" using l12 l3 l1 listens_trans by blast
      ultimately show ?thesis using fin l3 l1 by simp
    qed
  qed
qed

end
