(* ===== verification/System.thy ===== *)
theory System
  imports Frames Spawned
begin

text \<open>
  The threads together: the caller, the pump thread, the completion port listener and the sentinel
  threads as one step relation over the shared channels, and the invariant that every exit channel a
  child waits on still has its one sender with a live thread, or none. A step is one operation of the
  caller, one turn of a thread's loop, or the run of a sentinel thread to its end; an operation that
  waits for the pump or joins a thread has the turns of that thread inside.
\<close>

section \<open>Configurations\<close>

datatype 'a thread = Unborn | Running 'a | Gone

record 'w config = "'w ww_sys" +
  cf_pump :: "children thread"
  cf_listener :: "(waiters \<times> pending) thread"
  cf_ended :: "nat set"
  cf_children :: "worrywart_child list"

definition table :: "'w config \<Rightarrow> children" where
  "table s = (case cf_pump s of Running ch \<Rightarrow> ch | _ \<Rightarrow> [])"

definition waiting :: "'w config \<Rightarrow> waiters" where
  "waiting s = (case cf_listener s of Running (ws, pd) \<Rightarrow> ws | _ \<Rightarrow> [])"

section \<open>Steps\<close>

text \<open>A turn of the pump thread, which starts with an empty table once \<open>Pump::start\<close> has made it.\<close>

definition pump_turn :: "'w win32 \<Rightarrow> ('w config, unit) state" where
  "pump_turn os = State (\<lambda>s.
     if ww_pump s = None \<or> cf_pump s = Gone then ((), s)
     else case run_state (pump_iteration os (table s)) s of
       (r, t) \<Rightarrow> ((), t\<lparr>cf_pump := (case r of
           Again ch \<Rightarrow> Running ch | Waiting \<Rightarrow> Running (table s) | Returned \<Rightarrow> Gone)\<rparr>))"

fun pump_turns :: "nat \<Rightarrow> 'w win32 \<Rightarrow> ('w config, unit) state" where
  "pump_turns 0 os = State_Monad.return ()"
| "pump_turns (Suc n) os = do { pump_turn os; pump_turns n os }"

definition listener_turn :: "'w win32 \<Rightarrow> 'w config \<Rightarrow> 'w config option" where
  "listener_turn os s =
     (case ww_iocp s of
        None \<Rightarrow> None
      | Some p \<Rightarrow>
          if cf_listener s = Gone then None
          else
            let pd = (case cf_listener s of Running (ws, pd) \<Rightarrow> pd | _ \<Rightarrow> []) in
            case iocp_turn os (io_iocp_handle p) (waiting s) pd s of
              None \<Rightarrow> None
            | Some (l, t) \<Rightarrow> Some (t\<lparr>cf_listener := (case l of
                Listening ws' pd' \<Rightarrow> Running (ws', pd') | Ended \<Rightarrow> Gone)\<rparr>))"

fun listener_turns :: "nat \<Rightarrow> 'w win32 \<Rightarrow> ('w config, unit) state" where
  "listener_turns 0 os = State_Monad.return ()"
| "listener_turns (Suc n) os = do {
     State (\<lambda>s. case listener_turn os s of None \<Rightarrow> ((), s) | Some t \<Rightarrow> ((), t));
     listener_turns n os
   }"

text \<open>The end of a \<open>WorrywartChild\<close>: its \<open>Drop\<close>, then its receivers.\<close>

definition child_end :: "'w win32 \<Rightarrow> worrywart_child \<Rightarrow> ('w, 'z, unit) io" where
  "child_end os ch = do {
     child_drop os ch;
     (case wk_exit_rx ch of Some i \<Rightarrow> drop_exit_receiver i | None \<Rightarrow> State_Monad.return ());
     (case wk_sentinel_rx ch of Some i \<Rightarrow> drop_sentinel_receiver i | None \<Rightarrow> State_Monad.return ())
   }"

inductive step :: "'w win32 \<Rightarrow> 'w config \<Rightarrow> 'w config \<Rightarrow> bool" for os where
  Pump_Turn: "run_state (pump_turn os) s = ((), t) \<Longrightarrow> step os s t"
| Listener_Turn: "listener_turn os s = Some t \<Longrightarrow> step os s t"
| Sentinel_Thread: "(h, i) \<in> set (listeners s) \<Longrightarrow> i \<notin> cf_ended s \<Longrightarrow>
    sentinel_thread os h i s = Some ((), t) \<Longrightarrow> step os s (t\<lparr>cf_ended := insert i (cf_ended s)\<rparr>)"
| Spawn_Child: "run_state (spawn os (pump_turns n os) c) s = (Some (Inr ch), t) \<Longrightarrow>
    step os s (t\<lparr>cf_children := ch # cf_children s\<rparr>)"
| Spawn_Fails: "run_state (spawn os (pump_turns n os) c) s = (Some (Inl e), t) \<Longrightarrow> step os s t"
| Wait: "j < length (cf_children s) \<Longrightarrow>
    run_state (wait_diagnosed os (cf_children s ! j)) s = (Some (r, ch'), t) \<Longrightarrow>
    step os s (t\<lparr>cf_children := (cf_children s)[j := ch']\<rparr>)"
| Kill: "j < length (cf_children s) \<Longrightarrow>
    run_state (child_kill os (cf_children s ! j)) s = (r, t) \<Longrightarrow> step os s t"
| Drop: "j < length (cf_children s) \<Longrightarrow> cf_children s ! j = ch \<Longrightarrow>
    run_state (child_end os ch) s = ((), t) \<Longrightarrow>
    step os s (t\<lparr>cf_children := take j (cf_children s) @ drop (Suc j) (cf_children s)\<rparr>)"
| Drop_Pump: "ww_pump s = Some p \<Longrightarrow> run_state (pump_drop (pump_turns n os) p) s = ((), t) \<Longrightarrow> cf_pump t = Gone \<Longrightarrow>
    step os s (t\<lparr>ww_pump := None, cf_pump := Unborn\<rparr>)"
| Drop_Iocp: "ww_iocp s = Some p \<Longrightarrow> run_state (iocp_drop os (listener_turns n os) p) s = ((), t) \<Longrightarrow>
    cf_listener t = Gone \<Longrightarrow> step os s (t\<lparr>ww_iocp := None, cf_listener := Unborn\<rparr>)"

definition init_config :: "'w \<Rightarrow> 'w config" where
  "init_config w = ww_sys.extend (init_ww w None)
     \<lparr>cf_pump = Unborn, cf_listener = Unborn, cf_ended = {}, cf_children = []\<rparr>"

abbreviation reachable :: "'w win32 \<Rightarrow> 'w config \<Rightarrow> bool" where
  "reachable os s \<equiv> (\<exists>w. (step os)\<^sup>*\<^sup>* (init_config w) s)"

section \<open>The invariant\<close>

definition held_txs :: "'w config \<Rightarrow> nat multiset" where
  "held_txs s = pump_txs (table s) s + qtx (ch_buf (regs s)) + wtx (waiting s)"

text \<open>\<open>Q\<close> are the senders a caller holds in the middle of a spawn.\<close>

definition exits_ok :: "nat multiset \<Rightarrow> 'w config \<Rightarrow> bool" where
  "exits_ok Q s \<longleftrightarrow> owns (held_txs s + Q) s \<and> distinct (map fst (table s)) \<and> distinct (map fst (waiting s)) \<and>
     (\<forall>i<next_exit s. i \<in># held_txs s + Q \<or> ch_senders (exits s i) = 0)"

definition threads_ok :: "'w config \<Rightarrow> bool" where
  "threads_ok s \<longleftrightarrow> \<not> stuck s \<and> ch_cap (inbox s) = None \<and> ch_cap (regs s) = None \<and>
     (\<forall>i. count (queued_responses (ch_buf (inbox s))) i \<le> 1) \<and>
     (\<forall>i\<in>#queued_responses (ch_buf (inbox s)). oneshot_open (responses s i) \<and> i < next_response s) \<and>
     (ww_pump s = None \<longrightarrow> cf_pump s = Unborn \<and> ch_buf (inbox s) = []) \<and> (ww_iocp s = None \<longrightarrow> cf_listener s = Unborn \<and> ch_buf (regs s) = []) \<and>
     (cf_pump s = Gone \<longrightarrow> \<not> ch_receiver (inbox s) \<and> ch_buf (inbox s) = []) \<and>
     (cf_listener s = Gone \<longrightarrow> \<not> ch_receiver (regs s) \<and> ch_buf (regs s) = []) \<and>
     (ww_pump s \<noteq> None \<and> cf_pump s \<noteq> Gone \<longrightarrow> ch_receiver (inbox s)) \<and>
     (ww_iocp s \<noteq> None \<and> cf_listener s \<noteq> Gone \<longrightarrow> ch_receiver (regs s)) \<and>
     (\<forall>p. ww_pump s = Some p \<longrightarrow> po_thread p) \<and> (\<forall>p. ww_iocp s = Some p \<longrightarrow> io_thread p)"

definition sentinels_ok :: "'w config \<Rightarrow> bool" where
  "sentinels_ok s \<longleftrightarrow> distinct (map snd (listeners s)) \<and> (\<forall>i\<in>cf_ended s. i < next_sentinel s) \<and>
     (\<forall>(h, i)\<in>set (listeners s). i < next_sentinel s \<and> (i \<notin> cf_ended s \<longrightarrow> oneshot_open (sentinels s i))) \<and>
     (\<forall>i<next_sentinel s. i \<in> snd ` set (listeners s) - cf_ended s \<or> ch_senders (sentinels s i) = 0)"

definition sys_inv :: "nat multiset \<Rightarrow> 'w config \<Rightarrow> bool" where
  "sys_inv Q s \<longleftrightarrow> exits_ok Q s \<and> threads_ok s \<and> sentinels_ok s"

lemma sys_inv_os [simp]: "sys_inv Q (s\<lparr>world := w, calls := cs\<rparr>) = sys_inv Q s"
  by (simp add: sys_inv_def exits_ok_def threads_ok_def sentinels_ok_def held_txs_def table_def waiting_def owns_def)

lemma init_inv: "sys_inv {#} (init_config w)"
  by (simp add: sys_inv_def exits_ok_def threads_ok_def sentinels_ok_def held_txs_def table_def waiting_def owns_def
      init_config_def ww_sys.defs channel_def init_ww_def worry_sys.defs init_worry_def init_pump_def init_sys_def
      pump_sys.defs sys.defs)


section \<open>The turns of the threads\<close>

lemma owns_mono: "owns (T + R) s \<Longrightarrow> owns T s"
  unfolding owns_def by (metis add_leD1 count_union union_iff)

lemma queued_responses_drop: "i \<in># queued_responses (drop k ms) \<Longrightarrow> i \<in># queued_responses ms"
proof (induction k arbitrary: ms)
  case (Suc k)
  then show ?case by (cases ms rule: queued_responses.cases) auto
qed simp

text \<open>What a turn does to the exit channels and their owners.\<close>

lemma exits_ok_accounts:
  assumes "exits_ok Q s" "accounts T T' s t" "next_exit t = next_exit s"
    and "held_txs s = T + R" "held_txs t = T' + R"
    and "distinct (map fst (table t))" "distinct (map fst (waiting t))"
  shows "exits_ok Q t"
proof -
  have o: "owns (T + (R + Q)) s" using assms(1,4) by (simp add: exits_ok_def ac_simps)
  have o': "owns (held_txs t + Q) t" using owns_accounts [OF assms(2) o assms(3)] assms(5) by (simp add: ac_simps)
  have c: "i \<notin># held_txs t + Q \<longrightarrow> ch_senders (exits t i) = 0" if "i < next_exit t" for i
  proof -
    have i: "i \<in># held_txs s + Q \<or> ch_senders (exits s i) = 0" using assms(1,3) that by (auto simp: exits_ok_def)
    show ?thesis
    proof (cases "i \<in># T")
      case True
      then show ?thesis using owns_lost [OF assms(2) o] assms(5) by simp
    next
      case False
      show ?thesis
      proof
        assume "i \<notin># held_txs t + Q"
        then have "ch_senders (exits s i) = 0" using i False assms(4,5) by auto
        then show "ch_senders (exits t i) = 0" using assms(2) by (auto simp: accounts_def)
      qed
    qed
  qed
  have "i \<in># held_txs t + Q \<or> ch_senders (exits t i) = 0" if "i < next_exit t" for i
    using c [OF that] by (cases "i \<in># held_txs t + Q") simp_all
  then show ?thesis unfolding exits_ok_def using o' assms(6,7) by simp
qed

lemma pump_turn_inv:
  assumes "sys_inv Q s" "run_state (pump_turn os) s = (u, t)"
  shows "sys_inv Q t \<and> ww_pump t = ww_pump s \<and> ww_iocp t = ww_iocp s \<and> next_exit t = next_exit s \<and>
    next_sentinel t = next_sentinel s \<and> cf_children t = cf_children s \<and> (\<exists>k. ch_buf (inbox t) = drop k (ch_buf (inbox s)))"
proof (cases "ww_pump s = None \<or> cf_pump s = Gone")
  case True
  then have "t = s" using assms by (simp add: pump_turn_def)
  moreover have "ch_buf (inbox s) = drop 0 (ch_buf (inbox s))" by simp
  ultimately show ?thesis using assms(1) by blast
next
  case False
  obtain r v where v: "run_state (pump_iteration os (table s)) s = (r, v)" by (metis surj_pair)
  have t: "t = v\<lparr>cf_pump := (case r of Again ch \<Rightarrow> Running ch | Waiting \<Rightarrow> Running (table s) | Returned \<Rightarrow> Gone)\<rparr>"
    using assms(2) v False by (simp add: pump_turn_def)
  have ex: "exits_ok Q s" and th: "threads_ok s" and se: "sentinels_ok s" using assms(1) by (auto simp: sys_inv_def)
  have own: "owns (pump_txs (table s) s + (qtx (ch_buf (regs s)) + wtx (waiting s) + Q)) s"
    using ex by (simp add: exits_ok_def held_txs_def ac_simps)
  have inv: "pump_inv (table s) s"
    unfolding pump_inv_def channels_ok_def using owns_mono [OF own] ex th
    by (auto simp: exits_ok_def threads_ok_def owns_def)
  have k: "keeps_pump s v" by (rule along_run [OF keeps_pump_iteration v])
  have more: "regs v = regs s" "ww_pump v = ww_pump s" "ww_iocp v = ww_iocp s" "cf_pump v = cf_pump s"
    "cf_listener v = cf_listener s" "cf_ended v = cf_ended s" "cf_children v = cf_children s"
    using k by (cases s; cases v; simp add: keeps_pump_def)+
  have se': "sentinels_ok t" using se k more by (simp add: t sentinels_ok_def keeps_pump_def)
  have R: "held_txs s = pump_txs (table s) s + (qtx (ch_buf (regs s)) + wtx (waiting s))"
    by (simp add: held_txs_def ac_simps)
  have w: "waiting t = waiting s" using more by (simp add: t waiting_def)
  have fields: "ch_cap (inbox v) = ch_cap (inbox s)" "next_response v = next_response s" "next_exit v = next_exit s" "next_sentinel v = next_sentinel s"
    using k by (simp_all add: keeps_pump_def)
  have acc: "accounts (pump_txs (table s) s) (pump_txs (table t) t) s t \<and> threads_ok t \<and>
      distinct (map fst (table t)) \<and> (\<exists>k. ch_buf (inbox t) = drop k (ch_buf (inbox s)))"
  proof (cases r)
    case (Again ch)
    note it = pump_iteration_again [OF inv v [unfolded Again]]
    have tt: "table t = ch" "inbox t = inbox v" "exits t = exits v" by (simp_all add: t Again table_def)
    have "accounts (pump_txs (table s) s) (pump_txs (table t) t) s t"
      unfolding tt(1,2) by (rule accounts_exits [OF it(2)]) (simp_all add: tt(3))
    moreover have d: "ch_buf (inbox t) = drop 1 (ch_buf (inbox s))" using it(3) tt(2) by (simp add: drop_Suc)
    moreover have "\<forall>i\<in>#queued_responses (ch_buf (inbox t)). i < next_response t"
      using th fields(2) queued_responses_drop [of _ 1] unfolding d by (auto simp: t Again threads_ok_def)
    then have "threads_ok t" using th it(1,4) more fields False
      by (auto simp: t Again threads_ok_def pump_inv_def channels_ok_def)
    ultimately show ?thesis using it(1) tt by (auto simp: pump_inv_def)
  next
    case Waiting
    note it = pump_iteration_waiting [OF v [unfolded Waiting]]
    then have "table t = table s" "inbox t = inbox s" "exits t = exits s" by (simp_all add: t Waiting table_def)
    moreover have "threads_ok t" using th it False by (auto simp: t Waiting threads_ok_def)
    moreover have "\<exists>k. ch_buf (inbox s) = drop k (ch_buf (inbox s))" by (rule exI [of _ 0]) simp
    ultimately show ?thesis using ex by (simp add: accounts_refl exits_ok_def)
  next
    case Returned
    note it = pump_iteration_returned [OF inv v [unfolded Returned]]
    have tt: "table t = []" "inbox t = inbox v" "exits t = exits v" by (simp_all add: t Returned table_def)
    have "accounts (pump_txs (table s) s) (pump_txs (table t) t) s t"
      unfolding tt(1,2) it(3) by (rule accounts_exits [of _ _ s v]) (use it(2) tt(3) in \<open>simp_all add: tracked_txs_def\<close>)
    moreover have "threads_ok t" using th it more fields False
      by (auto simp: t Returned threads_ok_def hung_up_def)
    moreover have "ch_buf (inbox t) = drop (length (ch_buf (inbox s))) (ch_buf (inbox s))" using it(3) tt by simp
    ultimately show ?thesis using tt by auto
  qed
  have "exits_ok Q t"
  proof (rule exits_ok_accounts [OF ex])
    show "accounts (pump_txs (table s) s) (pump_txs (table t) t) s t" "distinct (map fst (table t))" using acc by blast+
    show "held_txs t = pump_txs (table t) t + (qtx (ch_buf (regs s)) + wtx (waiting s))"
      using more w by (simp add: held_txs_def t ac_simps)
    show "next_exit t = next_exit s" using fields by (simp add: t)
    show "distinct (map fst (waiting t))" using ex w by (simp add: exits_ok_def)
  qed (rule R)
  then show ?thesis using acc se' more fields by (simp add: sys_inv_def t)
qed

lemma pump_turns_inv:
  assumes "sys_inv Q s" "run_state (pump_turns n os) s = (u, t)"
  shows "sys_inv Q t \<and> ww_pump t = ww_pump s \<and> ww_iocp t = ww_iocp s \<and> next_exit t = next_exit s \<and>
    next_sentinel t = next_sentinel s \<and> cf_children t = cf_children s \<and> (\<exists>k. ch_buf (inbox t) = drop k (ch_buf (inbox s)))"
  using assms
proof (induction n arbitrary: s)
  case (Suc n)
  obtain x s1 where 1: "run_state (pump_turn os) s = (x, s1)" by (metis surj_pair)
  then have r: "run_state (pump_turns n os) s1 = (u, t)" using Suc.prems(2) by simp
  note p = pump_turn_inv [OF Suc.prems(1) 1]
  obtain j where j: "ch_buf (inbox s1) = drop j (ch_buf (inbox s))" using p by blast
  note q = Suc.IH [OF conjunct1 [OF p] r]
  then obtain k where "ch_buf (inbox t) = drop k (ch_buf (inbox s1))" by blast
  then have "ch_buf (inbox t) = drop (k + j) (ch_buf (inbox s))" using j by simp
  then show ?case using p q by auto
qed (auto intro: exI [of _ 0])

lemma listener_turn_inv:
  assumes "sys_inv Q s" "listener_turn os s = Some t"
  shows "sys_inv Q t \<and> next_exit t = next_exit s \<and> next_sentinel t = next_sentinel s \<and> cf_children t = cf_children s \<and>
    cf_pump t = cf_pump s \<and> ww_pump t = ww_pump s \<and> ww_iocp t = ww_iocp s"
proof -
  obtain p where p: "ww_iocp s = Some p" "cf_listener s \<noteq> Gone"
    using assms(2) by (auto simp: listener_turn_def split: option.splits if_splits)
  obtain pd l v where v: "iocp_turn os (io_iocp_handle p) (waiting s) pd s = Some (l, v)"
    and t: "t = v\<lparr>cf_listener := (case l of Listening ws' pd' \<Rightarrow> Running (ws', pd') | Ended \<Rightarrow> Gone)\<rparr>"
    using assms(2) p by (auto simp: listener_turn_def Let_def split: option.splits)
  have ex: "exits_ok Q s" and th: "threads_ok s" and se: "sentinels_ok s" using assms(1) by (auto simp: sys_inv_def)
  let ?T = "qtx (ch_buf (regs s)) + wtx (waiting s)"
  have own: "owns (?T + (pump_txs (table s) s + Q)) s" using ex by (simp add: exits_ok_def held_txs_def ac_simps)
  have dw: "distinct (map fst (waiting s))" using ex by (simp add: exits_ok_def)
  note turn = iocp_turn_owns [OF v dw own]
  have k: "keeps_iocp s v" using turn by blast
  have more: "inbox v = inbox s" "ww_pump v = ww_pump s" "ww_iocp v = ww_iocp s" "cf_pump v = cf_pump s"
    "cf_listener v = cf_listener s" "cf_ended v = cf_ended s" "cf_children v = cf_children s"
    using k by (cases s; cases v; simp add: keeps_iocp_def)+
  have fields: "next_exit v = next_exit s" "next_sentinel v = next_sentinel s" "next_response v = next_response s" "responses v = responses s" "ch_cap (regs v) = ch_cap (regs s)"
    using k by (simp_all add: keeps_iocp_def)
  have se': "sentinels_ok t" using se k more by (simp add: t sentinels_ok_def keeps_iocp_def)
  have tb: "table t = table s" "inbox t = inbox s" using more by (simp_all add: t table_def)
  have rt: "regs t = regs v" "exits t = exits v" by (simp_all add: t)
  have acc: "accounts ?T (qtx (ch_buf (regs t)) + wtx (waiting t)) s t \<and> threads_ok t \<and> distinct (map fst (waiting t))"
  proof (cases l)
    case (Listening ws' pd')
    have w: "waiting t = ws'" by (simp add: t Listening waiting_def)
    have "accounts ?T (wtx ws') s v" "distinct (map fst ws')" "ch_buf (regs v) = []" "stuck v = stuck s"
      using turn Listening by simp_all
    then have "accounts ?T (qtx (ch_buf (regs t)) + wtx (waiting t)) s t" "distinct (map fst (waiting t))"
      by (simp_all add: w rt accounts_def)
    moreover have "threads_ok t" using th turn more fields p by (auto simp: t Listening threads_ok_def)
    ultimately show ?thesis by blast
  next
    case Ended
    have w: "waiting t = []" by (simp add: t Ended waiting_def)
    have "accounts ?T {#} s v" "ch_buf (regs v) = []" using turn Ended by simp_all
    then have "accounts ?T (qtx (ch_buf (regs t)) + wtx (waiting t)) s t"
      by (simp add: w rt accounts_def)
    moreover have "threads_ok t" using th turn more fields p by (auto simp: t Ended threads_ok_def)
    ultimately show ?thesis using w by simp
  qed
  have "exits_ok Q t"
  proof (rule exits_ok_accounts [OF ex])
    show "accounts ?T (qtx (ch_buf (regs t)) + wtx (waiting t)) s t" "distinct (map fst (waiting t))" using acc by blast+
    show "held_txs s = ?T + pump_txs (table s) s" "held_txs t = qtx (ch_buf (regs t)) + wtx (waiting t) + pump_txs (table s) s"
      by (simp_all add: held_txs_def tb ac_simps)
    show "next_exit t = next_exit s" using fields by (simp add: t)
    show "distinct (map fst (table t))" using ex tb by (simp add: exits_ok_def)
  qed
  then show ?thesis using acc se' fields more by (simp add: sys_inv_def t)
qed

lemma sentinel_loop_steps:
  assumes "sentinel_loop os h buf offset received s = Some (b, t)"
  shows "os_steps neutral s t"
proof (induction os h buf offset received s "(b, t)" rule: sentinel_loop.raw_induct)
  case (1 loop os h buf offset received s)
  obtain r w where r: "w_ReadFile os h (SENTINEL_MSG_LEN - offset) (world s) = (r, w)" by (metis surj_pair)
  let ?s = "s\<lparr>world := w, calls := calls s @ [ReadFile h (SENTINEL_MSG_LEN - offset) r]\<rparr>"
  have one: "os_steps neutral s ?s" by (rule os_steps_one) (simp add: neutral_def)
  show ?case
  proof (cases "r = None \<or> r = Some []")
    case True
    then show ?thesis using 1(2) r one by (auto simp: run_api)
  next
    case False
    then obtain buf' o' rc where "loop os h buf' o' rc ?s = Some (b, t)"
      using 1(2) r by (auto simp: run_api split: if_splits)
    from 1(1) [OF this] show ?thesis using os_steps_trans [OF one] by blast
  qed
qed (rule assms)

lemma deliver_sentinel_any:
  assumes "oneshot_open (sentinels s i)"
  obtains ch where "run_state (deliver_sentinel i b) s = ((), s\<lparr>sentinels := (sentinels s)(i := ch)\<rparr>)" "ch_senders ch = 0"
proof (cases "ch_receiver (sentinels s i)")
  case True
  show thesis
    by (rule that [of "drop_sender ((sentinels s i)\<lparr>ch_buf := [b]\<rparr>)"])
      (use assms True in \<open>simp_all add: deliver_sentinel_def ch_send_def ch_full_def oneshot_open_def drop_sender_def\<close>)
next
  case False
  show thesis
    by (rule that [of "drop_sender (sentinels s i)"])
      (use assms False in \<open>simp_all add: deliver_sentinel_def ch_send_def oneshot_open_def drop_sender_def\<close>)
qed

lemma sentinel_end_inv:
  assumes "sys_inv Q s" "(h, i) \<in> set (listeners s)" "i \<notin> cf_ended s" "sentinel_thread os h i s = Some ((), t)"
  shows "sys_inv Q (t\<lparr>cf_ended := insert i (cf_ended s)\<rparr>) \<and> next_exit t = next_exit s \<and>
    next_sentinel t = next_sentinel s \<and> cf_children t = cf_children s"
proof -
  obtain b s1 where l: "sentinel_loop os h (replicate SENTINEL_MSG_LEN 0) 0 False s = Some (b, s1)"
    using assms(4) by (auto simp: sentinel_thread_def split: option.splits)
  obtain w cs where s1: "s1 = s\<lparr>world := w, calls := cs\<rparr>"
    using sentinel_loop_steps [OF l] by (auto simp: os_steps_def)
  obtain x w2 where c: "w_CloseHandle os h w = (x, w2)" by (metis surj_pair)
  have op: "oneshot_open (sentinels s i)" using assms(1-3) by (auto simp: sys_inv_def sentinels_ok_def)
  let ?s2 = "s\<lparr>world := w2, calls := cs @ [CloseHandle h x]\<rparr>"
  obtain ch where dl: "run_state (deliver_sentinel i b) ?s2 = ((), ?s2\<lparr>sentinels := (sentinels ?s2)(i := ch)\<rparr>)"
    and z: "ch_senders ch = 0"
    using deliver_sentinel_any [of ?s2 i b] op by auto
  have t: "t = s\<lparr>world := w2, calls := cs @ [CloseHandle h x], sentinels := (sentinels s)(i := ch)\<rparr>"
    using assms(4) l c dl by (simp add: sentinel_thread_def s1 close_handle_def run_api)
  have se: "sentinels_ok s" and ok: "exits_ok Q s" "threads_ok s" using assms(1) by (auto simp: sys_inv_def)
  have i: "i < next_sentinel s" using se assms(2) by (auto simp: sentinels_ok_def)
  have "sentinels_ok (t\<lparr>cf_ended := insert i (cf_ended s)\<rparr>)"
    using se z i by (auto simp: sentinels_ok_def t)
  moreover have "exits_ok Q (t\<lparr>cf_ended := insert i (cf_ended s)\<rparr>)" "threads_ok (t\<lparr>cf_ended := insert i (cf_ended s)\<rparr>)"
    using ok by (simp_all add: t exits_ok_def threads_ok_def held_txs_def table_def waiting_def owns_def)
  ultimately show ?thesis by (simp add: sys_inv_def t)
qed

end
