(* ===== verification/Callers.thy ===== *)
theory Callers
  imports System
begin

text \<open>
  What the operations of a caller do to the invariant of \<open>System\<close>: \<open>spawn\<close> on each of its paths,
  \<open>wait_diagnosed\<close>, \<open>kill\<close> and the drops. Parts that hand no sender over are lifted by
  \<open>along\<close>; a new exit channel is followed from the caller's hands into a queue.
\<close>

section \<open>The operations of the caller\<close>

text \<open>The parts of an operation that hand no sender over.\<close>

definition preserves :: "nat multiset \<Rightarrow> 'w config \<Rightarrow> 'w config \<Rightarrow> bool" where
  "preserves Q s t \<longleftrightarrow> (sys_inv Q s \<longrightarrow> sys_inv Q t) \<and> next_exit s \<le> next_exit t \<and>
     next_sentinel s \<le> next_sentinel t \<and> cf_children t = cf_children s"

interpretation preserves: frame_relation "preserves Q" for Q
  by unfold_locales (auto simp: preserves_def)

lemmas [along_intros] = preserves.along_return preserves.along_bind preserves.along_get preserves.along_try_bind

lemma preserves_api [along_intros]: "along (preserves Q) (api f g)"
  by (auto simp: along_def preserves_def run_api split: prod.split)

lemma preserves_calls [along_intros]:
  "along (preserves Q) (close_handle os h)" "along (preserves Q) (last_os_error os)"
  unfolding close_handle_def last_os_error_def by (intro along_intros)+

text \<open>An end of a channel used by the caller: what still waits for its sender stays as it is.\<close>

lemma preserves_exit_cell:
  assumes "oneshot_open (exits s i) \<Longrightarrow> oneshot_open c" "ch_senders c = ch_senders (exits s i)"
  shows "preserves Q s (s\<lparr>exits := (exits s)(i := c)\<rparr>)"
  using assms
  by (auto simp: preserves_def sys_inv_def exits_ok_def threads_ok_def sentinels_ok_def held_txs_def table_def
      waiting_def owns_def)

lemma preserves_sentinel_cell:
  assumes "oneshot_open (sentinels s i) \<Longrightarrow> oneshot_open c" "ch_senders c = ch_senders (sentinels s i)"
  shows "preserves Q s (s\<lparr>sentinels := (sentinels s)(i := c)\<rparr>)"
  using assms
  by (auto simp: preserves_def sys_inv_def exits_ok_def threads_ok_def sentinels_ok_def held_txs_def table_def
      waiting_def owns_def)

lemma preserves_response_cell:
  assumes "oneshot_open (responses s i) \<Longrightarrow> oneshot_open c"
  shows "preserves Q s (s\<lparr>responses := (responses s)(i := c)\<rparr>)"
  using assms
  by (auto simp: preserves_def sys_inv_def exits_ok_def threads_ok_def sentinels_ok_def held_txs_def table_def
      waiting_def owns_def)

lemma preserves_receive [along_intros]:
  "along (preserves Q) (recv_exit i)" "along (preserves Q) (recv_sentinel i)" "along (preserves Q) (recv_response i)"
  "along (preserves Q) (drop_exit_receiver i)" "along (preserves Q) (drop_sentinel_receiver i)"
  by (auto simp: along_def recv_exit_def recv_sentinel_def recv_response_def drop_exit_receiver_def
      drop_sentinel_receiver_def ch_recv_def drop_receiver_def oneshot_open_def preserves.stays
      intro!: preserves_exit_cell preserves_sentinel_cell preserves_response_cell
      split: recv_outcome.split list.split)

lemma preserves_child:
  "along (preserves Q) (wait_diagnosed os ch)" "along (preserves Q) (child_kill os ch)"
  "along (preserves Q) (child_drop os ch)" "along (preserves Q) (child_end os ch)"
proof -
  have "along (preserves Q) (wait_plain os ch)"
    unfolding wait_plain_def by (auto intro!: along_intros split: sum.split prod.split)
  moreover have "along (preserves Q) (refine_with_sentinel r rx)" for r rx
    unfolding refine_with_sentinel_def Let_def by (auto intro!: along_intros split: option.split arrival.split)
  ultimately show "along (preserves Q) (wait_diagnosed os ch)"
    unfolding wait_diagnosed_def Let_def
    by (auto intro!: along_intros split: option.split arrival.split sum.split)
  show "along (preserves Q) (child_kill os ch)" unfolding child_kill_def by (auto intro!: along_intros)
  show d: "along (preserves Q) (child_drop os ch)" unfolding child_drop_def by (auto intro!: along_intros)
  show "along (preserves Q) (child_end os ch)"
    unfolding child_end_def by (auto intro!: along_intros d split: option.split)
qed

lemma preserves_spawn_parts:
  "along (preserves Q) (environment_block os c)" "along (preserves Q) (create_process_for_job os p)"
proof -
  show "along (preserves Q) (environment_block os c)" unfolding environment_block_def by (auto intro!: along_intros)
  have "along (preserves Q) (create_process_impl os app cmd env dir job i u e stdio inherit debug)"
    for app cmd env dir job i u e stdio inherit debug
    unfolding create_process_impl_def Let_def by (auto intro!: along_intros split: prod.split)
  then show "along (preserves Q) (create_process_for_job os p)"
    unfolding create_process_for_job_def by (auto intro!: along_intros split: sum.split prod.split)
qed


text \<open>The pump and the listener are started on a fresh queue; when the thread cannot be started,
  nothing is left of it.\<close>

lemma inbox_reset_inv:
  assumes "sys_inv Q s" "ww_pump s = None" "ch_buf c = []" "ch_cap c = None" "\<forall>x. p = Some x \<longrightarrow> ch_receiver c \<and> po_thread x"
  shows "sys_inv Q (s\<lparr>inbox := c, ww_pump := p\<rparr>)"
proof -
  let ?t = "s\<lparr>inbox := c, ww_pump := p\<rparr>"
  have u: "cf_pump s = Unborn" "ch_buf (inbox s) = []" using assms(1,2) by (simp_all add: sys_inv_def threads_ok_def)
  then have f: "held_txs ?t = held_txs s" "table ?t = table s" "waiting ?t = waiting s"
    using assms(3) by (simp_all add: held_txs_def table_def waiting_def)
  have "exits_ok Q ?t" using assms(1) by (simp add: f sys_inv_def exits_ok_def owns_def)
  moreover have "threads_ok ?t" using assms(1,5) u by (auto simp: sys_inv_def threads_ok_def assms(3,4))
  moreover have "sentinels_ok ?t" using assms(1) by (simp add: sys_inv_def sentinels_ok_def)
  ultimately show ?thesis by (simp add: sys_inv_def)
qed

lemma regs_reset_inv:
  assumes "sys_inv Q s" "ww_iocp s = None" "ch_buf c = []" "ch_cap c = None" "\<forall>x. p = Some x \<longrightarrow> ch_receiver c \<and> io_thread x"
  shows "sys_inv Q (s\<lparr>regs := c, ww_iocp := p\<rparr>)"
proof -
  let ?t = "s\<lparr>regs := c, ww_iocp := p\<rparr>"
  have u: "cf_listener s = Unborn" "ch_buf (regs s) = []" using assms(1,2) by (simp_all add: sys_inv_def threads_ok_def)
  then have f: "held_txs ?t = held_txs s" "table ?t = table s" "waiting ?t = waiting s"
    using assms(3) by (simp_all add: held_txs_def table_def waiting_def)
  have "exits_ok Q ?t" using assms(1) by (simp add: f sys_inv_def exits_ok_def owns_def)
  moreover have "threads_ok ?t" using assms(1,5) u by (auto simp: sys_inv_def threads_ok_def assms(3,4))
  moreover have "sentinels_ok ?t" using assms(1) by (simp add: sys_inv_def sentinels_ok_def)
  ultimately show ?thesis by (simp add: sys_inv_def)
qed

lemma ensure_pump_run:
  assumes "run_state (ensure_pump os) s = (r, t)" "ww_pump s = None"
  obtains w cs c p where "t = s\<lparr>inbox := c, ww_pump := p, world := w, calls := cs\<rparr>" "ch_buf c = []" "ch_cap c = None"
    "\<forall>x. p = Some x \<longrightarrow> ch_receiver c \<and> po_thread x" "r = Inr () \<longrightarrow> p \<noteq> None"
proof -
  obtain e w where e: "w_spawn_thread os ''worrywart-debug-pump'' (world s) = (e, w)" by (metis surj_pair)
  note run = ensure_pump_def pump_start_def run_api State_Monad.get_def channel_def drop_sender_def drop_receiver_def
  show thesis
  proof (cases e)
    case None
    show ?thesis
      by (rule that [where c = channel and p = "Some \<lparr>po_thread = True\<rparr>" and w = w and
            cs = "calls s @ [SpawnThread ''worrywart-debug-pump'' None]"])
        (use assms e None in \<open>auto simp: run\<close>)
  next
    case (Some x)
    show ?thesis
      by (rule that [where c = "drop_sender (drop_receiver channel)" and p = None and w = w and
            cs = "calls s @ [SpawnThread ''worrywart-debug-pump'' (Some x)]"])
        (use assms e Some in \<open>auto simp: run\<close>)
  qed
qed

lemma ensure_pump_preserves:
  assumes "run_state (ensure_pump os) s = (r, t)"
  shows "preserves Q s t \<and> (r = Inr () \<longrightarrow> ww_pump t \<noteq> None)"
proof (cases "ww_pump s")
  case None
  obtain w cs c p where c: "t = s\<lparr>inbox := c, ww_pump := p, world := w, calls := cs\<rparr>" "ch_buf c = []" "ch_cap c = None"
    "\<forall>x. p = Some x \<longrightarrow> ch_receiver c \<and> po_thread x" "r = Inr () \<longrightarrow> p \<noteq> None" by (rule ensure_pump_run [OF assms None])
  have "sys_inv Q t" if "sys_inv Q s"
    using inbox_reset_inv [OF that None c(2,3,4)] by (simp add: c(1))
  then show ?thesis using c by (simp add: preserves_def)
next
  case (Some p)
  then show ?thesis using assms by (auto simp: ensure_pump_def State_Monad.get_def preserves.stays)
qed

lemma ensure_iocp_run:
  assumes "run_state (ensure_iocp os job) s = (r, t)" "ww_iocp s = None"
  obtains (fresh) w cs c p where "t = s\<lparr>regs := c, ww_iocp := p, world := w, calls := cs\<rparr>" "ch_buf c = []"
      "ch_cap c = None" "\<forall>x. p = Some x \<longrightarrow> ch_receiver c \<and> io_thread x" "r = Inr () \<longrightarrow> p \<noteq> None"
    | (failed) w cs where "t = s\<lparr>world := w, calls := cs\<rparr>" "r \<noteq> Inr ()"
proof -
  obtain p w1 where 1: "w_CreateIoCompletionPort os (world s) = (p, w1)" by (metis surj_pair)
  obtain b w2 where 2: "w_SetJobCompletionPort os job JOB_KEY p w1 = (b, w2)" by (metis surj_pair)
  obtain e w3 where 3: "w_spawn_thread os ''worrywart-iocp'' w2 = (e, w3)" by (metis surj_pair)
  obtain x w4 where 4: "w_CloseHandle os p w3 = (x, w4)" by (metis surj_pair)
  obtain x' w5 where 5: "w_CloseHandle os p w2 = (x', w5)" by (metis surj_pair)
  obtain g w6 where 6: "w_GetLastError os w5 = (g, w6)" by (metis surj_pair)
  obtain g' w7 where 7: "w_GetLastError os w1 = (g', w7)" by (metis surj_pair)
  note run = ensure_iocp_def iocp_start_def run_api State_Monad.get_def last_os_error_def close_handle_def
  have n: "drop_sender (drop_receiver channel) = \<lparr>ch_buf = [], ch_cap = None, ch_senders = 0, ch_receiver = False\<rparr>"
    "ch_buf channel = []" "ch_cap channel = None" "ch_receiver channel" by (simp_all add: drop_sender_def drop_receiver_def channel_def)
  consider (port) "p = 0" | (job) "p \<noteq> 0" "\<not> b" | (thread) y where "p \<noteq> 0" b "e = Some y" | (ok) "p \<noteq> 0" b "e = None"
    by (cases e) auto
  then show thesis
  proof cases
    case port
    show ?thesis by (rule failed [where w = w7 and cs = "calls s @ [CreateIoCompletionPort p, GetLastError g']"])
        (use assms 1 7 port in \<open>auto simp: run\<close>)
  next
    case job
    show ?thesis by (rule failed [where w = w6 and cs = "calls s @ [CreateIoCompletionPort p, SetJobCompletionPort job JOB_KEY p b,
          CloseHandle p x', GetLastError g]"]) (use assms 1 2 5 6 job in \<open>auto simp: run\<close>)
  next
    case thread
    show ?thesis
      by (rule fresh [where c = "drop_sender (drop_receiver channel)" and p = None and w = w4 and
            cs = "calls s @ [CreateIoCompletionPort p, SetJobCompletionPort job JOB_KEY p b,
              SpawnThread ''worrywart-iocp'' e, CloseHandle p x]"])
        (use assms 1 2 3 4 thread in \<open>auto simp: run n\<close>)
  next
    case ok
    show ?thesis
      by (rule fresh [where c = channel and p = "Some \<lparr>io_iocp_handle = p, io_thread = True\<rparr>" and w = w3 and
            cs = "calls s @ [CreateIoCompletionPort p, SetJobCompletionPort job JOB_KEY p b, SpawnThread ''worrywart-iocp'' e]"])
        (use assms 1 2 3 ok in \<open>auto simp: run n\<close>)
  qed
qed

lemma ensure_iocp_preserves:
  assumes "run_state (ensure_iocp os job) s = (r, t)"
  shows "preserves Q s t \<and> (r = Inr () \<longrightarrow> ww_iocp t \<noteq> None)"
proof (cases "ww_iocp s")
  case None
  from assms None show ?thesis
  proof (cases rule: ensure_iocp_run)
    case (fresh w cs c p)
    have "sys_inv Q t" if "sys_inv Q s"
      using regs_reset_inv [OF that None fresh(2,3,4)]
      by (simp add: fresh(1))
    then show ?thesis using fresh by (simp add: preserves_def)
  next
    case (failed w cs)
    then show ?thesis by (simp add: preserves_def)
  qed
next
  case (Some p)
  then show ?thesis using assms by (auto simp: ensure_iocp_def State_Monad.get_def preserves.stays)
qed

text \<open>A new exit channel: its sender is in the hands of the caller, then in a queue.\<close>

lemma new_exit_inv:
  assumes "sys_inv Q s" "run_state new_exit s = (i, t)"
  shows "sys_inv (add_mset i Q) t \<and> i < next_exit t \<and> next_exit s \<le> next_exit t \<and>
    next_sentinel t = next_sentinel s \<and> cf_children t = cf_children s \<and> ww_pump t = ww_pump s \<and> ww_iocp t = ww_iocp s"
proof -
  have i: "i = next_exit s" and t: "t = s\<lparr>exits := (exits s)(i := sync_channel 1), next_exit := i + 1\<rparr>"
    using assms(2) by (auto simp: new_exit_def)
  have h: "held_txs t = held_txs s" by (simp add: t held_txs_def table_def waiting_def)
  have o: "owns (held_txs s + Q) s" using assms(1) by (simp add: sys_inv_def exits_ok_def)
  have n: "i \<notin># held_txs s + Q" using o by (auto simp: owns_def i)
  then have z: "count (held_txs s + Q) i = 0" by (simp add: not_in_iff)
  have "owns (add_mset i (held_txs s + Q)) t"
    using o n z unfolding owns_def t i by (auto simp: less_Suc_eq)
  moreover have "\<forall>j<next_exit t. j \<in># held_txs s + add_mset i Q \<or> ch_senders (exits t j) = 0"
    using assms(1) by (auto simp: t sys_inv_def exits_ok_def i less_Suc_eq)
  ultimately have "exits_ok (add_mset i Q) t"
    using assms(1) h by (simp add: exits_ok_def sys_inv_def t table_def waiting_def)
  then have "sys_inv (add_mset i Q) t"
    using assms(1) by (simp add: sys_inv_def t threads_ok_def sentinels_ok_def)
  then show ?thesis by (simp add: t i)
qed


lemma drop_exit_sender_inv:
  assumes "sys_inv (add_mset i Q) s" "run_state (drop_exit_sender i) s = (u, t)"
  shows "sys_inv Q t"
proof -
  have t: "t = s\<lparr>exits := (exits s)(i := drop_sender (exits s i))\<rparr>"
    using assms(2) by (simp add: drop_exit_sender_def)
  have o: "owns (add_mset i (held_txs s + Q)) s" using assms(1) by (simp add: sys_inv_def exits_ok_def)
  have a: "accounts (add_mset i (held_txs s + Q)) (held_txs s + Q) s t"
    using accounts_drop_exit [of i _ s] assms(2) by (metis snd_conv)
  have h: "held_txs t = held_txs s" by (simp add: t held_txs_def table_def waiting_def)
  have "next_exit t = next_exit s" by (simp add: t)
  then have "owns (held_txs t + Q) t" using owns_accounts [OF a, of "{#}"] o unfolding h by simp
  moreover have "\<forall>j<next_exit t. j \<in># held_txs t + Q \<or> ch_senders (exits t j) = 0"
  proof (intro allI impI)
    fix j assume j: "j < next_exit t"
    have "oneshot_open (exits s i)" using o by (simp add: owns_def)
    then show "j \<in># held_txs t + Q \<or> ch_senders (exits t j) = 0"
      using assms(1) j unfolding h by (auto simp: t sys_inv_def exits_ok_def drop_sender_def oneshot_open_def)
  qed
  ultimately have "exits_ok Q t" using assms(1) by (simp add: exits_ok_def sys_inv_def t table_def waiting_def)
  then show ?thesis using assms(1) by (simp add: sys_inv_def t threads_ok_def sentinels_ok_def)
qed

text \<open>A sender that moves from the caller into a queue: the same senders are held.\<close>

lemma moved_inv:
  assumes "sys_inv (add_mset i Q) s" "held_txs t = add_mset i (held_txs s)"
    and "exits t = exits s" "next_exit t = next_exit s" "table t = table s" "waiting t = waiting s"
    and "threads_ok t" "sentinels_ok t"
  shows "sys_inv Q t"
  using assms by (simp add: sys_inv_def exits_ok_def owns_def)

lemma iocp_register_inv:
  assumes "sys_inv (add_mset i Q) s" "ww_iocp s \<noteq> None" "run_state (iocp_register p i) s = (u, t)"
  shows "sys_inv Q t \<and> next_exit t = next_exit s \<and> next_sentinel t = next_sentinel s \<and> cf_children t = cf_children s"
proof (cases "ch_receiver (regs s)")
  case False
  then have d: "run_state (drop_exit_sender i) s = (u, t)" using assms(3) by (simp add: iocp_register_def ch_send_def)
  then show ?thesis using drop_exit_sender_inv [OF assms(1) d] by (auto simp: drop_exit_sender_def)
next
  case True
  have th: "threads_ok s" using assms(1) by (simp add: sys_inv_def)
  have t: "t = s\<lparr>regs := (regs s)\<lparr>ch_buf := ch_buf (regs s) @ [Register p i]\<rparr>\<rparr>"
    using assms(3) True th by (simp add: iocp_register_def ch_send_def ch_full_def threads_ok_def)
  have "sys_inv Q t"
    by (rule moved_inv [OF assms(1)])
      (use th assms(1,2) True in \<open>auto simp: t held_txs_def table_def waiting_def threads_ok_def sys_inv_def sentinels_ok_def\<close>)
  then show ?thesis by (simp add: t)
qed

lemma queued_snoc:
  "queued_txs (ms @ [Spawn req resp]) = add_mset (rq_exit_tx req) (queued_txs ms)"
  "queued_responses (ms @ [Spawn req resp]) = add_mset resp (queued_responses ms)"
proof -
  show "queued_txs (ms @ [Spawn req resp]) = add_mset (rq_exit_tx req) (queued_txs ms)"
    by (induction ms rule: queued_txs.induct) simp_all
  show "queued_responses (ms @ [Spawn req resp]) = add_mset resp (queued_responses ms)"
    by (induction ms rule: queued_responses.induct) simp_all
qed

lemma spawn_child_request_inv:
  assumes "sys_inv (add_mset (rq_exit_tx req) Q) s" "ww_pump s \<noteq> None" "run_state (spawn_child_request req) s = (r, t)"
  shows "sys_inv Q t \<and> next_exit t = next_exit s \<and> next_sentinel t = next_sentinel s \<and> cf_children t = cf_children s"
proof -
  let ?i = "next_response s"
  let ?s = "s\<lparr>responses := (responses s)(?i := sync_channel 1), next_response := ?i + 1\<rparr>"
  have th: "threads_ok s" using assms(1) by (simp add: sys_inv_def)
  then have n: "?i \<notin># queued_responses (ch_buf (inbox s))" by (auto simp: threads_ok_def)
  have th': "threads_ok ?s" using th n by (auto simp: threads_ok_def less_Suc_eq)
  then have inv': "sys_inv (add_mset (rq_exit_tx req) Q) ?s" using assms(1)
    by (simp add: sys_inv_def exits_ok_def owns_def held_txs_def table_def waiting_def sentinels_ok_def)
  show ?thesis
  proof (cases "ch_receiver (inbox s)")
    case False
    obtain x v where d: "run_state (drop_exit_sender (rq_exit_tx req)) ?s = (x, v)" by (metis surj_pair)
    note i = drop_exit_sender_inv [OF inv' d]
    have v: "inbox v = inbox s" "next_exit v = next_exit s" "next_sentinel v = next_sentinel s" "cf_children v = cf_children s"
      using d by (auto simp: drop_exit_sender_def)
    have t: "t = v\<lparr>responses := (responses v)(?i := drop_sender (responses v ?i))\<rparr>"
      using assms(3) False d by (simp add: spawn_child_request_def new_response_def inbox_send_def ch_send_def drop_response_sender_def)
    have "sys_inv Q t" using i n
      by (auto simp: t sys_inv_def exits_ok_def owns_def held_txs_def table_def waiting_def sentinels_ok_def threads_ok_def v)
    then show ?thesis by (simp add: t v)
  next
    case True
    have t: "t = ?s\<lparr>inbox := (inbox s)\<lparr>ch_buf := ch_buf (inbox s) @ [Spawn req ?i]\<rparr>\<rparr>"
      using assms(3) True th by (simp add: spawn_child_request_def new_response_def inbox_send_def ch_send_def ch_full_def threads_ok_def)
    have z: "count (queued_responses (ch_buf (inbox s))) ?i = 0" using n by (simp add: not_in_iff)
    have "sys_inv Q t"
    proof (rule moved_inv [OF inv'])
      show "threads_ok t" using th' assms(2) True n z
        unfolding threads_ok_def t by (auto simp: queued_snoc)
      show "sentinels_ok t" using inv' by (simp add: t sys_inv_def sentinels_ok_def)
      show "held_txs t = add_mset (rq_exit_tx req) (held_txs ?s)" by (simp add: t held_txs_def table_def waiting_def queued_snoc)
    qed (simp_all add: t table_def waiting_def)
    then show ?thesis by (simp add: t)
  qed
qed


lemma spawn_child_inv:
  assumes "sys_inv (add_mset (rq_exit_tx req) Q) s" "ww_pump s \<noteq> None"
    and "run_state (spawn_child (pump_turns n os) req) s = (r, t)"
  shows "sys_inv Q t \<and> next_exit t = next_exit s \<and> next_sentinel t = next_sentinel s \<and> cf_children t = cf_children s"
proof -
  obtain q s1 where 1: "run_state (spawn_child_request req) s = (q, s1)" by (metis surj_pair)
  note i = spawn_child_request_inv [OF assms(1,2) 1]
  show ?thesis
  proof (cases q)
    case (Inl e)
    then show ?thesis using i 1 assms(3) by (simp add: spawn_child_def)
  next
    case (Inr resp)
    obtain u s2 where 2: "run_state (pump_turns n os) s1 = (u, s2)" by (metis surj_pair)
    obtain a s3 where 3: "run_state (recv_response resp) s2 = (a, s3)" by (metis surj_pair)
    have t: "t = s3" using assms(3) 1 2 3 Inr by (simp add: spawn_child_def)
    have p: "preserves Q s2 s3" by (rule along_run [OF preserves_receive(3) 3])
    have "next_exit s3 = next_exit s2 \<and> next_sentinel s3 = next_sentinel s2"
      using 3 by (auto simp: recv_response_def split: recv_outcome.splits)
    then show ?thesis using i p pump_turns_inv [OF conjunct1 [OF i] 2] by (simp add: t preserves_def)
  qed
qed

definition child_known :: "'w config \<Rightarrow> worrywart_child \<Rightarrow> bool" where
  "child_known s ch \<longleftrightarrow> (\<forall>i. wk_exit_rx ch = Some i \<longrightarrow> i < next_exit s) \<and>
     (\<forall>i. wk_sentinel_rx ch = Some i \<longrightarrow> i < next_sentinel s)"

text \<open>An operation that may also give the caller a child.\<close>

definition gives :: "nat multiset \<Rightarrow> 'w config \<Rightarrow> (io_error + worrywart_child) option \<Rightarrow> 'w config \<Rightarrow> bool" where
  "gives Q s r t \<longleftrightarrow> preserves Q s t \<and> (\<forall>ch. r = Some (Inr ch) \<longrightarrow> child_known t ch)"

lemma gives_none: "preserves Q s t \<Longrightarrow> \<nexists>ch. r = Some (Inr ch) \<Longrightarrow> gives Q s r t"
  by (simp add: gives_def)

lemma gives_after: "preserves Q s t \<Longrightarrow> gives Q t r u \<Longrightarrow> gives Q s r u"
  unfolding gives_def using preserves.goes_on by blast

lemma spawn_debug_gives:
  assumes inv: "sys_inv Q s" and "run_state (spawn_debug os (pump_turns n os) c) s = (r, t)"
  shows "gives Q s r t"
proof -
  obtain p s1 where 1: "run_state (ensure_pump os) s = (p, s1)" by (metis surj_pair)
  note pp = ensure_pump_preserves [OF 1, of Q]
  show ?thesis
  proof (cases p)
    case (Inl e)
    then show ?thesis using pp 1 assms(2) by (auto simp: spawn_debug_def gives_def)
  next
    case (Inr x)
    obtain env s2 where 2: "run_state (environment_block os c) s1 = (env, s2)" by (metis surj_pair)
    have p2: "preserves Q s1 s2" by (rule along_run [OF preserves_spawn_parts(1) 2])
    have pump: "ww_pump s2 \<noteq> None" using pp Inr environment_block_run [of os c s1] 2 by auto
    have i2: "sys_inv Q s2" using inv pp p2 by (simp add: preserves_def)
    obtain i s3 where 3: "run_state new_exit s2 = (i, s3)" by (metis surj_pair)
    note n = new_exit_inv [OF i2 3]
    let ?req = "\<lparr>rq_application_name = None, rq_command_line = build_command_line (wc_program c) (wc_args c),
           rq_environment = env, rq_current_directory = map_option to_wide_null (wc_current_dir c),
           rq_affinity_mask = wc_affinity_mask c, rq_exit_tx = i, rq_stdin_handle = INVALID_HANDLE_VALUE,
           rq_stdout_handle = INVALID_HANDLE_VALUE, rq_stderr_handle = INVALID_HANDLE_VALUE,
           rq_use_stdio_handles = False, rq_inherit_handles = monitor.Sentinel \<in> set (wc_monitors c),
           rq_job_handle = wc_job c\<rparr>"
    obtain a s4 where 4: "run_state (spawn_child (pump_turns n os) ?req) s3 = (a, s4)" by (metis surj_pair)
    have c: "sys_inv Q s4 \<and> next_exit s4 = next_exit s3 \<and> next_sentinel s4 = next_sentinel s3 \<and> cf_children s4 = cf_children s3"
      by (rule spawn_child_inv [OF _ _ 4]) (use n pump in simp_all)
    have p4: "preserves Q s s4" using pp p2 c n by (auto simp: preserves_def)
    have run: "run_state (spawn_debug os (pump_turns n os) c) s =
        (case a of None \<Rightarrow> (None, s4)
         | Some (Inl e) \<Rightarrow> (Some (Inl e), snd (run_state (drop_exit_receiver i) s4))
         | Some (Inr resp) \<Rightarrow> (Some (Inr \<lparr>wk_pid = sr_pid resp, wk_process_handle = sr_process_handle resp,
             wk_thread_handle = sr_thread_handle resp, wk_exit_rx = Some i, wk_cached_reason = None,
             wk_sentinel_rx = None\<rparr>), s4))"
      using 1 2 3 4 Inr by (simp add: spawn_debug_def drop_exit_receiver_def split: option.split sum.split)
    have d: "preserves Q s4 (snd (run_state (drop_exit_receiver i) s4))"
      by (rule along_run [OF preserves_receive(4)]) (rule prod.collapse [symmetric])
    show ?thesis
      using run assms(2) p4 preserves.goes_on [OF p4 d] n c
      by (auto simp: gives_def child_known_def split: option.splits sum.splits)
  qed
qed

lemma spawn_job_gives:
  assumes inv: "sys_inv Q s" and "run_state (spawn_job_monitored os c) s = (r, t)"
  shows "gives Q s (Some r) t"
proof -
  obtain env s1 where 1: "run_state (environment_block os c) s = (env, s1)" by (metis surj_pair)
  have p1: "preserves Q s s1" by (rule along_run [OF preserves_spawn_parts(1) 1])
  let ?p = "\<lparr>jp_application_name = None, jp_command_line = build_command_line (wc_program c) (wc_args c),
      jp_environment = env, jp_current_directory = map_option to_wide_null (wc_current_dir c),
      jp_job_handle = wc_job c, jp_inherit_handles = monitor.Sentinel \<in> set (wc_monitors c)\<rparr>"
  obtain q s2 where 2: "run_state (create_process_for_job os ?p) s1 = (q, s2)" by (metis surj_pair)
  have p2: "preserves Q s s2" by (rule preserves.goes_on [OF p1 along_run [OF preserves_spawn_parts(2) 2]])
  show ?thesis
  proof (cases q)
    case (Inl e)
    then show ?thesis using p2 1 2 assms(2) by (auto simp: spawn_job_monitored_def gives_def)
  next
    case (Inr pi)
    obtain x s3 where 3: "run_state (ensure_iocp os (wc_job c)) s2 = (x, s3)" by (metis surj_pair)
    note e = ensure_iocp_preserves [OF 3, of Q]
    have p3: "preserves Q s s3" using preserves.goes_on [OF p2] e by blast
    show ?thesis
    proof (cases x)
      case (Inl e)
      then show ?thesis using p3 1 2 3 Inr assms(2) by (auto simp: spawn_job_monitored_def gives_def)
    next
      case (Inr y)
      have i3: "sys_inv Q s3" using inv p3 by (simp add: preserves_def)
      obtain i s4 where 4: "run_state new_exit s3 = (i, s4)" by (metis surj_pair)
      note n = new_exit_inv [OF i3 4]
      obtain u s5 where 5: "run_state (iocp_register (dwProcessId pi) i) s4 = (u, s5)" by (metis surj_pair)
      have c: "sys_inv Q s5 \<and> next_exit s5 = next_exit s4 \<and> next_sentinel s5 = next_sentinel s4 \<and> cf_children s5 = cf_children s4"
        by (rule iocp_register_inv [OF _ _ 5]) (use n e Inr in simp_all)
      have p5: "preserves Q s s5" using p3 c n by (auto simp: preserves_def)
      have cl: "along (preserves Q) (if hThread pi \<noteq> null_handle \<and> hThread pi \<noteq> INVALID_HANDLE_VALUE
          then do { close_handle os (hThread pi); State_Monad.return () } else State_Monad.return ())"
        by (intro along_intros)
      obtain v s6 where 6: "run_state (if hThread pi \<noteq> null_handle \<and> hThread pi \<noteq> INVALID_HANDLE_VALUE
          then do { close_handle os (hThread pi); State_Monad.return () } else State_Monad.return ()) s5 = (v, s6)"
        by (metis surj_pair)
      have p6: "preserves Q s5 s6" by (rule along_run [OF cl 6])
      have r: "r = Inr \<lparr>wk_pid = dwProcessId pi, wk_process_handle = hProcess pi,
           wk_thread_handle = INVALID_HANDLE_VALUE, wk_exit_rx = Some i, wk_cached_reason = None, wk_sentinel_rx = None\<rparr>" "t = s6"
        using assms(2) 1 2 3 4 5 6 Inr \<open>q = Inr pi\<close> by (simp_all add: spawn_job_monitored_def split: if_splits)
      have "i < next_exit s6" using n c p6 by (simp add: preserves_def)
      then show ?thesis using preserves.goes_on [OF p5 p6] r by (simp add: gives_def child_known_def)
    qed
  qed
qed


text \<open>The sentinel of a spawn: a new channel, with the listener that owns its sender or, when that
  could not be started, with none.\<close>

lemma new_sentinel_inv:
  assumes "sys_inv Q s" "i = next_sentinel s"
    and "L = [] \<and> ch_senders c = 0 \<or> (\<exists>h. L = [(h, i)] \<and> oneshot_open c)"
  shows "sys_inv Q (s\<lparr>sentinels := (sentinels s)(i := c), next_sentinel := i + 1, listeners := listeners s @ L\<rparr>)"
proof -
  let ?t = "s\<lparr>sentinels := (sentinels s)(i := c), next_sentinel := i + 1, listeners := listeners s @ L\<rparr>"
  have se: "sentinels_ok s" using assms(1) by (simp add: sys_inv_def)
  then have fresh: "i \<notin> snd ` set (listeners s)" "i \<notin> cf_ended s"
    using assms(2) by (auto simp: sentinels_ok_def)
  have "sentinels_ok ?t"
    using assms(3)
  proof (elim disjE exE conjE)
    assume "L = []" "ch_senders c = 0"
    then show ?thesis using se fresh assms(2) by (auto simp: sentinels_ok_def less_Suc_eq)
  next
    fix h assume "L = [(h, i)]" "oneshot_open c"
    then show ?thesis using se fresh assms(2) by (auto simp: sentinels_ok_def less_Suc_eq)
  qed
  then show ?thesis using assms(1)
    by (simp add: sys_inv_def exits_ok_def owns_def held_txs_def table_def waiting_def threads_ok_def)
qed

lemma create_run:
  assumes "run_state (create os) s = (r, t)"
  obtains (early) w cs where "t = s\<lparr>world := w, calls := cs\<rparr>" "\<nexists>p. r = Inr p"
    | (channel) w cs L c where "t = s\<lparr>sentinels := (sentinels s)(next_sentinel s := c), next_sentinel := next_sentinel s + 1,
          listeners := listeners s @ L, world := w, calls := cs\<rparr>"
        "L = [] \<and> ch_senders c = 0 \<or> (\<exists>h. L = [(h, next_sentinel s)] \<and> oneshot_open c)"
        "\<forall>p. r = Inr p \<longrightarrow> sp_sentinel_rx p = next_sentinel s"
proof -
  obtain a w1 where 1: "w_CreatePipe os True (world s) = (a, w1)" by (metis surj_pair)
  show thesis
  proof (cases a)
    case None
    obtain g w2 where g: "w_GetLastError os w1 = (g, w2)" by (metis surj_pair)
    show thesis
      by (rule early [where w = w2 and cs = "calls s @ [CreatePipe True None, GetLastError g]"])
        (use assms 1 g None in \<open>auto simp: create_def run_api last_os_error_def\<close>)
  next
    case (Some rw)
    obtain rd wr where rw: "rw = (rd, wr)" by (cases rw)
    obtain b w2 where 2: "w_SetHandleInformation os rd HANDLE_FLAG_INHERIT 0 w1 = (b, w2)" by (metis surj_pair)
    obtain g w3 where g: "w_GetLastError os w2 = (g, w3)" by (metis surj_pair)
    obtain u w4 where u: "w_CloseHandle os rd w3 = (u, w4)" by (metis surj_pair)
    obtain v w5 where v: "w_CloseHandle os wr w4 = (v, w5)" by (metis surj_pair)
    obtain e w6 where e: "w_spawn_thread os ''worrywart-sentinel'' w2 = (e, w6)" by (metis surj_pair)
    obtain x w7 where x: "w_CloseHandle os rd w6 = (x, w7)" by (metis surj_pair)
    obtain y w8 where y: "w_CloseHandle os wr w7 = (y, w8)" by (metis surj_pair)
    let ?cs = "calls s @ [CreatePipe True (Some (rd, wr)), SetHandleInformation rd HANDLE_FLAG_INHERIT 0 b]"
    note run = create_def run_api close_handle_def new_sentinel_def start_listener_def drop_sentinel_sender_def
      drop_sentinel_receiver_def
    consider (inherit) "\<not> b" | (failed) z where b "e = Some z" | (started) b "e = None" by (cases e) auto
    then show thesis
    proof cases
      case inherit
      show thesis
        by (rule early [where w = w5 and cs = "?cs @ [GetLastError g, CloseHandle rd u, CloseHandle wr v]"])
          (use assms 1 2 g u v Some rw inherit in \<open>auto simp: run\<close>)
    next
      case (failed z)
      show thesis
        by (rule channel [where c = "drop_receiver (drop_sender (sync_channel 1))" and L = "[]" and w = w8 and
              cs = "?cs @ [SpawnThread ''worrywart-sentinel'' e, CloseHandle rd x, CloseHandle wr y]"])
          (use assms 1 2 e x y Some rw failed in \<open>auto simp: run\<close>,
            auto simp: drop_receiver_def drop_sender_def sync_channel_def)
    next
      case started
      show thesis
        by (rule channel [where c = "sync_channel 1" and L = "[(rd, next_sentinel s)]" and w = w6 and
              cs = "?cs @ [SpawnThread ''worrywart-sentinel'' e]"])
          (use assms 1 2 e Some rw started in \<open>auto simp: run\<close>)
    qed
  qed
qed

lemma create_preserves:
  assumes "run_state (create os) s = (r, t)"
  shows "preserves Q s t \<and> (\<forall>p. r = Inr p \<longrightarrow> sp_sentinel_rx p < next_sentinel t)"
  using assms
proof (cases rule: create_run)
  case (early w cs)
  then show ?thesis by (auto simp: preserves_def)
next
  case (channel w cs L c)
  have "sys_inv Q t" if "sys_inv Q s"
    using new_sentinel_inv [OF that refl channel(2)] by (simp add: channel(1))
  then show ?thesis using channel(1,3) by (auto simp: preserves_def)
qed

text \<open>The whole of \<open>spawn\<close>.\<close>

lemma spawn_path_gives:
  assumes "sys_inv Q s" "run_state (spawn_path os (pump_turns n os) c) s = (r, t)"
  shows "gives Q s r t"
proof (cases "DebugApi \<in> set (wc_monitors c)")
  case True
  then show ?thesis using spawn_debug_gives [OF assms(1)] assms(2) by (simp add: spawn_path_def)
next
  case nd: False
  show ?thesis
  proof (cases "JobObject \<in> set (wc_monitors c) \<or> monitor.Sentinel \<in> set (wc_monitors c)")
    case True
    obtain x u where x: "run_state (spawn_job_monitored os c) s = (x, u)" by (metis surj_pair)
    have "r = Some x" "t = u" using assms(2) nd True x by (auto simp: spawn_path_def)
    then show ?thesis using spawn_job_gives [OF assms(1) x] by simp
  next
    case False
    obtain x u where x: "run_state (spawn_plain os c) s = (x, u)" by (metis surj_pair)
    have r: "r = Some x" "t = u" using assms(2) nd False x by (auto simp: spawn_path_def)
    have "along (preserves Q) (spawn_plain os c)" unfolding spawn_plain_def by (intro along_intros)
    then have "preserves Q s u" using x by (rule along_run)
    moreover have "child_known u ch" if "x = Inr ch" for ch
      using x that by (auto simp: spawn_plain_def run_api from_std_def child_known_def split: prod.splits sum.splits)
    ultimately show ?thesis by (simp add: gives_def r)
  qed
qed

lemma finish_sentinel_gives:
  assumes "run_state (finish_sentinel os pipe ch) s = (r, t)" "child_known s ch" "sp_sentinel_rx pipe < next_sentinel s"
  shows "gives Q s (Some r) t"
proof -
  have "along (preserves Q) (finish_sentinel os pipe ch)"
    unfolding finish_sentinel_def Let_def by (auto intro!: along_intros preserves_child(3) split: option.split)
  then have p: "preserves Q s t" using assms(1) by (rule along_run)
  have "child_known t ch'" if "r = Inr ch'" for ch'
  proof -
    have "ch' = ch\<lparr>wk_sentinel_rx := Some (sp_sentinel_rx pipe)\<rparr>"
      using assms(1) that
      by (auto simp: finish_sentinel_def close_handle_def run_api last_os_error_def split: prod.splits if_splits)
    then show ?thesis using assms(2,3) p by (auto simp: child_known_def preserves_def)
  qed
  then show ?thesis using p by (simp add: gives_def)
qed

lemma spawn_gives:
  assumes "sys_inv Q s" "run_state (spawn os (pump_turns n os) c) s = (r, t)"
  shows "gives Q s r t"
proof (cases "monitor.Sentinel \<in> set (wc_monitors c)")
  case False
  then show ?thesis using spawn_path_gives [OF assms(1)] assms(2) by (simp add: spawn_def)
next
  case True
  obtain p s1 where 1: "run_state (create os) s = (p, s1)" by (metis surj_pair)
  note c = create_preserves [OF 1, of Q]
  show ?thesis
  proof (cases p)
    case (Inl e)
    then show ?thesis using assms(2) True 1 c by (auto simp: spawn_def gives_def)
  next
    case (Inr pipe)
    obtain a s2 where 2: "run_state (spawn_path os (pump_turns n os) (with_sentinel_env pipe c)) s1 = (a, s2)"
      by (metis surj_pair)
    have "sys_inv Q s1" using c assms(1) by (simp add: preserves_def)
    note g = spawn_path_gives [OF this 2]
    then have p2: "preserves Q s s2" using c preserves.goes_on unfolding gives_def by blast
    show ?thesis
    proof (cases "\<exists>ch. a = Some (Inr ch)")
      case got: True
      then obtain ch where ch: "a = Some (Inr ch)" by blast
      obtain x s3 where 3: "run_state (finish_sentinel os pipe ch) s2 = (x, s3)" by (metis surj_pair)
      have "sp_sentinel_rx pipe < next_sentinel s2" using c g Inr by (auto simp: gives_def preserves_def)
      then have "gives Q s2 (Some x) s3" using g ch by (intro finish_sentinel_gives [OF 3]) (auto simp: gives_def)
      moreover have "r = Some x" "t = s3" using assms(2) True 1 2 3 Inr ch by (auto simp: spawn_def)
      ultimately show ?thesis using gives_after [OF p2] by simp
    next
      case False
      have d: "preserves Q s2 (snd (run_state (drop_sentinel_receiver (sp_sentinel_rx pipe)) s2))"
        by (rule along_run [OF preserves_receive(5)]) (rule prod.collapse [symmetric])
      show ?thesis using assms(2) True 1 2 Inr False p2 preserves.goes_on [OF p2 d]
        by (auto simp: spawn_def gives_def drop_sentinel_receiver_def split: option.splits sum.splits)
    qed
  qed
qed

end
