(* ===== verification/Safety.thy ===== *)
theory Safety
  imports Callers
begin

text \<open>
  Every reachable configuration of the threads (\<open>System\<close>) satisfies the invariant, and what
  this means for a caller of \<open>wait_diagnosed\<close>: it can only wait for a thread that is still alive and
  still holds the one sender of the channel.
\<close>

section \<open>The end of a \<open>Worrywart\<close>\<close>

lemma queued_shutdown:
  "queued_txs (ms @ [Shutdown]) = queued_txs ms" "queued_responses (ms @ [Shutdown]) = queued_responses ms"
proof -
  show "queued_txs (ms @ [Shutdown]) = queued_txs ms" by (induction ms rule: queued_txs.induct) simp_all
  show "queued_responses (ms @ [Shutdown]) = queued_responses ms"
    by (induction ms rule: queued_responses.induct) simp_all
qed

lemma send_shutdown_inv:
  assumes "sys_inv Q s" "ww_pump s \<noteq> None" "run_state (inbox_send Shutdown) s = (b, t)"
  shows "sys_inv Q t \<and> next_exit t = next_exit s \<and> next_sentinel t = next_sentinel s \<and> cf_children t = cf_children s"
proof (cases "ch_receiver (inbox s)")
  case False
  then show ?thesis using assms by (simp add: inbox_send_def ch_send_def)
next
  case True
  have th: "threads_ok s" using assms(1) by (simp add: sys_inv_def)
  have t: "t = s\<lparr>inbox := (inbox s)\<lparr>ch_buf := ch_buf (inbox s) @ [Shutdown]\<rparr>\<rparr>"
    using assms(3) True th by (simp add: inbox_send_def ch_send_def ch_full_def threads_ok_def)
  have f: "held_txs t = held_txs s" "table t = table s" "waiting t = waiting s"
    by (simp_all add: t held_txs_def table_def waiting_def queued_shutdown)
  have "exits_ok Q t" using assms(1) f by (simp add: sys_inv_def exits_ok_def owns_def t)
  moreover have "threads_ok t" using th assms(2) True unfolding threads_ok_def t by (auto simp: queued_shutdown)
  moreover have "sentinels_ok t" using assms(1) by (simp add: sys_inv_def sentinels_ok_def t)
  ultimately show ?thesis by (simp add: sys_inv_def t)
qed

lemma listener_turns_inv:
  assumes "sys_inv Q s" "run_state (listener_turns n os) s = (u, t)"
  shows "sys_inv Q t \<and> next_exit t = next_exit s \<and> next_sentinel t = next_sentinel s \<and> cf_children t = cf_children s \<and>
    cf_pump t = cf_pump s \<and> ww_pump t = ww_pump s \<and> ww_iocp t = ww_iocp s"
  using assms
proof (induction n arbitrary: s)
  case (Suc n)
  show ?case
  proof (cases "listener_turn os s")
    case None
    then show ?thesis using Suc by simp
  next
    case (Some s1)
    note l = listener_turn_inv [OF Suc.prems(1) Some]
    have "run_state (listener_turns n os) s1 = (u, t)" using Suc.prems(2) Some by simp
    from Suc.IH [OF conjunct1 [OF l] this] l show ?thesis by simp
  qed
qed simp

text \<open>The joined thread has dropped everything it held, so that the cells can be emptied.\<close>

lemma forget_pump:
  assumes "sys_inv Q s" "cf_pump s = Gone"
  shows "sys_inv Q (s\<lparr>inbox := drop_sender (inbox s), ww_pump := None, cf_pump := Unborn\<rparr>)"
  using assms
  by (auto simp: sys_inv_def exits_ok_def threads_ok_def sentinels_ok_def held_txs_def table_def waiting_def owns_def
      drop_sender_def)

lemma forget_iocp:
  assumes "sys_inv Q s" "cf_listener s = Gone"
  shows "sys_inv Q (s\<lparr>regs := drop_sender (regs s), ww_iocp := None, cf_listener := Unborn\<rparr>)"
  using assms
  by (auto simp: sys_inv_def exits_ok_def threads_ok_def sentinels_ok_def held_txs_def table_def waiting_def owns_def
      drop_sender_def)

section \<open>Reachable configurations\<close>

definition system_ok :: "'w config \<Rightarrow> bool" where
  "system_ok s \<longleftrightarrow> sys_inv {#} s \<and> (\<forall>ch\<in>set (cf_children s). child_known s ch)"

lemma sys_inv_children [simp]: "sys_inv Q (s\<lparr>cf_children := cs\<rparr>) = sys_inv Q s"
  by (simp add: sys_inv_def exits_ok_def threads_ok_def sentinels_ok_def held_txs_def table_def waiting_def owns_def)

lemma child_known_grows:
  "child_known s ch \<Longrightarrow> next_exit s \<le> next_exit t \<Longrightarrow> next_sentinel s \<le> next_sentinel t \<Longrightarrow> child_known t ch"
  by (auto simp: child_known_def)

lemma system_ok_children:
  assumes "system_ok s" "preserves {#} s t"
    and "\<forall>ch\<in>set cs. ch \<in> set (cf_children s) \<or> child_known t ch"
  shows "system_ok (t\<lparr>cf_children := cs\<rparr>)"
proof -
  have "child_known t ch" if "ch \<in> set cs" for ch
    using assms that child_known_grows [of s ch t] by (auto simp: system_ok_def preserves_def)
  then show ?thesis using assms(1,2) by (auto simp: system_ok_def preserves_def child_known_def)
qed

lemma system_ok_same: "system_ok s \<Longrightarrow> preserves {#} s t \<Longrightarrow> system_ok t"
  using child_known_grows by (auto simp: system_ok_def preserves_def)

lemma wait_diagnosed_child:
  assumes "run_state (wait_diagnosed os ch) s = (Some (r, ch'), t)"
  shows "wk_exit_rx ch' = wk_exit_rx ch \<and> (wk_sentinel_rx ch' = wk_sentinel_rx ch \<or> wk_sentinel_rx ch' = None)"
  using assms
  by (auto simp: wait_diagnosed_def Let_def split: option.splits prod.splits sum.splits arrival.splits)

lemma step_ok:
  assumes "step os s t" "system_ok s"
  shows "system_ok t"
proof -
  have inv: "sys_inv {#} s" using assms(2) by (simp add: system_ok_def)
  from assms(1) show ?thesis
  proof cases
    case Pump_Turn
    have "preserves {#} s t" using pump_turn_inv [OF inv Pump_Turn] by (simp add: preserves_def)
    then show ?thesis by (rule system_ok_same [OF assms(2)])
  next
    case Listener_Turn
    have "preserves {#} s t" using listener_turn_inv [OF inv Listener_Turn] by (simp add: preserves_def)
    then show ?thesis by (rule system_ok_same [OF assms(2)])
  next
    case (Sentinel_Thread h i u)
    note e = sentinel_end_inv [OF inv Sentinel_Thread(2-4)]
    have "preserves {#} s t" using e Sentinel_Thread(1) by (simp add: preserves_def)
    then show ?thesis by (rule system_ok_same [OF assms(2)])
  next
    case (Spawn_Child n c ch u)
    note g = spawn_gives [OF inv Spawn_Child(2)]
    show ?thesis unfolding Spawn_Child(1)
      by (rule system_ok_children [OF assms(2)]) (use g in \<open>auto simp: gives_def\<close>)
  next
    case (Spawn_Fails n c e)
    then show ?thesis using spawn_gives [OF inv Spawn_Fails] assms(2) system_ok_same by (auto simp: gives_def)
  next
    case (Wait j r ch u)
    have p: "preserves {#} s u" by (rule along_run [OF preserves_child(1) Wait(3)])
    have "child_known s (cf_children s ! j)" using assms(2) Wait(2) by (simp add: system_ok_def)
    then have "child_known u (cf_children s ! j)" using child_known_grows p by (auto simp: preserves_def)
    then have "child_known u ch" using wait_diagnosed_child [OF Wait(3)]
      unfolding child_known_def by (metis option.distinct(1))
    then show ?thesis unfolding Wait(1)
      by (intro system_ok_children [OF assms(2) p] ballI) (auto dest: set_update_subset_insert [THEN subsetD])
  next
    case (Kill j r)
    then show ?thesis using along_run [OF preserves_child(2)] assms(2) system_ok_same by blast
  next
    case (Drop j ch u)
    have p: "preserves {#} s u" by (rule along_run [OF preserves_child(4) Drop(4)])
    show ?thesis unfolding Drop(1)
      by (rule system_ok_children [OF assms(2) p]) (auto dest: in_set_takeD in_set_dropD)
  next
    case (Drop_Pump p n u)
    obtain b s1 where 1: "run_state (inbox_send Shutdown) s = (b, s1)" by (metis surj_pair)
    note i1 = send_shutdown_inv [OF inv _ 1]
    obtain x s2 where 2: "run_state (if po_thread p then pump_turns n os else State_Monad.return ()) s1 = (x, s2)"
      by (metis surj_pair)
    have i2: "sys_inv {#} s2 \<and> next_exit s2 = next_exit s \<and> next_sentinel s2 = next_sentinel s \<and> cf_children s2 = cf_children s"
      using i1 Drop_Pump(2) 2 pump_turns_inv [of "{#}" s1 n os x s2] by (auto split: if_splits)
    have u: "u = s2\<lparr>inbox := drop_sender (inbox s2)\<rparr>" using Drop_Pump(3) 1 2 by (simp add: pump_drop_def)
    then have "preserves {#} s t" using i2 forget_pump [of "{#}" s2] Drop_Pump(1,4) by (simp add: preserves_def)
    then show ?thesis by (rule system_ok_same [OF assms(2)])
  next
    case (Drop_Iocp p n u)
    obtain b w where b: "w_PostQueuedCompletionStatus os (io_iocp_handle p) 0 SHUTDOWN_KEY 0 (world s) = (b, w)"
      by (metis surj_pair)
    let ?s1 = "s\<lparr>world := w, calls := calls s @ [PostQueuedCompletionStatus (io_iocp_handle p) 0 SHUTDOWN_KEY 0 b]\<rparr>"
    obtain x s2 where 2: "run_state (if io_thread p then listener_turns n os else State_Monad.return ()) ?s1 = (x, s2)"
      by (metis surj_pair)
    have i2: "sys_inv {#} s2 \<and> next_exit s2 = next_exit s \<and> next_sentinel s2 = next_sentinel s \<and> cf_children s2 = cf_children s"
      using inv 2 listener_turns_inv [of "{#}" ?s1 n os x s2] by (auto split: if_splits)
    have u: "u = s2\<lparr>regs := drop_sender (regs s2)\<rparr>" using Drop_Iocp(3) b 2 by (simp add: iocp_drop_def run_api)
    then have "preserves {#} s t" using i2 forget_iocp [of "{#}" s2] Drop_Iocp(1,4) by (simp add: preserves_def)
    then show ?thesis by (rule system_ok_same [OF assms(2)])
  qed
qed

lemma reachable_ok:
  assumes "reachable os s"
  shows "system_ok s"
proof -
  obtain w where "(step os)\<^sup>*\<^sup>* (init_config w) s" using assms by blast
  then show ?thesis
  proof (induction rule: rtranclp_induct)
    case base
    have "cf_children (init_config w) = []" by (simp add: init_config_def ww_sys.defs)
    then show ?case using init_inv by (simp add: system_ok_def)
  next
    case (step y z)
    then show ?case using step_ok by blast
  qed
qed


section \<open>What a caller can wait for\<close>

lemma wait_diagnosed_waits:
  assumes "fst (run_state (wait_diagnosed os ch) s) = None"
  shows "(\<exists>i. wk_exit_rx ch = Some i \<and> ch_senders (exits s i) \<noteq> 0) \<or>
    (\<exists>i. wk_sentinel_rx ch = Some i \<and> ch_senders (sentinels s i) \<noteq> 0)"
proof -
  have plain: "sentinels (snd (run_state (wait_plain os ch) u)) = sentinels u" for u :: "('a, 'b) sys_scheme"
    using wait_plain_run [of os ch u] by (cases "run_state (wait_plain os ch) u") (auto simp: plain_wait_def)
  have refine: "\<exists>i. rx = Some i \<and> ch_senders (sentinels u i) \<noteq> 0"
    if "fst (run_state (refine_with_sentinel r rx) u) = None" for r rx and u :: "('a, 'b) sys_scheme"
    using that
    by (auto simp: refine_with_sentinel_def recv_sentinel_def drop_sentinel_receiver_def ch_recv_def Let_def
        split: option.splits recv_outcome.splits list.splits if_splits)
  show ?thesis
  proof (cases "wk_cached_reason ch")
    case (Some r)
    then show ?thesis using assms by (simp add: wait_diagnosed_def Let_def)
  next
    case None
    show ?thesis
    proof (cases "\<exists>i. wk_exit_rx ch = Some i \<and> ch_senders (exits s i) \<noteq> 0")
      case False
      obtain raw u where u: "run_state (case wk_exit_rx ch of
          Some rx \<Rightarrow> do {
            m \<leftarrow> recv_exit rx;
            case m of
              Got result \<Rightarrow> State_Monad.return (Some result)
            | Hung_Up \<Rightarrow> do { r \<leftarrow> wait_plain os ch; State_Monad.return (Some r) }
            | Waits \<Rightarrow> State_Monad.return None
          }
        | None \<Rightarrow> do { r \<leftarrow> wait_plain os ch; State_Monad.return (Some r) }) s = (raw, u)" by (metis surj_pair)
      have raw: "raw \<noteq> None \<and> sentinels u = sentinels s"
        using u False plain [of s]
        by (auto simp: recv_exit_def ch_recv_def split: option.splits list.splits if_splits prod.splits)
      then obtain e r where "raw = Some (Inl e) \<or> raw = Some (Inr r)" by (metis option.exhaust sum.exhaust)
      then have "fst (run_state (refine_with_sentinel r (wk_sentinel_rx ch)) u) = None"
        using assms None u by (auto simp: wait_diagnosed_def split: prod.splits option.splits)
      from refine [OF this] raw show ?thesis by simp
    qed blast
  qed
qed

text \<open>Who can still answer: the pump for its table and queue, the listener for its waiters and its
  registrations, a sentinel thread for its pipe.\<close>

definition pump_answers :: "'w config \<Rightarrow> nat \<Rightarrow> bool" where
  "pump_answers s i \<longleftrightarrow> ww_pump s \<noteq> None \<and> cf_pump s \<noteq> Gone \<and> i \<in># pump_txs (table s) s"

definition listener_answers :: "'w config \<Rightarrow> nat \<Rightarrow> bool" where
  "listener_answers s i \<longleftrightarrow> ww_iocp s \<noteq> None \<and> cf_listener s \<noteq> Gone \<and> i \<in># qtx (ch_buf (regs s)) + wtx (waiting s)"

definition sentinel_answers :: "'w config \<Rightarrow> nat \<Rightarrow> bool" where
  "sentinel_answers s i \<longleftrightarrow> i \<notin> cf_ended s \<and> i \<in> snd ` set (listeners s)"

lemma held_answers:
  assumes "sys_inv {#} s" "i \<in># held_txs s"
  shows "pump_answers s i \<noteq> listener_answers s i"
proof -
  let ?P = "pump_txs (table s) s" and ?L = "qtx (ch_buf (regs s)) + wtx (waiting s)"
  have th: "threads_ok s" using assms(1) by (simp add: sys_inv_def)
  have "count ?P i + count ?L i \<le> 1"
    using assms(1) by (simp add: sys_inv_def exits_ok_def owns_def held_txs_def ac_simps)
  moreover have "0 < count ?P i + count ?L i"
    using assms(2) by (metis count_greater_zero_iff count_union held_txs_def add.assoc)
  ultimately have one: "i \<in># ?P \<longleftrightarrow> i \<notin># ?L" unfolding count_greater_zero_iff [symmetric] by linarith
  have "i \<in># ?P \<Longrightarrow> ww_pump s \<noteq> None \<and> cf_pump s \<noteq> Gone"
    using th by (auto simp: threads_ok_def table_def)
  moreover have "i \<in># ?L \<Longrightarrow> ww_iocp s \<noteq> None \<and> cf_listener s \<noteq> Gone"
    using th by (auto simp: threads_ok_def waiting_def)
  ultimately show ?thesis using one unfolding pump_answers_def listener_answers_def by blast
qed

text \<open>C3 (no lost waiter): whatever the API answers and however the operations of callers and the turns of
  the threads interleave, a call of wait_diagnosed that has to wait waits for a live thread that
  still holds the sender: the pump or else the listener, never both, for the exit channel, or the
  sentinel thread of its own pipe.\<close>

theorem wait_has_a_live_sender:
  assumes "reachable os s" "ch \<in> set (cf_children s)"
    and "fst (run_state (wait_diagnosed os ch) s) = None"
  shows "(\<exists>i. wk_exit_rx ch = Some i \<and> pump_answers s i \<noteq> listener_answers s i) \<or>
    (\<exists>i. wk_sentinel_rx ch = Some i \<and> sentinel_answers s i)"
proof -
  have ok: "sys_inv {#} s" "child_known s ch" using reachable_ok [OF assms(1)] assms(2) by (auto simp: system_ok_def)
  from wait_diagnosed_waits [OF assms(3)] show ?thesis
  proof (elim disjE exE conjE)
    fix i assume i: "wk_exit_rx ch = Some i" "ch_senders (exits s i) \<noteq> 0"
    then have "i \<in># held_txs s" using ok by (auto simp: sys_inv_def exits_ok_def child_known_def)
    from held_answers [OF ok(1) this] i(1) show ?thesis by blast
  next
    fix i assume i: "wk_sentinel_rx ch = Some i" "ch_senders (sentinels s i) \<noteq> 0"
    then have "sentinel_answers s i"
      using ok by (auto simp: sys_inv_def sentinels_ok_def child_known_def sentinel_answers_def)
    with i(1) show ?thesis by blast
  qed
qed

text \<open>C7 (senders of the whole system): in every reachable configuration no thread has blocked in a send, the
  senders in the pump's table and queue and in the listener's map and queue are those of distinct
  channels on which nothing was sent yet, and every other exit channel ever made has hung up.\<close>

theorem system_senders:
  assumes "reachable os s"
  shows "\<not> stuck s \<and> (\<forall>i. count (held_txs s) i \<le> 1) \<and>
    (\<forall>i<next_exit s. if i \<in># held_txs s then oneshot_open (exits s i) else ch_senders (exits s i) = 0)"
  using reachable_ok [OF assms]
  by (auto simp: system_ok_def sys_inv_def exits_ok_def owns_def threads_ok_def)

section \<open>A run\<close>

definition job_config :: "nat config" where
  "job_config = (let (r, t) = run_state (spawn spawn_os (pump_turns 0 spawn_os) (example_command [JobObject])) (init_config 1)
     in case r of Some (Inr ch) \<Rightarrow> t\<lparr>cf_children := [ch]\<rparr> | _ \<Rightarrow> t)"

lemma job_config_run:
  "\<exists>ch t. run_state (spawn spawn_os (pump_turns 0 spawn_os) (example_command [JobObject])) (init_config 1) = (Some (Inr ch), t) \<and>
     job_config = t\<lparr>cf_children := [ch]\<rparr> \<and> wk_exit_rx ch = Some 0 \<and> wk_cached_reason ch = None \<and>
     wk_sentinel_rx ch = None \<and> exits t = (exits (init_config (1::nat)))(0 := sync_channel 1) \<and> ch_buf (regs t) = [Register (wk_pid ch) 0]"
  by (simp add: job_config_def spawn_eval init_config_def ww_sys.defs)


lemma job_config_reachable: "reachable spawn_os job_config"
proof -
  obtain ch t where c: "run_state (spawn spawn_os (pump_turns 0 spawn_os) (example_command [JobObject])) (init_config 1) = (Some (Inr ch), t)"
    "job_config = t\<lparr>cf_children := [ch]\<rparr>" using job_config_run by blast
  have "cf_children (init_config (1::nat)) = []" by (simp add: init_config_def ww_sys.defs)
  then have "step spawn_os (init_config 1) job_config" using step.Spawn_Child [OF c(1)] c(2) by simp
  then show ?thesis by blast
qed

lemma job_config_waits:
  "\<exists>ch\<in>set (cf_children job_config). wk_exit_rx ch = Some 0 \<and> wk_sentinel_rx ch = None \<and>
     fst (run_state (wait_diagnosed spawn_os ch) job_config) = None"
proof -
  obtain ch t where c: "job_config = t\<lparr>cf_children := [ch]\<rparr>" "wk_exit_rx ch = Some 0" "wk_cached_reason ch = None"
    "wk_sentinel_rx ch = None" "exits t = (exits (init_config (1::nat)))(0 := sync_channel 1)"
    using job_config_run by blast
  have "oneshot_open (exits job_config 0)" unfolding c(1) using c(5) by simp
  then have "fst (run_state (wait_diagnosed spawn_os ch) job_config) = None"
    using c(2-4) by (simp add: wait_diagnosed_def recv_exit_def oneshot_recv_open)
  moreover have "ch \<in> set (cf_children job_config)" unfolding c(1) by simp
  ultimately show ?thesis using c(2,4) by blast
qed

theorem wait_has_a_live_sender_witness:
  "pump_answers job_config 0 \<noteq> listener_answers job_config 0"
proof -
  obtain ch where ch: "ch \<in> set (cf_children job_config)" "wk_exit_rx ch = Some 0" "wk_sentinel_rx ch = None"
    "fst (run_state (wait_diagnosed spawn_os ch) job_config) = None" using job_config_waits by blast
  from wait_has_a_live_sender [OF job_config_reachable ch(1,4)] ch(2,3) show ?thesis by simp
qed

theorem system_senders_witness: "\<not> stuck job_config \<and> (\<forall>i. count (held_txs job_config) i \<le> 1)"
  using system_senders [OF job_config_reachable] by blast

end
