(* ===== verification/Handles.thy ===== *)
theory Handles
  imports Safety
begin

text \<open>
  Who owns which handle in the whole system, and that nobody closes a handle of somebody else. The
  owners are the children the caller has, the answers of the pump on their way to the caller, the
  running sentinel threads (their read ends) and the listener (its port). \<open>slack\<close> is what the process
  holds beyond them, by the ledger; no operation and no turn lowers it.
\<close>

section \<open>Answers on their way\<close>

fun answer_handles :: "io_error + spawn_response \<Rightarrow> handle list" where
  "answer_handles (Inl e) = []"
| "answer_handles (Inr resp) = [sr_process_handle resp, sr_thread_handle resp]"

abbreviation cell_handles :: "(io_error + spawn_response) chan \<Rightarrow> handle list" where
  "cell_handles c \<equiv> concat (map answer_handles (ch_buf c))"

definition answered :: "('w, 'z) sys_scheme \<Rightarrow> handle \<Rightarrow> int" where
  "answered s h = (\<Sum>i<next_response s. owned (cell_handles (responses s i)) h)"

lemma owned_nonneg [simp]: "0 \<le> owned hs h"
  by (simp add: owned_def)

lemma answered_nonneg: "0 \<le> answered s h"
  unfolding answered_def by (intro sum_nonneg) simp

lemma answered_same: "responses t = responses s \<Longrightarrow> next_response t = next_response s \<Longrightarrow> answered t h = answered s h"
  by (simp add: answered_def)

lemma answered_update:
  assumes "responses t = (responses s)(i := c)" "next_response t = next_response s"
  shows "answered t h = answered s h +
    (if i < next_response s then owned (cell_handles c) h - owned (cell_handles (responses s i)) h else 0)"
proof (cases "i < next_response s")
  case True
  then have "answered t h = owned (cell_handles c) h +
      (\<Sum>j\<in>{..<next_response s} - {i}. owned (cell_handles (responses s j)) h)"
    unfolding answered_def using assms by (subst sum.remove [of _ i]) (auto intro!: sum.cong)
  moreover have "answered s h = owned (cell_handles (responses s i)) h +
      (\<Sum>j\<in>{..<next_response s} - {i}. owned (cell_handles (responses s j)) h)"
    unfolding answered_def using True by (subst sum.remove [of _ i]) auto
  ultimately show ?thesis using True by simp
qed (simp add: answered_def assms)

section \<open>The pump\<close>

text \<open>Held beyond the answers: a turn of the pump does not lower it.\<close>

definition frees :: "('w, 'z) sys_scheme \<Rightarrow> ('w, 'z) sys_scheme \<Rightarrow> bool" where
  "frees s t \<longleftrightarrow> (\<forall>h. held s h - answered s h \<le> held t h - answered t h) \<and> next_response t = next_response s"

interpretation frees: frame_relation frees
  by unfold_locales (auto simp: frees_def intro: order_trans)

lemmas [along_intros] = frees.along_return frees.along_bind frees.along_get frees.along_try_bind

lemma frees_same:
  assumes "responses t = responses s" "next_response t = next_response s" "\<forall>h. held s h \<le> held t h"
  shows "frees s t"
  using assms answered_same [OF assms(1,2)] by (auto simp: frees_def)

lemma frees_cell:
  assumes "responses t = (responses s)(i := c)" "next_response t = next_response s"
    and "\<forall>h. owned (cell_handles c) h - owned (cell_handles (responses s i)) h \<le> held t h - held s h"
    and "\<forall>h. held s h \<le> held t h"
  shows "frees s t"
proof -
  have "held s h - answered s h \<le> held t h - answered t h" for h
    using answered_update [OF assms(1,2), of h] spec [OF assms(3), of h] spec [OF assms(4), of h] by (auto split: if_splits)
  then show ?thesis using assms(2) by (simp add: frees_def)
qed

lemma frees_api: "(\<And>r. closed (g r) = []) \<Longrightarrow> along frees (api f g)"
  by (auto simp: along_def run_api intro!: frees_same split: prod.split)

lemma frees_channels [along_intros]:
  "along frees (deliver i r)" "along frees (drop_exit_sender i)" "along frees (drop_response_sender i)"
  "along frees (new_exit)" "along frees (recv_exit i)" "along frees (recv_sentinel i)"
  "along frees (drop_exit_receiver i)" "along frees (drop_sentinel_receiver i)"
proof -
  show "along frees (drop_response_sender i)"
    unfolding along_def by (intro allI frees_cell [of _ _ i]) (auto simp: drop_response_sender_def drop_sender_def)
qed (auto simp: along_def deliver_def send_exit_def drop_exit_sender_def new_exit_def recv_exit_def recv_sentinel_def
    drop_exit_receiver_def drop_sentinel_receiver_def intro!: frees_same split: send_outcome.splits recv_outcome.splits)

lemma frees_last_error [along_intros]: "along frees (last_os_error os)"
  unfolding last_os_error_def by (intro along_intros frees_api) simp

text \<open>The two handles of a new process go into the answer.\<close>

lemma send_response_frees:
  assumes "run_state (send_response i r) s = (u, t)" "\<forall>h. held s0 h + owned (answer_handles r) h \<le> held s h"
    and "responses s = responses s0" "next_response s = next_response s0"
  shows "frees s0 t"
proof -
  have c: "calls t = calls s" "next_response t = next_response s0"
    using assms(1,4) by (auto simp: send_response_def split: send_outcome.splits)
  obtain c where c': "responses t = (responses s0)(i := c)"
    "ch_buf c = ch_buf (responses s0 i) \<or> ch_buf c = ch_buf (responses s0 i) @ [r]"
  proof -
    show thesis
    proof (cases "ch_send r (responses s i)")
      case (Sent d)
      then have "ch_buf d = ch_buf (responses s i) @ [r]" by (auto simp: ch_send_def split: if_splits)
      then show thesis using that [of "drop_sender d"] assms(1,3) Sent by (auto simp: send_response_def drop_sender_def)
    next
      case Send_Err
      then show thesis using that [of "drop_sender (responses s0 i)"] assms(1,3) by (auto simp: send_response_def drop_sender_def)
    next
      case Send_Blocks
      then show thesis using that [of "responses s0 i"] assms(1,3) by (auto simp: send_response_def)
    qed
  qed
  have o: "owned (cell_handles c) h \<le> owned (cell_handles (responses s0 i)) h + owned (answer_handles r) h" for h
    using c'(2) by auto
  have hh: "held s0 h + owned (answer_handles r) h \<le> held t h" for h using assms(2) c(1) by simp
  have m: "held s0 h \<le> held t h" for h using hh [of h] owned_nonneg [of "answer_handles r" h] by linarith
  show ?thesis
  proof (rule frees_cell [OF c'(1) c(2)])
    show "\<forall>h. owned (cell_handles c) h - owned (cell_handles (responses s0 i)) h \<le> held t h - held s0 h"
    proof
      fix h show "owned (cell_handles c) h - owned (cell_handles (responses s0 i)) h \<le> held t h - held s0 h"
        using o [of h] hh [of h] by linarith
    qed
    show "\<forall>h. held s0 h \<le> held t h" using m by blast
  qed
qed

lemma frees_handle_spawn [along_intros]: "along frees (handle_spawn os ch req resp)"
proof (rule alongI)
  fix s t :: "('a, 'b) sys_scheme" and ch' assume h: "run_state (handle_spawn os ch req resp) s = (ch', t)"
  obtain r u where c: "run_state (create_debugged_child os req) s = (r, u)" by (metis surj_pair)
  note e = create_debugged_child_effect [OF c]
  have u: "responses u = responses s" "next_response u = next_response s" using e(1) by auto
  show "frees s t"
  proof (cases r)
    case (Inl x)
    obtain y v where v: "run_state (send_response resp (Inl x)) u = (y, v)" by (metis surj_pair)
    have "frees s v" by (rule send_response_frees [OF v _ u]) (use e(2) Inl in simp)
    moreover have "frees v t" using h c Inl v along_run [OF frees_channels(2), of "rq_exit_tx req" v _ t]
      by (auto simp: handle_spawn_def split: prod.splits)
    ultimately show ?thesis by (rule frees.goes_on)
  next
    case (Inr a)
    obtain pi p where a: "a = (pi, p)" by (cases a)
    let ?drop = "case map_of ch (dwProcessId pi) of Some old \<Rightarrow> drop_exit_sender (ce_exit_tx old) | None \<Rightarrow> State_Monad.return ()"
    let ?r = "Inr \<lparr>sr_pid = dwProcessId pi, sr_process_handle = hProcess pi, sr_thread_handle = hThread pi\<rparr>"
    obtain y v where v: "run_state ?drop u = (y, v)" by (metis surj_pair)
    have v': "responses v = responses s" "next_response v = next_response s" "calls v = calls u"
      using v u by (auto simp: drop_exit_sender_def split: option.splits)
    obtain z x where x: "run_state (send_response resp ?r) v = (z, x)" by (metis surj_pair)
    have "t = x" using h c Inr a v x by (auto simp: handle_spawn_def Let_def)
    moreover have "frees s x" by (rule send_response_frees [OF x _ v'(1,2)]) (use e(2) v'(3) Inr a in simp)
    ultimately show ?thesis by simp
  qed
qed


lemma frees_debug_step:
  "along (frees :: ('w, 'z) pump_sys_scheme \<Rightarrow> ('w, 'z) pump_sys_scheme \<Rightarrow> bool) (debug_step os ch)"
proof -
  have "along same_responses (dispatch_event os ch e)" for ch e
    unfolding dispatch_event_def close_event_file_def Let_def
    by (auto intro!: along_intros split: debug_payload.split option.split)
  then have r: "along same_responses (debug_step os ch)"
    unfolding debug_step_def by (auto intro!: along_intros split: option.split prod.split)
  show ?thesis
  proof (intro alongI frees_same)
    fix s t :: "('w, 'z) pump_sys_scheme" and p assume d: "run_state (debug_step os ch) s = (p, t)"
    show "responses t = responses s" using along_run [OF r d] by (simp add: same_responses_def)
    show "next_response t = next_response s" using along_run [OF keeps_debug_step d] by (simp add: keeps_def)
    obtain cs where "calls t = calls s @ cs" "orderly cs" using debug_step_orderly [OF d] by blast
    then show "\<forall>h. held s h \<le> held t h" by (simp add: orderly_def)
  qed
qed

lemma frees_pump_iteration: "along frees (pump_iteration os ch)"
proof -
  have inbox: "along frees inbox_recv" "along frees inbox_try_recv"
    by (auto simp: along_def inbox_recv_def inbox_try_recv_def intro!: frees_same
        split: recv_outcome.split option.split)
  have "along frees (drop_children ch)" for ch
    by (induction ch rule: drop_children.induct) (auto intro!: along_intros)
  moreover have ms: "along frees (drop_messages ms)" for ms
    by (induction ms rule: drop_messages.induct) (auto intro!: along_intros)
  moreover have q: "along frees (State (\<lambda>s. (ch_buf (inbox s), s\<lparr>inbox := drop_receiver (inbox s)\<rparr>)))"
    by (auto simp: along_def intro!: frees_same)
  ultimately have ret: "along frees (pump_return ch)" for ch
    unfolding pump_return_def drop_inbox_def by (intro along_intros)
  then have msg: "along frees (handle_message os ch m)" for ch m
    unfolding handle_message_def
    by (auto intro!: along_intros frees_debug_step split: option.split pump_message.split)
  show ?thesis unfolding pump_iteration_def
    by (auto intro!: along_intros inbox ret msg split: arrival.split)
qed

section \<open>The listener\<close>

lemma frees_get_exit_code [along_intros]: "along frees (get_exit_code os pid)"
  by (rule alongI)
    (auto simp: get_exit_code_def run_api close_handle_def intro!: frees_same split: prod.splits if_splits)

lemma frees_listener:
  "along frees (register_waiter p c ws pd)" "along frees (dispatch_notification os m ov ws pd)"
  "along frees (get_status os port timeout)" "along frees (drop_waiters ws)"
proof -
  show "along frees (register_waiter p c ws pd)"
    unfolding register_waiter_def by (auto intro!: along_intros split: option.split)
  show "along frees (dispatch_notification os m ov ws pd)"
    unfolding dispatch_notification_def classify_iocp_exit_def Let_def
    by (auto intro!: along_intros split: option.split)
  show "along frees (get_status os port timeout)" unfolding get_status_def by (intro frees_api) simp
  show "along frees (drop_waiters ws)" by (induction ws rule: drop_waiters.induct) (auto intro!: along_intros)
qed

lemma frees_register_all: "along frees (register_all ms ws pd)"
  by (induction ms ws pd rule: register_all.induct) (auto intro!: along_intros frees_listener split: prod.split)

lemma drain_remaining_frees:
  assumes "drain_remaining os port ws pd s = Some ((ws', pd'), t)"
  shows "frees s t"
proof (induction os port ws pd s "((ws', pd'), t)" rule: drain_remaining.raw_induct)
  case (1 drain os port ws pd s)
  obtain ok bytes key ov s1 where g: "run_state (get_status os port 0) s = ((ok, bytes, key, ov), s1)"
    by (metis surj_pair)
  note f1 = along_run [OF frees_listener(3) g]
  show ?case
  proof (cases "(\<not> ok \<and> ov = 0) \<or> key = SHUTDOWN_KEY")
    case True
    then have "t = s1" using 1(2) g by (auto split: if_splits)
    then show ?thesis using f1 by simp
  next
    case False
    obtain ws2 pd2 s2 where d: "run_state (dispatch_notification os bytes ov ws pd) s1 = ((ws2, pd2), s2)"
      by (metis surj_pair)
    have "drain os port ws2 pd2 s2 = Some ((ws', pd'), t)" using 1(2) g d False by (auto split: if_splits)
    from 1(1) [OF this] along_run [OF frees_listener(2) d] show ?thesis using f1 frees.goes_on by blast
  qed
qed (rule assms)

text \<open>The end of the thread closes its port.\<close>

lemma iocp_turn_frees:
  fixes s :: "('w, 'z) worry_sys_scheme"
  assumes "iocp_turn os port ws pd s = Some (l, t)"
  shows "next_response t = next_response s \<and>
    (\<forall>h. held s h - answered s h - (if l = Ended then owned [port] h else 0) \<le> held t h - answered t h)"
proof -
  obtain ws1 pd1 s1 where 1: "run_state (drain_registrations ws pd) s = ((ws1, pd1), s1)" by (metis surj_pair)
  obtain ok bytes key ov s2 where 2: "run_state (get_status os port 10) s1 = ((ok, bytes, key, ov), s2)"
    by (metis surj_pair)
  have "along frees (State (\<lambda>s. (ch_buf (regs s), s\<lparr>regs := (regs s)\<lparr>ch_buf := []\<rparr>\<rparr>)))"
    by (auto simp: along_def intro!: frees_same)
  then have "along frees (drain_registrations ws pd)"
    unfolding drain_registrations_def by (intro along_intros frees_register_all)
  from frees.goes_on [OF along_run [OF this 1] along_run [OF frees_listener(3) 2]] have f2: "frees s s2" .
  have turn: "iocp_turn os port ws pd s =
      (if key = SHUTDOWN_KEY then
         (case drain_remaining os port ws1 pd1 s2 of
            None \<Rightarrow> None
          | Some ((ws'', pd''), s'') \<Rightarrow> Some (run_state (end_listener os port ws'') s''))
       else if \<not> ok \<and> ov = 0 then Some (Listening ws1 pd1, s2)
       else case run_state (dispatch_notification os bytes ov ws1 pd1) s2 of
         ((ws'', pd''), s'') \<Rightarrow> Some (Listening ws'' pd'', s''))"
    using 1 2 by (simp add: iocp_turn_def)
  show ?thesis
  proof (cases "key = SHUTDOWN_KEY")
    case True
    then obtain ws3 pd3 s3 where 3: "drain_remaining os port ws1 pd1 s2 = Some ((ws3, pd3), s3)"
      and e: "run_state (end_listener os port ws3) s3 = (l, t)"
      using turn assms by (auto split: option.splits)
    have f3: "frees s s3" by (rule frees.goes_on [OF f2 drain_remaining_frees [OF 3]])
    obtain b w where b: "w_CloseHandle os port (world s3) = (b, w)" by (metis surj_pair)
    let ?s4 = "s3\<lparr>world := w, calls := calls s3 @ [CloseHandle port b]\<rparr>"
    have q: "along frees (State (\<lambda>s. (ch_buf (regs s), s\<lparr>regs := drop_receiver (regs s)\<rparr>)))"
      by (auto simp: along_def intro!: frees_same)
    have "along frees (do { drop_waiters ws3;
        queued \<leftarrow> State (\<lambda>s. (ch_buf (regs s), s\<lparr>regs := drop_receiver (regs s)\<rparr>));
        drop_waiters (map (\<lambda>m. case m of Register p tx \<Rightarrow> (p, tx)) queued);
        State_Monad.return Ended })"
      by (intro along_intros frees_listener q)
    moreover have "run_state (do { drop_waiters ws3;
        queued \<leftarrow> State (\<lambda>s. (ch_buf (regs s), s\<lparr>regs := drop_receiver (regs s)\<rparr>));
        drop_waiters (map (\<lambda>m. case m of Register p tx \<Rightarrow> (p, tx)) queued);
        State_Monad.return Ended }) ?s4 = (l, t)"
      using e b by (simp add: end_listener_def close_handle_def run_api)
    ultimately have f4: "frees ?s4 t" by (rule along_run)
    have l: "l = Ended" using e by (auto simp: end_listener_def split: prod.splits)
    have "answered ?s4 h = answered s3 h" for h by (rule answered_same) simp_all
    then have h4: "held s3 h - owned [port] h - answered s3 h \<le> held t h - answered t h" for h
      using f4 by (auto simp: frees_def dest: spec [of _ h])
    have "held s h - answered s h - owned [port] h \<le> held t h - answered t h" for h
      using h4 [of h] conjunct1 [OF f3 [unfolded frees_def], rule_format, of h] by linarith
    then show ?thesis using f3 f4 l by (simp add: frees_def)
  next
    case nk: False
    have "frees s t \<and> l \<noteq> Ended"
    proof (cases "\<not> ok \<and> ov = 0")
      case True
      then show ?thesis using turn assms nk f2 by auto
    next
      case False
      obtain ws3 pd3 s3 where 3: "run_state (dispatch_notification os bytes ov ws1 pd1) s2 = ((ws3, pd3), s3)"
        by (metis surj_pair)
      have "l = Listening ws3 pd3" "t = s3" using turn assms nk False 3 by auto
      then show ?thesis using frees.goes_on [OF f2 along_run [OF frees_listener(2) 3]] by simp
    qed
    then show ?thesis by (auto simp: frees_def)
  qed
qed


section \<open>The owners of the system\<close>

definition reads :: "'w config \<Rightarrow> handle list" where
  "reads s = map fst (filter (\<lambda>(h, i). i \<notin> cf_ended s) (listeners s))"

definition port :: "'w config \<Rightarrow> handle list" where
  "port s = (if ww_iocp s = None \<or> cf_listener s = Gone then [] else [io_iocp_handle (the (ww_iocp s))])"

definition slack :: "'w config \<Rightarrow> handle \<Rightarrow> int" where
  "slack s h = held s h - answered s h - owned (reads s @ port s) h"

abbreviation child_handles :: "worrywart_child \<Rightarrow> handle list" where
  "child_handles ch \<equiv> [wk_process_handle ch, wk_thread_handle ch]"

text \<open>\<open>gains hs s t\<close>: beside what everybody owned before, the handles \<open>hs\<close> are held.\<close>

definition gains :: "handle list \<Rightarrow> 'w config \<Rightarrow> 'w config \<Rightarrow> bool" where
  "gains hs s t \<longleftrightarrow> (\<forall>h. slack s h + owned hs h \<le> slack t h)"

lemma gainsD: "gains hs s t \<Longrightarrow> slack s h + owned hs h \<le> slack t h"
  by (simp add: gains_def)

lemma gains_trans:
  assumes "gains hs s t" "gains gs t u"
  shows "gains (hs @ gs) s u"
proof -
  have "slack s h + owned (hs @ gs) h \<le> slack u h" for h
    using gainsD [OF assms(1), of h] gainsD [OF assms(2), of h] by simp
  then show ?thesis by (simp add: gains_def)
qed

lemma gains_then: "gains [] s t \<Longrightarrow> gains gs t u \<Longrightarrow> gains gs s u"
  by (drule (1) gains_trans) simp

lemma gains_le: "gains hs s t \<Longrightarrow> (\<And>h. owned gs h \<le> owned hs h) \<Longrightarrow> gains gs s t"
  unfolding gains_def by (meson add_left_mono order_trans)

lemma gains_frees:
  assumes "frees s t" "reads t = reads s" "port t = port s"
  shows "gains [] s t"
proof -
  have "slack s h \<le> slack t h" for h
    using conjunct1 [OF assms(1) [unfolded frees_def], rule_format, of h] assms(2,3) by (simp add: slack_def)
  then show ?thesis by (simp add: gains_def)
qed

lemma pump_turn_gains:
  assumes "run_state (pump_turn os) s = (u, t)"
  shows "gains [] s t \<and> next_response t = next_response s"
proof (cases "ww_pump s = None \<or> cf_pump s = Gone")
  case True
  then show ?thesis using assms by (simp add: pump_turn_def gains_def)
next
  case False
  obtain r v where v: "run_state (pump_iteration os (table s)) s = (r, v)" by (metis surj_pair)
  have t: "t = v\<lparr>cf_pump := (case r of Again ch \<Rightarrow> Running ch | Waiting \<Rightarrow> Running (table s) | Returned \<Rightarrow> Gone)\<rparr>"
    using assms v False by (simp add: pump_turn_def)
  have k: "keeps_pump s v" by (rule along_run [OF keeps_pump_iteration v])
  then have more: "ww_iocp v = ww_iocp s" "cf_listener v = cf_listener s" "cf_ended v = cf_ended s" "listeners v = listeners s"
    by (cases s; cases v; simp add: keeps_pump_def)+
  have f: "frees s v" by (rule along_run [OF frees_pump_iteration v])
  then have "frees s t" by (rule frees.goes_on) (simp add: t frees_same)
  moreover have "reads t = reads s" "port t = port s" using more by (simp_all add: t reads_def port_def split: option.split)
  ultimately show ?thesis using f by (simp add: gains_frees t frees_def)
qed

lemma pump_turns_gains:
  assumes "run_state (pump_turns n os) s = (u, t)"
  shows "gains [] s t \<and> next_response t = next_response s"
  using assms
proof (induction n arbitrary: s)
  case (Suc n)
  obtain x s1 where 1: "run_state (pump_turn os) s = (x, s1)" by (metis surj_pair)
  then have "run_state (pump_turns n os) s1 = (u, t)" using Suc.prems by simp
  from Suc.IH [OF this] pump_turn_gains [OF 1] show ?case using gains_then by auto
qed (simp add: gains_def)

lemma listener_turn_gains:
  assumes "sys_inv Q s" "listener_turn os s = Some t"
  shows "gains [] s t"
proof -
  obtain p where p: "ww_iocp s = Some p" "cf_listener s \<noteq> Gone"
    using assms(2) by (auto simp: listener_turn_def split: option.splits if_splits)
  obtain pd l v where v: "iocp_turn os (io_iocp_handle p) (waiting s) pd s = Some (l, v)"
    and t: "t = v\<lparr>cf_listener := (case l of Listening ws' pd' \<Rightarrow> Running (ws', pd') | Ended \<Rightarrow> Gone)\<rparr>"
    using assms(2) p by (auto simp: listener_turn_def Let_def split: option.splits)
  have ex: "exits_ok Q s" using assms(1) by (simp add: sys_inv_def)
  have "keeps_iocp s v"
    using iocp_turn_owns [OF v, of "pump_txs (table s) s + Q"] ex by (simp add: exits_ok_def held_txs_def ac_simps)
  then have more: "ww_iocp v = ww_iocp s" "cf_ended v = cf_ended s" "listeners v = listeners s"
    by (cases s; cases v; simp add: keeps_iocp_def)+
  have a: "answered t h = answered v h" "held t h = held v h" for h by (simp_all add: t answered_def)
  have "slack s h \<le> slack t h" for h
    using iocp_turn_frees [OF v] more p a [of h]
    by (cases l) (auto simp: slack_def reads_def port_def t dest!: spec [of _ h])
  then show ?thesis by (simp add: gains_def)
qed

lemma listener_turns_gains:
  assumes "sys_inv Q s" "run_state (listener_turns n os) s = (u, t)"
  shows "gains [] s t \<and> cf_children t = cf_children s"
  using assms
proof (induction n arbitrary: s)
  case (Suc n)
  show ?case
  proof (cases "listener_turn os s")
    case None
    then show ?thesis using Suc by simp
  next
    case (Some s1)
    note l = listener_turn_inv [OF Suc.prems(1) Some]
    have "run_state (listener_turns n os) s1 = (u, t)" using Suc.prems(2) Some by simp
    from Suc.IH [OF conjunct1 [OF l] this] show ?thesis
      using gains_then [OF listener_turn_gains [OF Suc.prems(1) Some]] l by simp
  qed
qed (simp add: gains_def)

lemma reads_ended:
  assumes "distinct (map snd ls)" "(h, i) \<in> set ls" "i \<notin> E"
  shows "owned (map fst (filter (\<lambda>(h, i). i \<notin> E) ls)) g =
    owned [h] g + owned (map fst (filter (\<lambda>(h, j). j \<notin> insert i E) ls)) g"
  using assms
proof (induction ls)
  case (Cons a ls)
  obtain k j where a: "a = (k, j)" by (cases a)
  show ?case
  proof (cases "j = i")
    case True
    then have "i \<notin> snd ` set ls" using Cons.prems(1) a by simp
    then have "filter (\<lambda>(h, j). j \<notin> insert i E) ls = filter (\<lambda>(h, j). j \<notin> E) ls"
      by (intro filter_cong) (auto simp: image_iff)
    moreover have "k = h" using Cons.prems(2) True a \<open>i \<notin> snd ` set ls\<close> by (force simp: image_iff)
    ultimately show ?thesis using Cons.prems(3) a True by simp
  next
    case False
    then show ?thesis using Cons a by auto
  qed
qed simp

lemma sentinel_end_gains:
  assumes "sys_inv Q s" "(h, i) \<in> set (listeners s)" "i \<notin> cf_ended s" "sentinel_thread os h i s = Some ((), t)"
  shows "gains [] s (t\<lparr>cf_ended := insert i (cf_ended s)\<rparr>)"
proof -
  obtain b s1 where l: "sentinel_loop os h (replicate SENTINEL_MSG_LEN 0) 0 False s = Some (b, s1)"
    using assms(4) by (auto simp: sentinel_thread_def split: option.splits)
  note os = sentinel_loop_steps [OF l]
  obtain w cs where s1: "s1 = s\<lparr>world := w, calls := calls s @ cs\<rparr>" using os by (auto simp: os_steps_def)
  obtain x w2 where c: "w_CloseHandle os h w = (x, w2)" by (metis surj_pair)
  let ?s2 = "s\<lparr>world := w2, calls := calls s @ cs @ [CloseHandle h x]\<rparr>"
  have e: "((), t) = run_state (deliver_sentinel i b) ?s2"
    using assms(4) l c by (simp add: sentinel_thread_def s1 close_handle_def run_api)
  have t: "responses t = responses s" "next_response t = next_response s" "calls t = calls ?s2" "listeners t = listeners s"
    "ww_iocp t = ww_iocp s" "cf_listener t = cf_listener s"
    using e by (auto simp: deliver_sentinel_def split: send_outcome.splits)
  have ht: "held t g = held s g - owned [h] g" for g using os_steps_held [OF os, of g] by (simp add: t(3) s1)
  let ?t = "t\<lparr>cf_ended := insert i (cf_ended s)\<rparr>"
  have d: "distinct (map snd (listeners s))" using assms(1) by (simp add: sys_inv_def sentinels_ok_def)
  have "owned (reads s) g = owned [h] g + owned (reads ?t) g" for g
    using reads_ended [OF d assms(2,3), of g] by (simp add: reads_def t(4))
  moreover have "port ?t = port s" by (simp add: port_def t(5,6))
  moreover have "answered ?t g = answered s g" for g by (rule answered_same) (simp_all add: t)
  ultimately have "slack s g \<le> slack ?t g" for g using ht [of g] by (simp add: slack_def)
  then show ?thesis by (simp add: gains_def)
qed


section \<open>The operations of a caller\<close>

text \<open>Parts that leave the owners outside the channels alone.\<close>

definition aside :: "'w config \<Rightarrow> 'w config \<Rightarrow> bool" where
  "aside s t \<longleftrightarrow> frees s t \<and> listeners t = listeners s \<and> cf_ended t = cf_ended s \<and> cf_listener t = cf_listener s \<and>
     ww_iocp t = ww_iocp s"

interpretation aside: frame_relation aside
  by unfold_locales (auto simp: aside_def frees.stays intro: frees.goes_on)

lemmas [along_intros] = aside.along_return aside.along_bind aside.along_get aside.along_try_bind

lemma aside_gains: "aside s t \<Longrightarrow> gains [] s t"
  by (rule gains_frees) (simp_all add: aside_def reads_def port_def split: option.split)

lemma aside_api: "(\<And>r. closed (g r) = []) \<Longrightarrow> along aside (api f g)"
  by (auto simp: along_def aside_def run_api intro!: frees_same split: prod.split)

lemma aside_channels [along_intros]:
  "along aside (drop_exit_sender i)" "along aside (drop_response_sender i)" "along aside new_exit"
  "along aside (recv_exit i)" "along aside (recv_sentinel i)" "along aside (drop_exit_receiver i)"
  "along aside (drop_sentinel_receiver i)" "along aside (inbox_send m)" "along aside (iocp_register p i)"
proof -
  show d: "along aside (drop_exit_sender i)" for i
    by (auto simp: along_def aside_def drop_exit_sender_def intro!: frees_same)
  show "along aside (drop_response_sender i)"
    using along_run [OF frees_channels(3)] by (auto simp: along_def aside_def drop_response_sender_def)
  have "along aside (State (\<lambda>s. case ch_send (Register p i) (regs s) of
         Sent c \<Rightarrow> (True, s\<lparr>regs := c\<rparr>)
       | Send_Err \<Rightarrow> (False, s)
       | Send_Blocks \<Rightarrow> (False, s\<lparr>stuck := True\<rparr>)))"
    by (auto simp: along_def aside_def intro!: frees_same split: send_outcome.split)
  then show "along aside (iocp_register p i)" unfolding iocp_register_def by (intro along_intros d)
qed (auto simp: along_def aside_def new_exit_def recv_exit_def recv_sentinel_def drop_exit_receiver_def
    drop_sentinel_receiver_def inbox_send_def intro!: frees_same split: send_outcome.splits recv_outcome.splits)

lemma aside_last_error [along_intros]: "along aside (last_os_error os)"
  unfolding last_os_error_def by (intro along_intros aside_api) simp

lemma aside_child: "along aside (wait_diagnosed os ch)" "along aside (child_kill os ch)"
proof -
  have "along aside (wait_plain os ch)"
  proof (rule alongI)
    fix s t :: "'a config" and r assume p: "run_state (wait_plain os ch) s = (r, t)"
    obtain w cs where "t = s\<lparr>world := w, calls := calls s @ cs\<rparr>" "\<forall>h. ledger cs h = 0"
      using wait_plain_run [OF p] unfolding plain_wait_def by blast
    then show "aside s t" by (simp add: aside_def frees_same)
  qed
  moreover have "along aside (refine_with_sentinel r rx)" for r rx
    unfolding refine_with_sentinel_def Let_def by (auto intro!: along_intros split: option.split arrival.split)
  ultimately show "along aside (wait_diagnosed os ch)"
    unfolding wait_diagnosed_def Let_def by (auto intro!: along_intros split: option.split arrival.split sum.split)
  show "along aside (child_kill os ch)" unfolding child_kill_def by (auto intro!: along_intros aside_api)
qed

lemma aside_spawn_parts:
  "along aside (environment_block os c)" "along aside (ensure_pump os)"
proof -
  show "along aside (environment_block os c)" unfolding environment_block_def by (auto intro!: along_intros aside_api)
  show "along aside (ensure_pump os)"
    unfolding ensure_pump_def pump_start_def
    by (auto intro!: along_intros aside_api split: option.split)
      (auto simp: along_def aside_def intro!: frees_same)
qed

lemma create_process_for_job_gains:
  assumes "run_state (create_process_for_job os params) s = (r, t)"
  shows "gains (process_handles r) s t \<and> aside s t"
proof -
  note e = create_process_for_job_effect [OF assms]
  obtain w cs where t: "t = s\<lparr>world := w, calls := calls s @ cs\<rparr>" using e(1) by blast
  have a: "answered t h = answered s h" "reads t = reads s" "port t = port s" for h
    by (simp_all add: t answered_def reads_def port_def)
  have "slack s h + owned (process_handles r) h \<le> slack t h" for h
    using e(2) [of h] a by (simp add: slack_def)
  moreover have "aside s t" using e(2) by (simp add: aside_def t frees_same)
  ultimately show ?thesis by (simp add: gains_def)
qed

lemma ensure_iocp_gains:
  assumes "sys_inv Q s" "run_state (ensure_iocp os job) s = (r, t)"
  shows "gains [] s t"
proof -
  have h: "held t g = held s g + owned (new_port s t) g" for g by (rule ensure_iocp_effect(2) [OF assms(2)])
  show ?thesis
  proof (cases "ww_iocp s")
    case (Some p)
    then have "t = s" using assms(2) by (auto simp: ensure_iocp_def State_Monad.get_def)
    then show ?thesis by (simp add: gains_def)
  next
    case None
    have u: "cf_listener s = Unborn" using assms(1) None by (simp add: sys_inv_def threads_ok_def)
    from assms(2) None have "answered t g = answered s g \<and> reads t = reads s \<and> port t = port s @ new_port s t" for g
    proof (cases rule: ensure_iocp_run)
      case (fresh w cs c p)
      then show ?thesis using None u by (auto simp: answered_def reads_def port_def new_port_def split: option.split)
    next
      case (failed w cs)
      then show ?thesis using None by (simp add: answered_def reads_def port_def new_port_def)
    qed
    then have "slack s g \<le> slack t g" for g using h [of g] by (simp add: slack_def)
    then show ?thesis by (simp add: gains_def)
  qed
qed

text \<open>Closing a handle of one's own.\<close>

lemma close_gains:
  assumes "gains (h # hs) s t" "run_state (close_handle os h) t = (b, u)"
  shows "gains hs s u"
proof -
  obtain w where u: "u = t\<lparr>world := w, calls := calls t @ [CloseHandle h b]\<rparr>"
    using assms(2) by (auto simp: close_handle_def run_api split: prod.splits)
  have "slack u g = slack t g - owned [h] g" for g
    by (simp add: u slack_def answered_def reads_def port_def)
  then have "slack s g + owned hs g \<le> slack u g" for g
    using gainsD [OF assms(1), of g] by simp
  then show ?thesis by (simp add: gains_def)
qed


text \<open>The answer that arrives gives the caller its two handles.\<close>

lemma recv_response_gains:
  assumes "run_state (recv_response i) s = (a, t)" "i < next_response s"
  shows "gains (case a of Got x \<Rightarrow> answer_handles x | _ \<Rightarrow> []) s t"
proof (cases "ch_buf (responses s i)")
  case Nil
  then have "t = s" "a = Hung_Up \<or> a = Waits"
    using assms(1) by (auto simp: recv_response_def ch_recv_def split: if_splits)
  then show ?thesis by (auto simp: gains_def)
next
  case (Cons x xs)
  let ?c = "(responses s i)\<lparr>ch_buf := xs\<rparr>"
  have r: "a = Got x" "t = s\<lparr>responses := (responses s)(i := ?c)\<rparr>"
    using assms(1) Cons by (simp_all add: recv_response_def ch_recv_def)
  have "answered t h = answered s h - owned (answer_handles x) h" for h
    using answered_update [of t s i ?c h] assms(2) Cons by (simp add: r(2))
  then have "slack s h + owned (answer_handles x) h \<le> slack t h" for h
    by (simp add: slack_def) (simp add: r(2) reads_def port_def)
  then show ?thesis by (simp add: gains_def r(1))
qed

lemma spawn_child_request_gains:
  assumes "run_state (spawn_child_request req) s = (r, t)"
  shows "gains [] s t \<and> (\<forall>i. r = Inr i \<longrightarrow> i < next_response t)"
proof -
  let ?i = "next_response s"
  let ?s = "s\<lparr>responses := (responses s)(?i := sync_channel 1), next_response := ?i + 1\<rparr>"
  have a: "answered ?s h = answered s h" for h
    by (simp add: answered_def sync_channel_def)
  have "slack s h \<le> slack ?s h" for h unfolding slack_def a by (simp add: reads_def port_def)
  then have g: "gains [] s ?s" by (simp add: gains_def)
  obtain b s1 where 1: "run_state (inbox_send (Spawn req ?i)) ?s = (b, s1)" by (metis surj_pair)
  note a1 = along_run [OF aside_channels(8) 1]
  show ?thesis
  proof (cases b)
    case True
    then have "r = Inr ?i" "t = s1" using assms 1 by (simp_all add: spawn_child_request_def new_response_def)
    moreover have "next_response s1 = ?i + 1" using a1 by (simp add: aside_def frees_def)
    ultimately show ?thesis using gains_then [OF g aside_gains [OF a1]] by simp
  next
    case False
    have d: "along aside (do { drop_exit_sender (rq_exit_tx req); drop_response_sender ?i; e })"
      if "along aside e" for e :: "('a config, io_error + nat) state"
      by (intro along_intros that)
    have "run_state (do { drop_exit_sender (rq_exit_tx req); drop_response_sender ?i; err (Broken_Pipe ''pump thread gone'') }) s1 = (r, t)"
      using assms 1 False by (simp add: spawn_child_request_def new_response_def)
    from along_run [OF d this] have "aside s1 t" by (simp add: aside.along_return)
    moreover have "\<nexists>i. r = Inr i"
      using assms 1 False by (auto simp: spawn_child_request_def new_response_def split: prod.splits)
    ultimately show ?thesis
      using gains_then [OF gains_then [OF g aside_gains [OF a1]] aside_gains] by blast
  qed
qed

definition answer_owned :: "(io_error + spawn_response) option \<Rightarrow> handle list" where
  "answer_owned r = (case r of Some x \<Rightarrow> answer_handles x | None \<Rightarrow> [])"

lemma spawn_child_gains:
  assumes "run_state (spawn_child (pump_turns n os) req) s = (r, t)"
  shows "gains (answer_owned r) s t"
proof -
  obtain q s1 where 1: "run_state (spawn_child_request req) s = (q, s1)" by (metis surj_pair)
  note g1 = spawn_child_request_gains [OF 1]
  show ?thesis
  proof (cases q)
    case (Inl e)
    then show ?thesis using g1 1 assms by (auto simp: spawn_child_def answer_owned_def)
  next
    case (Inr resp)
    obtain u s2 where 2: "run_state (pump_turns n os) s1 = (u, s2)" by (metis surj_pair)
    note g2 = pump_turns_gains [OF 2]
    obtain a s3 where 3: "run_state (recv_response resp) s2 = (a, s3)" by (metis surj_pair)
    have "gains (case a of Got x \<Rightarrow> answer_handles x | _ \<Rightarrow> []) s2 s3"
      by (rule recv_response_gains [OF 3]) (use g1 g2 Inr in simp)
    moreover have "t = s3" "answer_owned r = (case a of Got x \<Rightarrow> answer_handles x | _ \<Rightarrow> [])"
      using assms 1 2 3 Inr by (auto simp: spawn_child_def answer_owned_def split: arrival.split)
    ultimately show ?thesis using gains_then [OF conjunct1 [OF g1] gains_then [OF conjunct1 [OF g2]]] by simp
  qed
qed

definition spawn_owned :: "(io_error + worrywart_child) option \<Rightarrow> handle list" where
  "spawn_owned r = (case r of Some (Inr ch) \<Rightarrow> child_handles ch | _ \<Rightarrow> [])"

lemma spawn_debug_gains:
  assumes "run_state (spawn_debug os (pump_turns n os) c) s = (r, t)"
  shows "gains (spawn_owned r) s t"
proof -
  obtain p s1 where 1: "run_state (ensure_pump os) s = (p, s1)" by (metis surj_pair)
  note a1 = along_run [OF aside_spawn_parts(2) 1]
  show ?thesis
  proof (cases p)
    case (Inl e)
    then show ?thesis using aside_gains [OF a1] 1 assms by (auto simp: spawn_debug_def spawn_owned_def)
  next
    case (Inr x)
    obtain env s2 where 2: "run_state (environment_block os c) s1 = (env, s2)" by (metis surj_pair)
    obtain i s3 where 3: "run_state new_exit s2 = (i, s3)" by (metis surj_pair)
    have a3: "aside s s3"
      by (rule aside.goes_on [OF aside.goes_on [OF a1 along_run [OF aside_spawn_parts(1) 2]] along_run [OF aside_channels(3) 3]])
    let ?req = "\<lparr>rq_application_name = None, rq_command_line = build_command_line (wc_program c) (wc_args c),
           rq_environment = env, rq_current_directory = map_option to_wide_null (wc_current_dir c),
           rq_affinity_mask = wc_affinity_mask c, rq_exit_tx = i, rq_stdin_handle = INVALID_HANDLE_VALUE,
           rq_stdout_handle = INVALID_HANDLE_VALUE, rq_stderr_handle = INVALID_HANDLE_VALUE,
           rq_use_stdio_handles = False, rq_inherit_handles = monitor.Sentinel \<in> set (wc_monitors c),
           rq_job_handle = wc_job c\<rparr>"
    obtain a s4 where 4: "run_state (spawn_child (pump_turns n os) ?req) s3 = (a, s4)" by (metis surj_pair)
    have g4: "gains (answer_owned a) s s4" by (rule gains_then [OF aside_gains [OF a3] spawn_child_gains [OF 4]])
    have run: "run_state (spawn_debug os (pump_turns n os) c) s =
        (case a of None \<Rightarrow> (None, s4)
         | Some (Inl e) \<Rightarrow> (Some (Inl e), snd (run_state (drop_exit_receiver i) s4))
         | Some (Inr resp) \<Rightarrow> (Some (Inr \<lparr>wk_pid = sr_pid resp, wk_process_handle = sr_process_handle resp,
             wk_thread_handle = sr_thread_handle resp, wk_exit_rx = Some i, wk_cached_reason = None,
             wk_sentinel_rx = None\<rparr>), s4))"
      using 1 2 3 4 Inr by (simp add: spawn_debug_def drop_exit_receiver_def split: option.split sum.split)
    have "aside s4 (snd (run_state (drop_exit_receiver i) s4))"
      by (rule along_run [OF aside_channels(6)]) (rule prod.collapse [symmetric])
    from gains_trans [OF g4 aside_gains [OF this]] g4 run assms show ?thesis
      by (auto simp: spawn_owned_def answer_owned_def split: option.splits sum.splits)
  qed
qed

lemma spawn_job_gains:
  assumes "sys_inv Q s" "run_state (spawn_job_monitored os c) s = (r, t)"
  shows "gains (spawn_owned (Some r)) s t"
proof -
  obtain env s1 where 1: "run_state (environment_block os c) s = (env, s1)" by (metis surj_pair)
  note a1 = along_run [OF aside_spawn_parts(1) 1]
  let ?p = "\<lparr>jp_application_name = None, jp_command_line = build_command_line (wc_program c) (wc_args c),
      jp_environment = env, jp_current_directory = map_option to_wide_null (wc_current_dir c),
      jp_job_handle = wc_job c, jp_inherit_handles = monitor.Sentinel \<in> set (wc_monitors c)\<rparr>"
  obtain q s2 where 2: "run_state (create_process_for_job os ?p) s1 = (q, s2)" by (metis surj_pair)
  have g2: "gains (process_handles q) s s2"
    using gains_then [OF aside_gains [OF a1]] create_process_for_job_gains [OF 2] by blast
  have i2: "sys_inv Q s2"
    using assms(1) along_run [OF preserves_spawn_parts(1) 1, of Q] along_run [OF preserves_spawn_parts(2) 2, of Q]
    by (simp add: preserves_def)
  show ?thesis
  proof (cases q)
    case (Inl e)
    then show ?thesis using g2 1 2 assms(2) by (auto simp: spawn_job_monitored_def spawn_owned_def)
  next
    case (Inr pi)
    obtain x s3 where 3: "run_state (ensure_iocp os (wc_job c)) s2 = (x, s3)" by (metis surj_pair)
    have g3: "gains [hProcess pi, hThread pi] s s3"
      using gains_trans [OF g2 ensure_iocp_gains [OF i2 3]] Inr by simp
    show ?thesis
    proof (cases x)
      case (Inl e)
      have "gains [] s s3" by (rule gains_le [OF g3]) simp
      then show ?thesis using 1 2 3 Inr Inl assms(2) by (auto simp: spawn_job_monitored_def spawn_owned_def)
    next
      case ok: (Inr y)
      obtain i s4 where 4: "run_state new_exit s3 = (i, s4)" by (metis surj_pair)
      obtain u s5 where 5: "run_state (iocp_register (dwProcessId pi) i) s4 = (u, s5)" by (metis surj_pair)
      have "aside s3 s5" by (rule aside.goes_on [OF along_run [OF aside_channels(3) 4] along_run [OF aside_channels(9) 5]])
      then have g5: "gains [hThread pi, hProcess pi] s s5"
        by (intro gains_le [OF gains_trans [OF g3 aside_gains]]) auto
      obtain b s6 where 6: "run_state (close_handle os (hThread pi)) s5 = (b, s6)" by (metis surj_pair)
      have g6: "gains [hProcess pi] s s6" by (rule close_gains [OF g5 6])
      let ?ch = "\<lparr>wk_pid = dwProcessId pi, wk_process_handle = hProcess pi,
           wk_thread_handle = INVALID_HANDLE_VALUE, wk_exit_rx = Some i, wk_cached_reason = None, wk_sentinel_rx = None\<rparr>"
      have run: "r = Inr ?ch \<and> t = (if valid_handle (hThread pi) then s6 else s5)"
        using assms(2) 1 2 3 4 5 6 Inr ok by (auto simp: spawn_job_monitored_def valid_handle_def split: if_splits)
      have o: "owned (spawn_owned (Some r)) h = owned [hProcess pi] h" for h using run by (auto simp: spawn_owned_def)
      have "gains (spawn_owned (Some r)) s s6" "gains (spawn_owned (Some r)) s s5"
        by (rule gains_le [OF g6], simp add: o) (rule gains_le [OF g5], simp add: o)
      then show ?thesis using run by simp
    qed
  qed
qed


lemma create_gains:
  assumes "sys_inv Q s" "run_state (create os) s = (r, t)"
  shows "gains (case r of Inl e \<Rightarrow> [] | Inr pipe \<Rightarrow> [sp_write_handle pipe]) s t"
proof -
  have n: "next_sentinel s \<notin> cf_ended s" using assms(1) by (auto simp: sys_inv_def sentinels_ok_def)
  from assms(2) have same: "answered t h = answered s h \<and> port t = port s \<and> cf_ended t = cf_ended s" for h
    by (cases rule: create_run) (simp_all add: answered_def port_def)
  note e = create_effect [OF assms(2)]
  show ?thesis
  proof (cases r)
    case (Inl x)
    then have "\<forall>h. held t h = held s h" "reads t = reads s" using e same by (simp_all add: reads_def)
    then show ?thesis using same Inl by (simp add: gains_def slack_def)
  next
    case (Inr pipe)
    from assms(2) have "sp_sentinel_rx pipe = next_sentinel s"
      by (cases rule: create_run) (use Inr in auto)
    then obtain rd where "listeners t = listeners s @ [(rd, next_sentinel s)]"
      "\<forall>h. held t h = held s h + owned [rd, sp_write_handle pipe] h" using e Inr by auto
    then show ?thesis using same n Inr by (simp add: gains_def slack_def reads_def)
  qed
qed

lemma spawn_path_gains:
  assumes "sys_inv Q s" "run_state (spawn_path os (pump_turns n os) c) s = (r, t)"
  shows "gains (spawn_owned r) s t"
proof (cases "DebugApi \<in> set (wc_monitors c)")
  case True
  then show ?thesis using spawn_debug_gains assms(2) by (simp add: spawn_path_def)
next
  case nd: False
  show ?thesis
  proof (cases "JobObject \<in> set (wc_monitors c) \<or> monitor.Sentinel \<in> set (wc_monitors c)")
    case True
    obtain x u where x: "run_state (spawn_job_monitored os c) s = (x, u)" by (metis surj_pair)
    have "r = Some x" "t = u" using assms(2) nd True x by (auto simp: spawn_path_def)
    then show ?thesis using spawn_job_gains [OF assms(1) x] by simp
  next
    case False
    obtain x u where x: "run_state (spawn_plain os c) s = (x, u)" by (metis surj_pair)
    have r: "r = Some x" "t = u" using assms(2) nd False x by (auto simp: spawn_path_def)
    obtain a w where a: "w_command_spawn os (std_command_of c) (world s) = (a, w)" by (metis surj_pair)
    have u: "u = s\<lparr>world := w, calls := calls s @ [CommandSpawn (std_command_of c) a]\<rparr>" "x = map_sum id from_std a"
      using x a by (auto simp: spawn_plain_def run_api split: sum.splits)
    have "answered u h = answered s h" "reads u = reads s" "port u = port s" for h
      by (simp_all add: u answered_def reads_def port_def)
    moreover have "held u h = held s h + owned (spawn_owned r) h" for h
      by (cases a) (auto simp: u r spawn_owned_def from_std_def INVALID_HANDLE_VALUE_def valid_handle_def)
    ultimately show ?thesis by (simp add: gains_def slack_def r(2))
  qed
qed

text \<open>The end of a child gives its two handles back.\<close>

lemma child_drop_slack:
  assumes "run_state (child_drop os ch) t = (c', u)"
  shows "slack u h = slack t h - owned (child_handles ch) h"
proof -
  obtain w cs where u: "u = t\<lparr>world := w, calls := calls t @ cs\<rparr>" using child_drop_run [of os ch t] assms by auto
  have a: "answered u h = answered t h" "reads u = reads t" "port u = port t"
    by (simp_all add: u answered_def reads_def port_def)
  have "held u h = held t h - owned (child_handles ch) h" using child_drop_held [OF assms] by blast
  then show ?thesis by (simp only: slack_def a)
qed

lemma child_drop_gains:
  assumes "gains (child_handles ch @ hs) s t" "run_state (child_drop os ch) t = (c', u)"
  shows "gains hs s u"
  unfolding gains_def
proof
  fix h show "slack s h + owned hs h \<le> slack u h"
    using gainsD [OF assms(1), of h] child_drop_slack [OF assms(2), of h] by simp
qed

lemma aside_drops:
  "along aside (case rx of Some i \<Rightarrow> drop_exit_receiver i | None \<Rightarrow> State_Monad.return ())"
  "along aside (case rx of Some i \<Rightarrow> drop_sentinel_receiver i | None \<Rightarrow> State_Monad.return ())"
  by (auto intro!: along_intros split: option.split)

lemma child_end_slack:
  assumes "run_state (child_end os ch) t = (v, u)"
  shows "slack t h - owned (child_handles ch) h \<le> slack u h"
proof -
  obtain c' u1 where 1: "run_state (child_drop os ch) t = (c', u1)" by (metis surj_pair)
  have "along aside (do {
      (case wk_exit_rx ch of Some i \<Rightarrow> drop_exit_receiver i | None \<Rightarrow> State_Monad.return ());
      (case wk_sentinel_rx ch of Some i \<Rightarrow> drop_sentinel_receiver i | None \<Rightarrow> State_Monad.return ()) })"
    by (intro aside.along_bind aside_drops)
  moreover have "run_state (do {
      (case wk_exit_rx ch of Some i \<Rightarrow> drop_exit_receiver i | None \<Rightarrow> State_Monad.return ());
      (case wk_sentinel_rx ch of Some i \<Rightarrow> drop_sentinel_receiver i | None \<Rightarrow> State_Monad.return ()) }) u1 = (v, u)"
    using assms 1 by (simp add: child_end_def)
  ultimately have "aside u1 u" by (rule along_run)
  from gainsD [OF aside_gains [OF this], of h] child_drop_slack [OF 1, of h] show ?thesis by simp
qed

lemma finish_sentinel_gains:
  assumes "gains (sp_write_handle pipe # child_handles ch) s t" "run_state (finish_sentinel os pipe ch) t = (r, u)"
  shows "gains (spawn_owned (Some r)) s u"
proof -
  obtain b t1 where 1: "run_state (close_handle os (sp_write_handle pipe)) t = (b, t1)" by (metis surj_pair)
  note g1 = close_gains [OF assms(1) 1]
  show ?thesis
  proof (cases b)
    case True
    then have "r = Inr (ch\<lparr>wk_sentinel_rx := Some (sp_sentinel_rx pipe)\<rparr>)" "u = t1"
      using assms(2) 1 by (simp_all add: finish_sentinel_def)
    then show ?thesis using g1 by (simp add: spawn_owned_def)
  next
    case False
    obtain e t2 where 2: "run_state (last_os_error os :: ('a config, io_error + worrywart_child) state) t1 = (e, t2)" by (metis surj_pair)
    have "gains (child_handles ch @ []) s t2"
      using gains_trans [OF g1 aside_gains [OF along_run [OF aside_last_error 2]]] by simp
    moreover obtain c' t3 where 3: "run_state (child_drop os ch) t2 = (c', t3)" by (metis surj_pair)
    ultimately have g3: "gains [] s t3" by (rule child_drop_gains)
    have "along aside (do {
        (case wk_exit_rx ch of Some i \<Rightarrow> drop_exit_receiver i | None \<Rightarrow> State_Monad.return ());
        drop_sentinel_receiver (sp_sentinel_rx pipe);
        State_Monad.return e })"
      by (intro aside.along_bind aside_drops along_intros)
    moreover have "run_state (do {
        (case wk_exit_rx ch of Some i \<Rightarrow> drop_exit_receiver i | None \<Rightarrow> State_Monad.return ());
        drop_sentinel_receiver (sp_sentinel_rx pipe);
        State_Monad.return e }) t3 = (r, u)"
      using assms(2) 1 2 3 False by (simp add: finish_sentinel_def)
    ultimately have "aside t3 u" by (rule along_run)
    moreover have "spawn_owned (Some r) = []"
      using assms(2) 1 2 False by (auto simp: finish_sentinel_def last_os_error_def run_api spawn_owned_def split: prod.splits)
    ultimately show ?thesis using gains_then [OF g3 aside_gains] by simp
  qed
qed

lemma spawn_gains:
  assumes "sys_inv Q s" "run_state (spawn os (pump_turns n os) c) s = (r, t)"
  shows "gains (spawn_owned r) s t"
proof (cases "monitor.Sentinel \<in> set (wc_monitors c)")
  case False
  then show ?thesis using spawn_path_gains [OF assms(1)] assms(2) by (simp add: spawn_def)
next
  case True
  obtain p s1 where 1: "run_state (create os) s = (p, s1)" by (metis surj_pair)
  note g1 = create_gains [OF assms(1) 1]
  show ?thesis
  proof (cases p)
    case (Inl e)
    then show ?thesis using assms(2) True 1 g1 by (auto simp: spawn_def spawn_owned_def)
  next
    case (Inr pipe)
    obtain a s2 where 2: "run_state (spawn_path os (pump_turns n os) (with_sentinel_env pipe c)) s1 = (a, s2)"
      by (metis surj_pair)
    have "sys_inv Q s1" using create_preserves [OF 1] assms(1) by (simp add: preserves_def)
    from gains_trans [OF g1 spawn_path_gains [OF this 2]] have g2: "gains (sp_write_handle pipe # spawn_owned a) s s2"
      using Inr by simp
    show ?thesis
    proof (cases "\<exists>ch. a = Some (Inr ch)")
      case got: True
      then obtain ch where ch: "a = Some (Inr ch)" by blast
      obtain x s3 where 3: "run_state (finish_sentinel os pipe ch) s2 = (x, s3)" by (metis surj_pair)
      have "gains (spawn_owned (Some x)) s s3"
        by (rule finish_sentinel_gains [OF _ 3]) (use g2 ch in \<open>simp add: spawn_owned_def\<close>)
      moreover have "r = Some x" "t = s3" using assms(2) True 1 2 3 Inr ch by (auto simp: spawn_def)
      ultimately show ?thesis by simp
    next
      case False
      have d: "aside s2 (snd (run_state (drop_sentinel_receiver (sp_sentinel_rx pipe)) s2))"
        by (rule along_run [OF aside_channels(7)]) (rule prod.collapse [symmetric])
      have g: "gains [] s s2" by (rule gains_le [OF g2]) simp
      show ?thesis using assms(2) True 1 2 Inr False g gains_then [OF g aside_gains [OF d]]
        by (auto simp: spawn_def spawn_owned_def drop_sentinel_receiver_def split: option.splits sum.splits)
    qed
  qed
qed


section \<open>Every configuration\<close>

abbreviation children_handles :: "worrywart_child list \<Rightarrow> handle list" where
  "children_handles cs \<equiv> concat (map child_handles cs)"

definition handles_ok :: "'w config \<Rightarrow> bool" where
  "handles_ok s \<longleftrightarrow> (\<forall>h. owned (children_handles (cf_children s)) h \<le> slack s h)"

lemma handles_ok_gains:
  assumes "handles_ok s" "gains gs s t" "\<And>h. owned (children_handles cs) h \<le> owned (children_handles (cf_children s) @ gs) h"
  shows "handles_ok (t\<lparr>cf_children := cs\<rparr>)"
proof -
  have "slack (t\<lparr>cf_children := cs\<rparr>) h = slack t h" for h
    by (simp add: slack_def answered_def reads_def port_def)
  moreover have "owned (children_handles cs) h \<le> slack t h" for h
    using assms(1) [unfolded handles_ok_def, rule_format, of h] assms(3) [of h, unfolded owned_append]
      gainsD [OF assms(2), of h] by linarith
  ultimately show ?thesis by (simp add: handles_ok_def)
qed

lemma handles_ok_same:
  assumes "handles_ok s" "gains [] s t" "cf_children t = cf_children s"
  shows "handles_ok t"
proof -
  have "owned (children_handles (cf_children t)) h \<le> slack t h" for h
    using assms(1) [unfolded handles_ok_def, rule_format, of h] gainsD [OF assms(2), of h] by (simp add: assms(3))
  then show ?thesis by (simp add: handles_ok_def)
qed

lemma wait_diagnosed_handles:
  assumes "run_state (wait_diagnosed os ch) s = (Some (r, ch'), t)"
  shows "child_handles ch' = child_handles ch"
  using assms
  by (auto simp: wait_diagnosed_def Let_def split: option.splits prod.splits sum.splits arrival.splits)

lemma owned_children_nth:
  assumes "j < length cs"
  shows "owned (children_handles cs) h = owned (child_handles (cs ! j)) h + owned (children_handles (take j cs @ drop (Suc j) cs)) h"
proof -
  have "children_handles cs = children_handles (take j cs @ cs ! j # drop (Suc j) cs)"
    using id_take_nth_drop [OF assms] by simp
  then show ?thesis by simp
qed


lemma step_handles:
  assumes "step os s t" "system_ok s" "handles_ok s"
  shows "handles_ok t"
proof -
  have inv: "sys_inv {#} s" using assms(2) by (simp add: system_ok_def)
  from assms(1) show ?thesis
  proof cases
    case Pump_Turn
    then show ?thesis
      using handles_ok_same [OF assms(3)] pump_turn_gains [OF Pump_Turn] pump_turn_inv [OF inv Pump_Turn] by blast
  next
    case Listener_Turn
    then show ?thesis
      using handles_ok_same [OF assms(3) listener_turn_gains [OF inv Listener_Turn]] listener_turn_inv [OF inv Listener_Turn] by blast
  next
    case (Sentinel_Thread h i u)
    then show ?thesis
      using handles_ok_same [OF assms(3) sentinel_end_gains [OF inv Sentinel_Thread(2-4)]] sentinel_end_inv [OF inv Sentinel_Thread(2-4)]
      by simp
  next
    case (Spawn_Child n c ch u)
    show ?thesis unfolding Spawn_Child(1)
      by (rule handles_ok_gains [OF assms(3) spawn_gains [OF inv Spawn_Child(2)]]) (simp add: spawn_owned_def)
  next
    case (Spawn_Fails n c e)
    have "cf_children t = cf_children s" using spawn_gives [OF inv Spawn_Fails] by (simp add: gives_def preserves_def)
    then show ?thesis using handles_ok_same [OF assms(3)] spawn_gains [OF inv Spawn_Fails] by (simp add: spawn_owned_def)
  next
    case (Wait j r ch u)
    have "owned (children_handles ((cf_children s)[j := ch])) h = owned (children_handles (cf_children s)) h" for h
      using owned_children_nth [of j "cf_children s" h] owned_children_nth [of j "(cf_children s)[j := ch]" h]
        wait_diagnosed_handles [OF Wait(3)] Wait(2) by simp
    then show ?thesis unfolding Wait(1)
      by (intro handles_ok_gains [OF assms(3) aside_gains [OF along_run [OF aside_child(1) Wait(3)]]]) simp
  next
    case (Kill j r)
    have "cf_children t = cf_children s" using along_run [OF preserves_child(2) Kill(2)] by (simp add: preserves_def)
    then show ?thesis using handles_ok_same [OF assms(3) aside_gains [OF along_run [OF aside_child(2) Kill(2)]]] by blast
  next
    case (Drop j ch u)
    let ?cs = "take j (cf_children s) @ drop (Suc j) (cf_children s)"
    have o: "owned (children_handles (cf_children s)) h = owned (child_handles ch) h + owned (children_handles ?cs) h" for h
      using owned_children_nth [OF Drop(2), of h] by (simp add: Drop(3))
    have "slack (t :: 'a config) h = slack u h" for h unfolding Drop(1) by (simp add: slack_def answered_def reads_def port_def)
    moreover have "owned (children_handles ?cs) h \<le> slack u h" for h
      using child_end_slack [OF Drop(4), of h] o [of h] assms(3) [unfolded handles_ok_def, rule_format, of h] by linarith
    ultimately show ?thesis by (simp add: handles_ok_def Drop(1))
  next
    case (Drop_Pump p n u)
    obtain b s1 where 1: "run_state (inbox_send Shutdown) s = (b, s1)" by (metis surj_pair)
    obtain x s2 where 2: "run_state (if po_thread p then pump_turns n os else State_Monad.return ()) s1 = (x, s2)"
      by (metis surj_pair)
    have g2: "gains [] s1 s2" using 2 pump_turns_gains [of n os s1 x s2] by (cases "po_thread p") (auto simp: gains_def)
    have u: "u = s2\<lparr>inbox := drop_sender (inbox s2)\<rparr>" using Drop_Pump(3) 1 2 by (simp add: pump_drop_def)
    have "slack t h = slack s2 h" for h unfolding Drop_Pump(1) u by (simp add: slack_def answered_def reads_def port_def)
    then have "gains [] s2 t" by (simp add: gains_def)
    then have "gains [] s t" using gains_then [OF aside_gains [OF along_run [OF aside_channels(8) 1]] gains_then [OF g2]] by blast
    moreover have "cf_children t = cf_children s"
    proof -
      note i1 = send_shutdown_inv [OF inv _ 1]
      have "cf_children s2 = cf_children s" using i1 Drop_Pump(2) 2 pump_turns_inv [of "{#}" s1 n os x s2] by (auto split: if_splits)
      then show ?thesis by (simp add: Drop_Pump(1) u)
    qed
    ultimately show ?thesis by (rule handles_ok_same [OF assms(3)])
  next
    case (Drop_Iocp p n u)
    obtain b w where b: "w_PostQueuedCompletionStatus os (io_iocp_handle p) 0 SHUTDOWN_KEY 0 (world s) = (b, w)"
      by (metis surj_pair)
    let ?s1 = "s\<lparr>world := w, calls := calls s @ [PostQueuedCompletionStatus (io_iocp_handle p) 0 SHUTDOWN_KEY 0 b]\<rparr>"
    have g1: "gains [] s ?s1" by (simp add: gains_def slack_def answered_def reads_def port_def)
    obtain x s2 where 2: "run_state (if io_thread p then listener_turns n os else State_Monad.return ()) ?s1 = (x, s2)"
      by (metis surj_pair)
    have g2: "gains [] ?s1 s2 \<and> cf_children s2 = cf_children s"
      using 2 inv listener_turns_gains [of "{#}" ?s1 n os x s2] by (cases "io_thread p") (auto simp: gains_def)
    have u: "u = s2\<lparr>regs := drop_sender (regs s2)\<rparr>" using Drop_Iocp(3) b 2 by (simp add: iocp_drop_def run_api)
    have "cf_listener s2 = Gone" using Drop_Iocp(4) u by simp
    then have "slack t h = slack s2 h" for h unfolding Drop_Iocp(1) u by (simp add: slack_def answered_def reads_def port_def)
    then have "gains [] s2 t" by (simp add: gains_def)
    then have "gains [] s t" using gains_then [OF g1 gains_then [OF conjunct1 [OF g2]]] by blast
    moreover have "cf_children t = cf_children s" using g2 by (simp add: Drop_Iocp(1) u)
    ultimately show ?thesis by (rule handles_ok_same [OF assms(3)])
  qed
qed

lemma reachable_handles:
  assumes "reachable os s"
  shows "handles_ok s"
proof -
  obtain w where w: "(step os)\<^sup>*\<^sup>* (init_config w) s" using assms by blast
  from w have "system_ok s \<and> handles_ok s"
  proof (induction rule: rtranclp_induct)
    case base
    have "reachable os (init_config w)" by blast
    then have "system_ok (init_config w)" by (rule reachable_ok)
    moreover have "handles_ok (init_config w)"
      by (simp add: handles_ok_def slack_def answered_def reads_def port_def init_config_def init_ww_def init_worry_def
          init_pump_def init_sys_def ww_sys.defs worry_sys.defs pump_sys.defs sys.defs)
    ultimately show ?case by blast
  next
    case (step y z)
    then show ?case using step_ok step_handles by blast
  qed
  then show ?thesis by blast
qed

text \<open>C5 (ownership of handles): in every reachable configuration every handle a child of the caller, a running
  sentinel thread or the running listener owns is still open, once for each of its owners, and no
  handle was closed more often than it was received: no operation and no thread ever closes a handle
  that somebody else still owns, whatever fails on the way.\<close>

theorem system_handles:
  assumes "reachable os s"
  shows "owned (children_handles (cf_children s) @ reads s @ port s) h \<le> held s h \<and> 0 \<le> held s h"
proof -
  have "owned (children_handles (cf_children s)) h \<le> slack s h"
    using reachable_handles [OF assms] by (simp add: handles_ok_def)
  then have "owned (children_handles (cf_children s) @ reads s @ port s) h \<le> held s h"
    using answered_nonneg [of s h] by (simp add: slack_def)
  moreover have "0 \<le> owned (children_handles (cf_children s) @ reads s @ port s) h" by (rule owned_nonneg)
  ultimately show ?thesis by linarith
qed

lemma owned_member: "h \<in> set hs \<Longrightarrow> valid_handle h \<Longrightarrow> 1 \<le> owned hs h"
  by (induction hs) (auto simp: add_increasing)

lemma job_config_child: "\<exists>ch\<in>set (cf_children job_config). wk_process_handle ch = 8"
  by (simp add: job_config_def spawn_eval init_config_def ww_sys.defs)

theorem system_handles_witness: "1 \<le> held job_config 8"
proof -
  obtain ch where "ch \<in> set (cf_children job_config)" "wk_process_handle ch = 8" using job_config_child by blast
  then have "8 \<in> set (children_handles (cf_children job_config) @ reads job_config @ port job_config)" by force
  moreover have "valid_handle 8" by (simp add: valid_handle_def INVALID_HANDLE_VALUE_def)
  ultimately have "1 \<le> owned (children_handles (cf_children job_config) @ reads job_config @ port job_config) 8"
    by (rule owned_member)
  then show ?thesis using system_handles [OF job_config_reachable, of 8] by linarith
qed

section \<open>A borrowed handle\<close>

text \<open>The pump keeps the raw process handle of a child for the affinity mask, but the handle belongs to
  the child handle of the caller. A run: a debugged child is spawned, dropped, and then reaches its
  loader breakpoint.\<close>

definition loader_event :: debug_event where
  "loader_event = \<lparr>de_pid = 101, de_tid = 7, de_payload = ExceptionEvent BREAKPOINT 0 1\<rparr>"

definition loader_os :: "nat win32" where
  "loader_os = spawn_os\<lparr>
     w_SetProcessAffinityMask := (\<lambda>h m w. (True, w)),
     w_ContinueDebugEvent := (\<lambda>p t c w. (True, w)),
     w_WaitForDebugEvent := (\<lambda>t w. (if w = 3 then None else Some loader_event, w + 1))\<rparr>"

definition debugged :: "(io_error + worrywart_child) option \<times> nat config" where
  "debugged = run_state (spawn loader_os (pump_turns 1 loader_os) (affinity_mask 1 (example_command [DebugApi]))) (init_config 1)"

lemma debugged_run:
  "\<exists>ch t ce. debugged = (Some (Inr ch), t) \<and> child_handles ch = [8, 12] \<and> wk_exit_rx ch = Some 0 \<and> wk_sentinel_rx ch = None \<and>
     cf_pump t = Running [(101, ce)] \<and> ce_process_handle ce = 8 \<and> ce_affinity_mask ce = 1 \<and> \<not> ce_past_loader_bp ce \<and>
     ww_pump t \<noteq> None \<and> ch_buf (inbox t) = [] \<and> world t = 4 \<and> held t 8 = 1 \<and> ww_iocp t = None"
  by (simp add: debugged_def spawn_def spawn_path_def spawn_debug_def ensure_pump_def pump_start_def State_Monad.get_def
    environment_block_def new_exit_def spawn_child_def spawn_child_request_def new_response_def inbox_send_def ch_send_def ch_full_def
    pump_turn_def table_def pump_iteration_unfold handle_message_def handle_spawn_def create_debugged_child_def create_process_impl_def
    run_api Let_def init_config_def ww_sys.defs loader_os_def spawn_os_def job_os_def failing_os_def channel_def affinity_mask_def
    send_response_def sync_channel_def recv_response_def ch_recv_def drop_sender_def debug_step_def new_child_entry_def valid_handle_def INVALID_HANDLE_VALUE_def)


lemma loader_turn:
  assumes "cf_pump s = Running [(101, ce)]" "ce_process_handle ce = 8" "ce_affinity_mask ce = 1" "\<not> ce_past_loader_bp ce"
    and "ww_pump s \<noteq> None" "ch_buf (inbox s) = []" "world s = 4"
  shows "\<exists>u. run_state (pump_turn loader_os) s = ((), u) \<and> calls u = calls s @ [WaitForDebugEvent 10 (Some loader_event),
    SetProcessAffinityMask 8 1 True, ContinueDebugEvent 101 7 DBG_CONTINUE True]"
proof -
  have e: "w_WaitForDebugEvent loader_os 10 4 = (Some loader_event, 5)"
    "w_SetProcessAffinityMask loader_os 8 1 5 = (True, 5)"
    "w_ContinueDebugEvent loader_os 101 7 DBG_CONTINUE 5 = (True, 5)"
    by (simp_all add: loader_os_def)
  have l: "de_pid loader_event = 101" "de_tid loader_event = 7" "de_payload loader_event = ExceptionEvent BREAKPOINT 0 1"
    by (simp_all add: loader_event_def)
  have d: "run_state (debug_step loader_os [(101, ce)]) s = (Again [(101, ce\<lparr>ce_past_loader_bp := True\<rparr>)],
      s\<lparr>world := 5, calls := calls s @ [WaitForDebugEvent 10 (Some loader_event), SetProcessAffinityMask 8 1 True,
        ContinueDebugEvent 101 7 DBG_CONTINUE True]\<rparr>)"
    by (simp add: debug_step_def run_api dispatch_event_def Let_def assms e l)
  show ?thesis using assms(1,5,6) by (auto simp: pump_turn_def table_def pump_iteration_unfold d)
qed

text \<open>C27 (borrowed handle): the pump may use a handle that is closed. There is a reachable configuration in which
  the caller has no child left, nobody holds the process handle 8, and the next turn of the pump
  passes it to SetProcessAffinityMask all the same.\<close>

theorem pump_uses_closed_handle:
  "\<exists>s t. reachable loader_os s \<and> cf_children s = [] \<and> held s 8 = 0 \<and> step loader_os s t \<and>
     calls t = calls s @ [WaitForDebugEvent 10 (Some loader_event), SetProcessAffinityMask 8 1 True,
       ContinueDebugEvent 101 7 DBG_CONTINUE True]"
proof -
  obtain ch t ce where d: "debugged = (Some (Inr ch), t)" "child_handles ch = [8, 12]" "wk_exit_rx ch = Some 0"
    "wk_sentinel_rx ch = None" and p: "cf_pump t = Running [(101, ce)]" "ce_process_handle ce = 8" "ce_affinity_mask ce = 1"
    "\<not> ce_past_loader_bp ce" "ww_pump t \<noteq> None" "ch_buf (inbox t) = []" "world t = 4" "held t 8 = 1"
    using debugged_run by blast
  let ?s1 = "t\<lparr>cf_children := [ch]\<rparr>"
  have "cf_children (init_config (1::nat)) = []" by (simp add: init_config_def ww_sys.defs)
  then have 1: "step loader_os (init_config 1) ?s1" using step.Spawn_Child [OF d(1) [unfolded debugged_def]] by simp
  have close: "w_CloseHandle loader_os h w = (True, w)" for h w by (simp add: loader_os_def spawn_os_def)
  let ?s2 = "?s1\<lparr>calls := calls t @ [CloseHandle 8 True, CloseHandle 12 True], exits := (exits t)(0 := drop_receiver (exits t 0))\<rparr>"
  have "run_state (child_end loader_os ch) ?s1 = ((), ?s2)"
    using d(2-4) by (simp add: child_end_def child_drop_def close_handle_def run_api close drop_exit_receiver_def
        INVALID_HANDLE_VALUE_def)
  then have 2: "step loader_os ?s1 (?s2\<lparr>cf_children := []\<rparr>)"
    using step.Drop [where os = loader_os and s = ?s1 and j = 0 and ch = ch and t = ?s2] by simp
  let ?s = "?s2\<lparr>cf_children := []\<rparr>"
  obtain u where u: "run_state (pump_turn loader_os) ?s = ((), u)" and "calls u = calls ?s @
      [WaitForDebugEvent 10 (Some loader_event), SetProcessAffinityMask 8 1 True, ContinueDebugEvent 101 7 DBG_CONTINUE True]"
    using loader_turn [of ?s ce] p by auto
  moreover have "step loader_os ?s u" by (rule step.Pump_Turn [OF u])
  moreover have "reachable loader_os ?s" using 1 2 by (meson converse_rtranclp_into_rtranclp rtranclp.rtrancl_refl)
  moreover have "held ?s 8 = 0" using p(8) by (simp add: valid_handle_def INVALID_HANDLE_VALUE_def)
  ultimately show ?thesis by (intro exI [of _ ?s] exI [of _ u]) simp
qed

end
