(* ===== verification/Teardown.thy ===== *)
theory Teardown
  imports Handles
begin

text \<open>
  The end of a \<open>Worrywart\<close>: when the last of it and of the commands made from it goes, its fields are
  dropped in the order of the struct, the pump (which is asked to stop and joined), the job, and the
  listener (likewise). What is left of the children is a plain wait on their handles at worst.
\<close>

definition worrywart_drop :: "'w win32 \<Rightarrow> nat \<Rightarrow> nat \<Rightarrow> worrywart \<Rightarrow> ('w config, unit) state" where
  "worrywart_drop os n m ww = do {
     s \<leftarrow> State_Monad.get;
     (case ww_pump s of Some p \<Rightarrow> pump_drop (pump_turns n os) p | None \<Rightarrow> State_Monad.return ());
     job_drop os (wj_job ww);
     t \<leftarrow> State_Monad.get;
     (case ww_iocp t of Some p \<Rightarrow> iocp_drop os (listener_turns m os) p | None \<Rightarrow> State_Monad.return ())
   }"

section \<open>The pump is joined\<close>

lemma pump_turns_gone: "cf_pump s = Gone \<Longrightarrow> run_state (pump_turns n os) s = ((), s)"
  by (induction n) (simp_all add: pump_turn_def)

lemma sys_inv_pump: "sys_inv Q s \<Longrightarrow> pump_inv (table s) s"
  unfolding pump_inv_def channels_ok_def sys_inv_def exits_ok_def threads_ok_def held_txs_def
  using owns_mono [of "pump_txs (table s) s" "qtx (ch_buf (regs s)) + wtx (waiting s) + Q" s]
  by (auto simp: owns_def ac_simps)

text \<open>One turn takes one message; \<open>Shutdown\<close> ends the thread.\<close>

lemma pump_turn_progress:
  assumes "sys_inv Q s" "ww_pump s \<noteq> None" "cf_pump s \<noteq> Gone" "ch_buf (inbox s) = m # ms"
    and "run_state (pump_turn os) s = (u, t)"
  shows "if m = Shutdown then cf_pump t = Gone else cf_pump t \<noteq> Gone \<and> ch_buf (inbox t) = ms"
proof -
  obtain r v where v: "run_state (pump_iteration os (table s)) s = (r, v)" by (metis surj_pair)
  have t: "t = v\<lparr>cf_pump := (case r of Again ch \<Rightarrow> Running ch | Waiting \<Rightarrow> Running (table s) | Returned \<Rightarrow> Gone)\<rparr>"
    using assms(2,3,5) v by (auto simp: pump_turn_def)
  have h: "run_state (handle_message os (table s) (Some m)) (s\<lparr>inbox := (inbox s)\<lparr>ch_buf := ms\<rparr>\<rparr>) = (r, v)"
    using v assms(4) by (simp add: pump_iteration_unfold)
  show ?thesis
  proof (cases "m = Shutdown")
    case True
    then show ?thesis using handle_message_progress [OF h] by (simp add: t)
  next
    case False
    then obtain ch where r: "r = Again ch" using handle_message_progress [OF h] by auto
    then show ?thesis using pump_iteration_again(3) [OF sys_inv_pump [OF assms(1)] v [unfolded r]] assms(4) False by (simp add: t)
  qed
qed

lemma pump_turns_shutdown:
  assumes "sys_inv Q s" "ww_pump s \<noteq> None" "ch_buf (inbox s) = ms @ [Shutdown] \<or> cf_pump s = Gone" "length ms < n"
    and "run_state (pump_turns n os) s = (u, t)"
  shows "cf_pump t = Gone"
  using assms
proof (induction n arbitrary: s ms)
  case (Suc n)
  obtain x s1 where 1: "run_state (pump_turn os) s = (x, s1)" by (metis surj_pair)
  then have r: "run_state (pump_turns n os) s1 = (u, t)" using Suc.prems(5) by simp
  note i = pump_turn_inv [OF Suc.prems(1) 1]
  show ?case
  proof (cases "cf_pump s = Gone")
    case True
    then show ?thesis using Suc.prems(5) pump_turns_gone [of s "Suc n" os] by simp
  next
    case alive: False
    then have q: "ch_buf (inbox s) = ms @ [Shutdown]" using Suc.prems(3) by simp
    show ?thesis
    proof (cases ms)
      case Nil
      have "cf_pump s1 = Gone"
        using pump_turn_progress [OF Suc.prems(1,2) alive _ 1, of Shutdown "[]"] q Nil by simp
      then show ?thesis using r pump_turns_gone [of s1 n os] by simp
    next
      case (Cons m ms')
      have "ch_buf (inbox s1) = ms' @ [Shutdown] \<or> cf_pump s1 = Gone"
        using pump_turn_progress [OF Suc.prems(1,2) alive _ 1, of m "ms' @ [Shutdown]"] q Cons by (auto split: if_splits)
      then show ?thesis using Suc.IH [of s1 ms'] i r Suc.prems(2,4) Cons by simp
    qed
  qed
qed simp

lemma drop_senders_inv:
  "sys_inv Q s \<Longrightarrow> sys_inv Q (s\<lparr>inbox := drop_sender (inbox s)\<rparr>)"
  "sys_inv Q s \<Longrightarrow> sys_inv Q (s\<lparr>regs := drop_sender (regs s)\<rparr>)"
  by (simp_all add: sys_inv_def exits_ok_def threads_ok_def sentinels_ok_def held_txs_def table_def waiting_def owns_def
      drop_sender_def)

lemma pump_drop_joins:
  assumes "sys_inv Q s" "ww_pump s = Some p" "length (ch_buf (inbox s)) < n"
    and "run_state (pump_drop (pump_turns n os) p) s = (u, t)"
  shows "sys_inv Q t \<and> cf_pump t = Gone \<and> ww_iocp t = ww_iocp s \<and> cf_children t = cf_children s \<and>
    next_exit t = next_exit s \<and> next_sentinel t = next_sentinel s"
proof -
  have po: "po_thread p" using assms(1,2) by (simp add: sys_inv_def threads_ok_def)
  obtain b s1 where 1: "run_state (inbox_send Shutdown) s = (b, s1)" by (metis surj_pair)
  note i1 = send_shutdown_inv [OF assms(1) _ 1]
  obtain x s2 where 2: "run_state (pump_turns n os) s1 = (x, s2)" by (metis surj_pair)
  have t: "t = s2\<lparr>inbox := drop_sender (inbox s2)\<rparr>" using assms(4) po 1 2 by (simp add: pump_drop_def)
  have th: "threads_ok s" using assms(1) by (simp add: sys_inv_def)
  have c: "ww_pump s1 = ww_pump s" "ww_iocp s1 = ww_iocp s" "cf_pump s1 = cf_pump s"
    using 1 by (auto simp: inbox_send_def split: send_outcome.splits)
  have q: "ch_buf (inbox s1) = ch_buf (inbox s) @ [Shutdown] \<or> cf_pump s1 = Gone"
    using 1 th assms(2) by (auto simp: inbox_send_def ch_send_def ch_full_def threads_ok_def split: if_splits)
  have g: "cf_pump s2 = Gone"
    by (rule pump_turns_shutdown [where Q = Q, OF _ _ q assms(3) 2]) (use i1 assms(2) c in simp_all)
  have i2: "sys_inv Q s2 \<and> ww_iocp s2 = ww_iocp s1 \<and> cf_children s2 = cf_children s1 \<and> next_exit s2 = next_exit s1 \<and>
      next_sentinel s2 = next_sentinel s1"
    using pump_turns_inv [OF conjunct1 [OF i1] 2] assms(2) by simp
  have "sys_inv Q t" unfolding t by (rule drop_senders_inv) (use i2 in blast)
  then show ?thesis using g i1 i2 c assms(2) by (simp add: t)
qed

section \<open>What is left\<close>

lemma job_drop_inv:
  assumes "run_state (job_drop os job) s = (u, t)"
  shows "\<exists>w cs. t = s\<lparr>world := w, calls := cs\<rparr>"
proof (cases "job = null_handle")
  case True
  then have "t = s\<lparr>world := world s, calls := calls s\<rparr>" using assms by (simp add: job_drop_def)
  then show ?thesis by blast
next
  case False
  obtain b w where "w_CloseHandle os job (world s) = (b, w)" by (metis surj_pair)
  then have "t = s\<lparr>world := w, calls := calls s @ [CloseHandle job b]\<rparr>"
    using assms False by (simp add: job_drop_def close_handle_def run_api)
  then show ?thesis by blast
qed

text \<open>With both threads gone no sender of an exit channel is left.\<close>

lemma all_hung_up:
  assumes "sys_inv {#} s" "cf_pump s = Gone \<or> ww_pump s = None" "cf_listener s = Gone \<or> ww_iocp s = None" "i < next_exit s"
  shows "ch_senders (exits s i) = 0"
proof -
  have "held_txs s = {#}"
    using assms(1-3) by (auto simp: sys_inv_def threads_ok_def held_txs_def table_def waiting_def)
  then show ?thesis using assms(1,4) by (simp add: sys_inv_def exits_ok_def)
qed

lemma iocp_drop_inv:
  assumes "sys_inv Q s" "run_state (iocp_drop os (listener_turns m os) p) s = (u, t)" "ww_iocp s = Some p"
  shows "sys_inv Q t \<and> next_exit t = next_exit s \<and> cf_children t = cf_children s \<and> next_sentinel t = next_sentinel s \<and>
    cf_pump t = cf_pump s \<and> ww_pump t = ww_pump s"
proof -
  obtain b w where b: "w_PostQueuedCompletionStatus os (io_iocp_handle p) 0 SHUTDOWN_KEY 0 (world s) = (b, w)"
    by (metis surj_pair)
  let ?s1 = "s\<lparr>world := w, calls := calls s @ [PostQueuedCompletionStatus (io_iocp_handle p) 0 SHUTDOWN_KEY 0 b]\<rparr>"
  obtain x s2 where 2: "run_state (if io_thread p then listener_turns m os else State_Monad.return ()) ?s1 = (x, s2)"
    by (metis surj_pair)
  have i2: "sys_inv Q s2 \<and> next_exit s2 = next_exit s \<and> next_sentinel s2 = next_sentinel s \<and> cf_children s2 = cf_children s \<and>
      cf_pump s2 = cf_pump s \<and> ww_pump s2 = ww_pump s"
    using assms(1) 2 listener_turns_inv [of Q ?s1 m os x s2] by (auto split: if_splits)
  have t: "t = s2\<lparr>regs := drop_sender (regs s2)\<rparr>" using assms(2) b 2 by (simp add: iocp_drop_def run_api)
  have "sys_inv Q t" unfolding t by (rule drop_senders_inv) (use i2 in blast)
  then show ?thesis using i2 by (simp add: t)
qed


text \<open>C11 (end of a Worrywart): when the Worrywart goes, its pump is joined after at most one turn for each
  queued message and one for the shutdown; once the listener is joined as well no child waits for
  either of them any more: a wait_diagnosed that still has to wait waits for the sentinel thread of
  its own pipe.\<close>

theorem worrywart_drop_frees_waiters:
  assumes "reachable os s" "run_state (worrywart_drop os n m ww) s = (u, t)" "length (ch_buf (inbox s)) < n"
    and "ww_iocp s \<noteq> None \<longrightarrow> cf_listener t = Gone"
  shows "(ww_pump s \<noteq> None \<longrightarrow> cf_pump t = Gone) \<and>
    (\<forall>ch\<in>set (cf_children s). fst (run_state (wait_diagnosed os ch) t) = None \<longrightarrow>
       (\<exists>i. wk_sentinel_rx ch = Some i \<and> sentinel_answers t i))"
proof -
  have inv: "sys_inv {#} s" and known: "\<And>ch. ch \<in> set (cf_children s) \<Longrightarrow> child_known s ch"
    using reachable_ok [OF assms(1)] by (auto simp: system_ok_def)
  obtain x s1 where 1: "run_state (case ww_pump s of Some p \<Rightarrow> pump_drop (pump_turns n os) p | None \<Rightarrow> State_Monad.return ()) s = (x, s1)"
    by (metis surj_pair)
  have i1: "sys_inv {#} s1 \<and> (if ww_pump s = None then ww_pump s1 = None else cf_pump s1 = Gone) \<and> ww_iocp s1 = ww_iocp s \<and>
      next_exit s1 = next_exit s \<and> next_sentinel s1 = next_sentinel s"
    using 1 inv pump_drop_joins [OF inv _ assms(3)] by (cases "ww_pump s") auto
  obtain y s2 where 2: "run_state (job_drop os (wj_job ww)) s1 = (y, s2)" by (metis surj_pair)
  obtain w cs where s2: "s2 = s1\<lparr>world := w, calls := cs\<rparr>" using job_drop_inv [OF 2] by blast
  have 3: "run_state (case ww_iocp s2 of Some p \<Rightarrow> iocp_drop os (listener_turns m os) p | None \<Rightarrow> State_Monad.return ()) s2 = (u, t)"
    using assms(2) 1 2 by (simp add: worrywart_drop_def State_Monad.get_def)
  have i3: "sys_inv {#} t \<and> cf_pump t = cf_pump s1 \<and> ww_pump t = ww_pump s1 \<and> next_exit t = next_exit s \<and>
      next_sentinel t = next_sentinel s \<and> (ww_iocp s = None \<longrightarrow> ww_iocp t = None)"
    using 3 i1 iocp_drop_inv [of "{#}" s2 os m _ u t] by (cases "ww_iocp s2") (auto simp: s2)
  have gone: "cf_pump t = Gone \<or> ww_pump t = None" "cf_listener t = Gone \<or> ww_iocp t = None"
    using i1 i3 assms(4) by (auto split: if_splits)
  have "\<exists>i. wk_sentinel_rx ch = Some i \<and> sentinel_answers t i"
    if "ch \<in> set (cf_children s)" "fst (run_state (wait_diagnosed os ch) t) = None" for ch
    using wait_diagnosed_waits [OF that(2)]
  proof (elim disjE exE conjE)
    fix i assume "wk_exit_rx ch = Some i" "ch_senders (exits t i) \<noteq> 0"
    moreover have "i < next_exit t" using known [OF that(1)] calculation(1) i3 by (simp add: child_known_def)
    ultimately show ?thesis using all_hung_up [OF conjunct1 [OF i3] gone] by simp
  next
    fix i assume "wk_sentinel_rx ch = Some i" "ch_senders (sentinels t i) \<noteq> 0"
    then show ?thesis
      using known [OF that(1)] i3 by (auto simp: sys_inv_def sentinels_ok_def child_known_def sentinel_answers_def)
  qed
  then show ?thesis using i1 i3 by (auto split: if_splits)
qed

lemma job_config_children: "\<exists>ch. cf_children job_config = [ch] \<and> wk_sentinel_rx ch = None"
  by (simp add: job_config_def spawn_eval init_config_def ww_sys.defs)

lemma job_config_queue: "ch_buf (inbox job_config) = []"
  by (simp add: job_config_def spawn_eval init_config_def ww_sys.defs)

lemma job_config_dropped: "cf_listener (snd (run_state (worrywart_drop spawn_os 1 1 \<lparr>wj_job = 0x50\<rparr>) job_config)) = Gone"
  by (simp add: job_config_def spawn_eval init_config_def ww_sys.defs worrywart_drop_def job_drop_def iocp_drop_def
      listener_turn_def waiting_def iocp_turn_def drain_registrations_def register_waiter_def get_status_def SHUTDOWN_KEY_def
      drain_remaining.simps end_listener_def drop_exit_sender_def)

lemma debugged_reachable:
  "\<exists>s ch. reachable loader_os s \<and> cf_children s = [ch] \<and> wk_sentinel_rx ch = None \<and> ww_pump s \<noteq> None \<and>
     cf_pump s \<noteq> Gone \<and> ww_iocp s = None \<and> ch_buf (inbox s) = []"
proof -
  obtain ch t ce where d: "debugged = (Some (Inr ch), t)" "wk_sentinel_rx ch = None"
    and p: "cf_pump t = Running [(101, ce)]" "ww_pump t \<noteq> None" "ch_buf (inbox t) = []" "ww_iocp t = None"
    using debugged_run by blast
  have "cf_children (init_config (1::nat)) = []" by (simp add: init_config_def ww_sys.defs)
  then have "reachable loader_os (t\<lparr>cf_children := [ch]\<rparr>)"
    using step.Spawn_Child [OF d(1) [unfolded debugged_def]] by (auto intro: r_into_rtranclp)
  then show ?thesis using d(2) p by (intro exI [of _ "t\<lparr>cf_children := [ch]\<rparr>"] exI [of _ ch]) simp
qed

text \<open>A debugged child: the pump is joined and the wait returns. A monitored one: the listener is.\<close>

theorem worrywart_drop_frees_waiters_witness:
  "(\<exists>s t ch. run_state (worrywart_drop loader_os 1 0 \<lparr>wj_job = 0x50\<rparr>) s = ((), t) \<and> cf_children s = [ch] \<and> cf_pump s \<noteq> Gone \<and>
      cf_pump t = Gone \<and> fst (run_state (wait_diagnosed loader_os ch) t) \<noteq> None) \<and>
   (\<exists>t ch. run_state (worrywart_drop spawn_os 1 1 \<lparr>wj_job = 0x50\<rparr>) job_config = ((), t) \<and> cf_children job_config = [ch] \<and>
      cf_listener t = Gone \<and> fst (run_state (wait_diagnosed spawn_os ch) t) \<noteq> None)"
proof
  obtain s ch where s: "reachable loader_os s" "cf_children s = [ch]" "wk_sentinel_rx ch = None" "ww_pump s \<noteq> None"
    "cf_pump s \<noteq> Gone" "ww_iocp s = None" "ch_buf (inbox s) = []" using debugged_reachable by blast
  obtain u t where t: "run_state (worrywart_drop loader_os 1 0 \<lparr>wj_job = 0x50\<rparr>) s = (u, t)" by (metis surj_pair)
  then show "\<exists>s t ch. run_state (worrywart_drop loader_os 1 0 \<lparr>wj_job = 0x50\<rparr>) s = ((), t) \<and> cf_children s = [ch] \<and>
      cf_pump s \<noteq> Gone \<and> cf_pump t = Gone \<and> fst (run_state (wait_diagnosed loader_os ch) t) \<noteq> None"
    using worrywart_drop_frees_waiters [OF s(1) t] s
    by (intro exI [of _ s] exI [of _ t] exI [of _ ch]) auto
next
  obtain u t where t: "run_state (worrywart_drop spawn_os 1 1 \<lparr>wj_job = 0x50\<rparr>) job_config = (u, t)" by (metis surj_pair)
  have g: "cf_listener t = Gone" using job_config_dropped t by simp
  obtain ch where "cf_children job_config = [ch]" "wk_sentinel_rx ch = None" using job_config_children by blast
  then show "\<exists>t ch. run_state (worrywart_drop spawn_os 1 1 \<lparr>wj_job = 0x50\<rparr>) job_config = ((), t) \<and> cf_children job_config = [ch] \<and>
      cf_listener t = Gone \<and> fst (run_state (wait_diagnosed spawn_os ch) t) \<noteq> None"
    using worrywart_drop_frees_waiters [OF job_config_reachable t] g t job_config_queue by auto
qed

end
