(* ===== verification/Spec2Isabelle.thy ===== *)
theory Spec2Isabelle
  imports CommandLine EnvBlock Diagnosis Compat Handles Teardown
begin

text \<open>
  \<^bold>\<open>Worrywart: a model of the crate and what is proved of it\<close>

  The crate \<open>worrywart\<close> (\<open>src/crates/worrywart\<close>) starts child processes on Windows and says how
  they ended: \<open>CleanExit\<close>, \<open>Crash\<close>, \<open>FastFail\<close>, \<open>ExternalKill\<close> or \<open>Unknown\<close>. A \<open>Worrywart\<close>
  (\<open>src/core.rs\<close>) owns a kill-on-close job object, and, started at their first use, a debug pump
  thread (\<open>src/pump.rs\<close>) and a completion port listener thread (\<open>src/iocp.rs\<close>). A
  \<open>WorrywartCommand\<close> collects what a child is to be and \<open>spawn\<close> takes one of three paths by the
  monitors asked for: the pump creates and debugs the process, or the caller creates it in the job
  and registers it with the listener, or the standard library spawns it. The sentinel monitor adds a
  pipe, its listener thread (\<open>src/sentinel.rs\<close>) and an environment variable the child reads
  (\<open>src/bin/helper_sentinel.rs\<close>). The threads answer over one-shot channels; \<open>WorrywartChild\<close>
  waits on them and falls back to a plain wait on the process handle. \<open>src/compat.rs\<close> is a thin
  layer over tokio with the same names.

  \<^bold>\<open>Theories and the code they model\<close>

  \<^item> \<open>Prelude\<close>: machine types, \<open>io::Error\<close>, \<open>?\<close> as \<open>try_bind\<close>, shared lemmas, the locale
    \<open>codec\<close> of an encoder and its reader. \<open>Utf16\<close>: UTF-16, of which the command line is made.
  \<^item> \<open>CommandLine\<close>: \<open>quote_arg\<close> and \<open>build_command_line\<close> of \<open>core.rs\<close>, against the documented
    splitting rules of Windows. \<open>EnvBlock\<close>: \<open>build_env_block\<close>, against the reader of a block.
    \<open>Builder\<close>: the methods of \<open>WorrywartCommand\<close>, against the environment their comments promise.
  \<^item> \<open>Channel\<close>: the channels of \<open>std::sync::mpsc\<close>, with the locale \<open>fifo\<close> and the states of a
    one-shot channel. \<open>Runtime\<close>: the Win32 functions as a record \<open>win32\<close> of parameters, the log of
    the calls made, the store of channels, and the ledger \<open>held\<close> of open handles read off the log.
  \<^item> \<open>Termination\<close>: \<open>termination.rs\<close>, \<open>monitor.rs\<close> and the cached snapshot of \<open>core.rs\<close>.
  \<^item> \<open>Process\<close>: \<open>create_process_impl\<close> and its two callers in \<open>pump.rs\<close>. \<open>Pump\<close>:
    \<open>dispatch_event\<close> and \<open>classify_exit\<close>, against the documented rules on a whole history of events.
    \<open>PumpLoop\<close>: \<open>pump_loop\<close> and the methods of \<open>Pump\<close>. \<open>Router\<close>: the locale of tables that route
    an event to the entry of its process, with the pump and the listener as its instances.
  \<^item> \<open>Iocp\<close>: \<open>iocp.rs\<close>. \<open>Sentinel\<close>: \<open>sentinel.rs\<close> and \<open>helper_sentinel.rs\<close>.
  \<^item> \<open>Child\<close>: \<open>WorrywartChild\<close>. \<open>Spawn\<close>: \<open>Worrywart\<close> and the paths of \<open>spawn\<close>; \<open>Spawned\<close>: what a
    whole spawn does. \<open>Diagnosis\<close>: from the events of a child to the answer of \<open>wait_diagnosed\<close>.
  \<^item> \<open>Frames\<close>, \<open>System\<close>, \<open>Callers\<close>, \<open>Safety\<close>: the threads together. A configuration is the shared
    state with the private state of the pump and of the listener; a step is an operation of a caller
    or a turn of a thread. The invariant is proved for each kind of step and holds in every reachable
    configuration. \<open>Handles\<close>: the owners of all handles, over the same steps. \<open>Teardown\<close>: the end of a
    \<open>Worrywart\<close>. \<open>Compat\<close>: \<open>compat.rs\<close> over an abstract tokio, and against tokio itself.

  \<^bold>\<open>How code becomes definitions\<close>

  A function that calls the system is a computation in the state monad over the record \<open>sys\<close>, which
  is extended by the pump's queue (\<open>pump_sys\<close>), the listener's (\<open>worry_sys\<close>), the two lazily started
  threads (\<open>ww_sys\<close>) and the threads themselves (\<open>config\<close>). Each Win32 call goes through \<open>api\<close>,
  which asks the parameter and appends the call with its answer to the log, so that a theorem about
  every \<open>win32\<close> is one about every behaviour of the system, failures included. A \<open>Result\<close> is a sum
  with \<open>io_error\<close> on the left; \<open>None\<close> is a call that has not returned. Handles and identifiers are
  words, an \<open>i32\<close> is an \<open>int\<close> read from the same 32 bits. Hash maps whose order is not used are
  association lists. What the documentation of Windows promises is a named hypothesis where a theorem
  needs it: \<open>reads_pipe\<close> and \<open>writes_pipe\<close>, \<open>times_out\<close> (a timed-out wait leaves its out-variables
  alone), \<open>port_contract\<close>, and of tokio \<open>documented_pipes\<close>; each such theorem has a witness over a
  concrete instance. Two functions are folds over events, \<open>dispatch_all\<close> and \<open>listener_run\<close>;
  \<open>pump_loop_events\<close> and \<open>iocp_turn_events\<close> relate them to the loops, where the waits and
  continuations lie in between.

  \<^bold>\<open>What the groups of lemmas show\<close>

  \<^item> Functional behaviour and round trips: the command line is read back as the arguments given, the
    block as the merged environment, the classification of a child is the verdict of its history.
  \<^item> Ledgers: what each operation opens and closes, on every path, and the paths that leak.
  \<^item> Channels: \<open>channels_ok\<close> and \<open>accounts\<close> say that every sender a thread holds is the only one of
    its channel and is used or dropped; \<open>owns\<close> states it for all threads at once.
  \<^item> Termination: the sentinel thread returns when its pipe ends, the drain of the port when the port
    is empty, the pump within as many turns as messages are queued before \<open>Shutdown\<close>.
  \<^item> System: a caller that waits, waits for a thread that lives and holds the sender; nobody closes a
    handle that somebody else owns, though the pump may use one whose owner has closed it.

  \<^bold>\<open>Loops, fuel and atomicity\<close>

  \<open>pump_loop n\<close> runs at most \<open>n\<close> turns and says \<open>Again\<close> when they are used up; nothing is concluded
  from \<open>Again\<close> but the invariant, and \<open>pump_shutdown_returns\<close> gives the number of turns that are
  enough. \<open>iocp_loop n\<close> likewise says \<open>Listening\<close>. The sentinel loop and the drain are partial
  functions: \<open>None\<close> is a loop that goes on for ever. What runs on other threads while a call waits is the argument \<open>others\<close> of \<open>spawn\<close>,
  \<open>pump_drop\<close> and \<open>iocp_drop\<close>; in \<open>System\<close> it is a number of turns of the thread waited for. Turns and
  operations are atomic there: they share only channels, the two cells guarded by a mutex that is held
  for the whole use, and the world, about which nothing is assumed. A \<open>wait_diagnosed\<close> that would
  block is no step, and neither is a spawn the pump has not answered: they are taken when they return.

  \<^bold>\<open>Not modelled\<close>

  \<open>lib.rs\<close> declares modules and re-exports. The programs \<open>helper_crash\<close>, \<open>helper_exit0\<close>,
  \<open>helper_fastfail\<close> and \<open>helper_sleep\<close> consist of one call whose effect is that of the system. Log
  macros, texts on stderr, \<open>Display\<close> and \<open>Debug\<close>, the counts behind \<open>Arc\<close> and the poisoning of a
  \<open>Mutex\<close> have no part in the results. The branches for other systems than Windows are stubs. The
  ledger counts an attempted \<open>CloseHandle\<close> as a close, whatever it answers. Tests, CI and tools are
  not part of the library.
\<close>

end
